(* ===== verification/Prelude.thy ===== *)
theory Prelude
  imports Main "HOL-Library.Word" "HOL-Library.Char_ord" "HOL-Library.List_Lexorder"
    "HOL-Library.Sublist"
begin

text \<open>
  The vocabulary the components share: byte strings with the bytewise order, the C++ integer
  conversions between int64_t, uint64_t and int, and the generic facts on ordered lists,
  prefixes and maps that the component proofs use.

  A std::string is a \<open>char list\<close> (a HOL char is a byte).  An int64_t value is an \<open>int\<close>;
  the conversions below write out where a value is reduced to its width.
\<close>

type_synonym bytes = string

named_theorems key_simps \<open>disjointness and injectivity of the storage keys\<close>
named_theorems batch_simps \<open>contents of a database after a write batch\<close>
named_theorems spec_simps \<open>the operations of the abstract multi-version store\<close>

section \<open>Machine integers\<close>

definition i64 :: "int \<Rightarrow> bool" where
  "i64 v \<longleftrightarrow> - (2 ^ 63) \<le> v \<and> v < 2 ^ 63"

definition nn64 :: "int \<Rightarrow> bool" where
  "nn64 v \<longleftrightarrow> 0 \<le> v \<and> v < 2 ^ 63"

definition u64 :: "int \<Rightarrow> 64 word" where
  "u64 v = word_of_int v"

definition s64 :: "64 word \<Rightarrow> int" where
  "s64 w = sint w"

definition i32 :: "int \<Rightarrow> int" where
  "i32 v = sint (word_of_int v :: 32 word)"

definition inc64 :: "int \<Rightarrow> int" where
  "inc64 v = s64 (u64 (v + 1))"

lemma nn64_i64 [simp]: "nn64 v \<Longrightarrow> i64 v"
  by (simp add: nn64_def i64_def)

lemma s64_u64: "i64 v \<Longrightarrow> s64 (u64 v) = v"
  by (simp add: s64_def u64_def i64_def sint_sbintrunc' signed_take_bit_int_eq_self)

lemma inc64_eq: "i64 (v + 1) \<Longrightarrow> inc64 v = v + 1"
  by (simp add: inc64_def s64_u64)

lemma inc64_nn [simp]: "nn64 (v + 1) \<Longrightarrow> inc64 v = v + 1"
  by (simp add: inc64_eq)

lemma inc64_max: "inc64 (2 ^ 63 - 1) = - (2 ^ 63)"
  by (simp add: inc64_def s64_def u64_def)

lemma u64_inj: "i64 a \<Longrightarrow> i64 b \<Longrightarrow> u64 a = u64 b \<longleftrightarrow> a = b"
  by (metis s64_u64)

lemma unat_u64: "nn64 v \<Longrightarrow> unat (u64 v) = nat v"
  by (simp add: u64_def nn64_def unat_eq_nat_uint uint_word_of_int)

lemma i32_le: "0 \<le> n \<Longrightarrow> i32 n \<le> n"
proof -
  assume "0 \<le> n"
  have "(n + 2 ^ 31) mod 2 ^ 32 \<le> n + 2 ^ 31"
    using \<open>0 \<le> n\<close> by (intro zmod_le_nonneg_dividend) simp
  then show ?thesis by (simp add: i32_def int_word_sint)
qed

lemma i32_id: "- (2 ^ 31) \<le> n \<Longrightarrow> n < 2 ^ 31 \<Longrightarrow> i32 n = n"
  by (simp add: i32_def sint_sbintrunc' signed_take_bit_int_eq_self)

section \<open>Bytewise order on strings\<close>

text \<open>Strings of one length compare on their own: what follows them does not matter.\<close>

lemma append_less_same_length:
  fixes xs ys :: "'a::linorder list"
  shows "length xs = length ys \<Longrightarrow> xs < ys \<Longrightarrow> xs @ us < ys @ vs"
  by (induction xs ys rule: list_induct2) auto

lemma append_less_cancel [simp]:
  fixes xs :: "'a::linorder list"
  shows "xs @ us < xs @ vs \<longleftrightarrow> us < vs"
  by (induction xs) auto

lemma append_le_cancel [simp]:
  fixes xs :: "'a::linorder list"
  shows "xs @ us \<le> xs @ vs \<longleftrightarrow> us \<le> vs"
  by (induction xs) auto

lemma prefix_le:
  fixes p :: "'a::linorder list"
  shows "prefix p x \<Longrightarrow> p \<le> x"
  by (metis Nil_le_Cons append.right_neutral append_le_cancel prefixE)

text \<open>The keys with a given prefix are contiguous in the bytewise order.\<close>

lemma prefix_convex:
  fixes p :: "'a::linorder list"
  shows "p \<le> x \<Longrightarrow> x \<le> y \<Longrightarrow> prefix p y \<Longrightarrow> prefix p x"
proof (induction p arbitrary: x y)
  case Nil
  then show ?case by simp
next
  case (Cons a p)
  from Cons.prems(1) obtain b x' where x: "x = b # x'"
    by (cases x) auto
  from Cons.prems(2,3) x obtain y' where y: "y = a # y'" "prefix p y'"
    by (cases y) auto
  from Cons.prems(1,2) x y have "b = a" "p \<le> x'" "x' \<le> y'"
    by auto
  with Cons.IH y x show ?case by simp
qed

section \<open>Ordered association lists\<close>

definition keys_sorted :: "(bytes \<times> 'v) list \<Rightarrow> bool" where
  "keys_sorted es \<longleftrightarrow> sorted_wrt (<) (map fst es)"

lemma keys_sorted_Nil [simp]: "keys_sorted []"
  by (simp add: keys_sorted_def)

lemma keys_sorted_Cons [simp]:
  "keys_sorted ((k, v) # es) \<longleftrightarrow> (\<forall>e \<in> set es. k < fst e) \<and> keys_sorted es"
  by (auto simp: keys_sorted_def)

lemma keys_sorted_distinct: "keys_sorted es \<Longrightarrow> distinct (map fst es)"
  unfolding keys_sorted_def by (induction es) auto

lemma keys_sorted_unique:
  "keys_sorted es \<Longrightarrow> (k, v) \<in> set es \<Longrightarrow> (k, w) \<in> set es \<Longrightarrow> v = w"
  by (metis eq_key_imp_eq_value keys_sorted_distinct)

lemma keys_sorted_filter: "keys_sorted es \<Longrightarrow> keys_sorted (filter P es)"
  by (induction es) (auto simp: keys_sorted_def)

text \<open>
  An iterator loop runs while the key has the prefix; on ordered entries that start at or
  after the prefix it visits exactly the entries with the prefix.
\<close>

lemma takeWhile_prefix_filter:
  assumes "keys_sorted es" and "\<forall>e \<in> set es. p \<le> fst e"
  shows "takeWhile (\<lambda>e. prefix p (fst e)) es = filter (\<lambda>e. prefix p (fst e)) es"
  using assms
proof (induction es)
  case Nil
  then show ?case by simp
next
  case (Cons e es)
  obtain k v where e: "e = (k, v)" by (cases e)
  show ?case
  proof (cases "prefix p k")
    case True
    with Cons e show ?thesis by simp
  next
    case False
    have "\<not> prefix p (fst x)" if x: "x \<in> set es" for x
    proof
      assume "prefix p (fst x)"
      moreover have "p \<le> k" "k \<le> fst x"
        using Cons.prems e x by auto
      ultimately show False using prefix_convex False by blast
    qed
    then have "filter (\<lambda>e. prefix p (fst e)) es = []"
      by (simp add: filter_empty_conv)
    with False e show ?thesis by simp
  qed
qed

section \<open>Lists\<close>

lemma sorted_wrt_less_unique:
  fixes xs ys :: "'a::linorder list"
  assumes "sorted_wrt (<) xs" "sorted_wrt (<) ys" "set xs = set ys"
  shows "xs = ys"
  using assms by (simp add: strict_sorted_equal)

lemma upto_split3: "a \<le> b \<Longrightarrow> b \<le> c \<Longrightarrow> [a + 1..c] = [a + 1..b] @ [b + 1..c]"
  for a b c :: int
proof -
  assume "a \<le> b" "b \<le> c"
  have "set [a + 1..c] = set ([a + 1..b] @ [b + 1..c])"
    using \<open>a \<le> b\<close> \<open>b \<le> c\<close> by auto
  moreover have "sorted_wrt (<) ([a + 1..b] @ [b + 1..c])"
    by (auto simp: sorted_wrt_append)
  ultimately show ?thesis
    by (intro sorted_wrt_less_unique) auto
qed

lemma sorted_wrt_strict_upto: "sorted_wrt (<) [a..b :: int]"
  by simp

text \<open>In a strictly ordered list the elements above one of them are those after it.\<close>

lemma card_above_nth:
  fixes xs :: "'a::linorder list"
  assumes "sorted_wrt (<) xs" "i < length xs"
  shows "card {y \<in> set xs. xs ! i < y} = length xs - 1 - i"
proof -
  have "{y \<in> set xs. xs ! i < y} = set (drop (Suc i) xs)"
  proof (intro set_eqI iffI)
    fix y assume "y \<in> {y \<in> set xs. xs ! i < y}"
    then obtain j where j: "j < length xs" "y = xs ! j" "xs ! i < xs ! j" by (auto simp: in_set_conv_nth)
    then have "i < j" using assms(1) by (metis linorder_neqE_nat order.asym sorted_wrt_nth_less assms(2))
    then show "y \<in> set (drop (Suc i) xs)" using j
      by (auto simp: in_set_conv_nth intro!: exI [of _ "j - Suc i"])
  next
    fix y assume "y \<in> set (drop (Suc i) xs)"
    then obtain j where "j < length xs - Suc i" "y = xs ! (Suc i + j)" by (auto simp: in_set_conv_nth)
    then show "y \<in> {y \<in> set xs. xs ! i < y}"
      using sorted_wrt_nth_less [OF assms(1), of i "Suc i + j"] by simp
  qed
  moreover have "distinct (drop (Suc i) xs)"
    using assms(1) by (simp add: strict_sorted_iff)
  ultimately show ?thesis by (simp add: distinct_card)
qed

text \<open>An index over records whose key determines the record.\<close>

lemma map_of_index:
  assumes "inj_on f (set xs)"
  shows "map_of (map (\<lambda>x. (f x, x)) xs) k = Some x \<longleftrightarrow> x \<in> set xs \<and> f x = k"
  using assms
proof (induction xs)
  case (Cons a xs)
  then show ?case by (auto simp: inj_on_def)
qed simp

lemma map_eqI_Some: "(\<And>k x. f k = Some x \<longleftrightarrow> g k = Some x) \<Longrightarrow> f = g"
  by (rule ext) (metis not_Some_eq)

end
