(* ===== verification/CStdlib.thy ===== *)
theory CStdlib
  imports Prelude
begin

text \<open>
  What the sources use of the C and C++ standard library: fixed-width hexadecimal output
  (snprintf with "%016llx"), strtoll and std::stoll, and std::string's substr, find and rfind.
  Exceptions are values: a call that throws is \<open>Inl\<close> of the exception.
\<close>

datatype cxx_exn = Invalid_argument | Out_of_range | Length_error

section \<open>snprintf "%016llx"\<close>

definition hex_digit :: "nat \<Rightarrow> char" where
  "hex_digit d = (if d < 10 then char_of (48 + d) else char_of (87 + d))"

fun hex_digits :: "nat \<Rightarrow> nat \<Rightarrow> string" where
  "hex_digits 0 x = []"
| "hex_digits (Suc n) x = hex_digits n (x div 16) @ [hex_digit (x mod 16)]"

definition snprintf_016llx :: "64 word \<Rightarrow> string" where
  "snprintf_016llx w = hex_digits 16 (unat w)"

text \<open>Digits by table, for evaluation.\<close>

lemma hex_digit_code [code]:
  "hex_digit d = (if d < 16 then ''0123456789abcdef'' ! d else char_of (87 + d))"
proof (cases "d < 16")
  case True
  then have "d = 0 \<or> d = 1 \<or> d = 2 \<or> d = 3 \<or> d = 4 \<or> d = 5 \<or> d = 6 \<or> d = 7 \<or> d = 8 \<or> d = 9 \<or>
      d = 10 \<or> d = 11 \<or> d = 12 \<or> d = 13 \<or> d = 14 \<or> d = 15" by presburger
  then show ?thesis by (elim disjE) (simp_all add: hex_digit_def char_of_def bit_simps)
qed (simp add: hex_digit_def)

lemma length_hex_digits [simp]: "length (hex_digits n x) = n"
  by (induction n arbitrary: x) auto

lemma of_char_hex_digit:
  "d < 16 \<Longrightarrow> of_char (hex_digit d) = (if d < 10 then 48 + d else 87 + d :: nat)"
  by (simp add: hex_digit_def)

lemma hex_digit_less: "a < b \<Longrightarrow> b < 16 \<Longrightarrow> hex_digit a < hex_digit b"
  by (simp add: less_char_def of_char_hex_digit)

lemma hex_digits_less:
  "x < y \<Longrightarrow> y < 16 ^ n \<Longrightarrow> hex_digits n x < hex_digits n y"
proof (induction n arbitrary: x y)
  case 0
  then show ?case by simp
next
  case (Suc n)
  have y: "y div 16 < 16 ^ n"
    using Suc.prems(2) by (simp add: less_mult_imp_div_less mult.commute)
  show ?case
  proof (cases "x div 16 = y div 16")
    case True
    with Suc.prems(1) have "x mod 16 < y mod 16"
      by (metis div_mult_mod_eq nat_add_left_cancel_less)
    with True show ?thesis by (simp add: hex_digit_less)
  next
    case False
    with Suc.prems(1) have "x div 16 < y div 16"
      by (meson div_le_mono le_neq_implies_less less_imp_le)
    with Suc.IH [OF _ y] show ?thesis
      by (simp add: append_less_same_length)
  qed
qed

section \<open>strtoll and std::stoll\<close>

definition is_space :: "char \<Rightarrow> bool" where
  "is_space c \<longleftrightarrow> of_char c = (32::nat) \<or> 9 \<le> (of_char c :: nat) \<and> of_char c \<le> (13::nat)"

definition digit_val :: "char \<Rightarrow> nat option" where
  "digit_val c = (let n = of_char c :: nat in
     if 48 \<le> n \<and> n \<le> 57 then Some (n - 48)
     else if 97 \<le> n \<and> n \<le> 122 then Some (n - 87)
     else if 65 \<le> n \<and> n \<le> 90 then Some (n - 55)
     else None)"

definition is_digit :: "nat \<Rightarrow> char \<Rightarrow> bool" where
  "is_digit base c = (case digit_val c of None \<Rightarrow> False | Some d \<Rightarrow> d < base)"

fun digits_value :: "nat \<Rightarrow> nat \<Rightarrow> string \<Rightarrow> nat" where
  "digits_value base acc [] = acc"
| "digits_value base acc (c # cs) =
     digits_value base (acc * base + (case digit_val c of None \<Rightarrow> 0 | Some d \<Rightarrow> d)) cs"

definition skip_0x :: "nat \<Rightarrow> string \<Rightarrow> string" where
  "skip_0x base s =
     (if base = 16 \<and> 2 < length s \<and> s ! 0 = CHR ''0'' \<and> (s ! 1 = CHR ''x'' \<or> s ! 1 = CHR ''X'')
         \<and> is_digit 16 (s ! 2)
      then drop 2 s else s)"

text \<open>
  \<open>strtoll s base = (converted, in_range, v)\<close>: whether a digit was read, whether the value
  fits in 64 bits (errno is not ERANGE), and the value returned, clamped when it does not fit.
\<close>

definition strtoll :: "string \<Rightarrow> nat \<Rightarrow> bool \<times> bool \<times> int" where
  "strtoll s base =
    (let s1 = dropWhile is_space s;
         neg = (s1 \<noteq> [] \<and> hd s1 = CHR ''-'');
         s2 = (if s1 \<noteq> [] \<and> (hd s1 = CHR ''-'' \<or> hd s1 = CHR ''+'') then tl s1 else s1);
         ds = takeWhile (is_digit base) (skip_0x base s2);
         v = (if neg then - int (digits_value base 0 ds) else int (digits_value base 0 ds))
     in if ds = [] then (False, True, 0)
        else if v < - (2 ^ 63) then (True, False, - (2 ^ 63))
        else if 2 ^ 63 - 1 < v then (True, False, 2 ^ 63 - 1)
        else (True, True, v))"

definition stoll :: "string \<Rightarrow> nat \<Rightarrow> cxx_exn + int" where
  "stoll s base =
    (case strtoll s base of (conv, fits, v) \<Rightarrow>
       if \<not> conv then Inl Invalid_argument
       else if \<not> fits then Inl Out_of_range
       else Inr v)"

lemma strtoll_range: "strtoll s base = (c, r, v) \<Longrightarrow> i64 v"
  by (auto simp: strtoll_def Let_def i64_def split: if_splits)

lemma digit_val_hex_digit [simp]: "d < 16 \<Longrightarrow> digit_val (hex_digit d) = Some d"
  by (auto simp: digit_val_def of_char_hex_digit Let_def)

lemma digits_value_append:
  "digits_value base acc (xs @ ys) = digits_value base (digits_value base acc xs) ys"
  by (induction xs arbitrary: acc) auto

lemma digits_value_hex_digits:
  "x < 16 ^ n \<Longrightarrow> digits_value 16 0 (hex_digits n x) = x"
proof (induction n arbitrary: x)
  case 0
  then show ?case by simp
next
  case (Suc n)
  then have "x div 16 < 16 ^ n"
    by (simp add: less_mult_imp_div_less mult.commute)
  with Suc.IH show ?case by (simp add: digits_value_append)
qed

lemma set_hex_digits: "c \<in> set (hex_digits n x) \<Longrightarrow> \<exists>d<16. c = hex_digit d"
proof (induction n arbitrary: x)
  case (Suc n)
  then show ?case using mod_less_divisor [of 16 x] by (auto intro: exI [of _ "x mod 16"])
qed simp

lemma hex_digit_plain:
  assumes "d < 16"
  shows "is_digit 16 (hex_digit d)" "\<not> is_space (hex_digit d)" "hex_digit d \<noteq> CHR ''-''"
    "hex_digit d \<noteq> CHR ''+''" "hex_digit d \<noteq> CHR ''x''" "hex_digit d \<noteq> CHR ''X''"
    "hex_digit d \<noteq> CHR ''/''"
proof -
  let ?n = "of_char (hex_digit d) :: nat"
  have n: "48 \<le> ?n \<and> ?n \<le> 57 \<or> 97 \<le> ?n \<and> ?n \<le> 102"
    using assms by (auto simp: of_char_hex_digit)
  show "is_digit 16 (hex_digit d)" using assms by (simp add: is_digit_def)
  show "\<not> is_space (hex_digit d)" using n by (auto simp: is_space_def)
  show "hex_digit d \<noteq> CHR ''-''" "hex_digit d \<noteq> CHR ''+''" "hex_digit d \<noteq> CHR ''x''"
    "hex_digit d \<noteq> CHR ''X''" "hex_digit d \<noteq> CHR ''/''"
    using n by auto
qed

lemma stoll_hex_digits:
  assumes "0 < n" "x < 16 ^ n"
  shows "stoll (hex_digits n x) 16 = (if int x < 2 ^ 63 then Inr (int x) else Inl Out_of_range)"
proof -
  let ?s = "hex_digits n x"
  have plain: "is_digit 16 c \<and> \<not> is_space c \<and> c \<noteq> CHR ''-'' \<and> c \<noteq> CHR ''+'' \<and>
      c \<noteq> CHR ''x'' \<and> c \<noteq> CHR ''X''" if "c \<in> set ?s" for c
    using set_hex_digits [OF that] by (auto simp: hex_digit_plain)
  have ne: "?s \<noteq> []" using assms(1) by (metis length_hex_digits length_0_conv less_not_refl)
  then have hd: "hd ?s \<in> set ?s" by simp
  have space: "dropWhile is_space ?s = ?s"
    using plain [OF hd] ne by (cases ?s) auto
  have skip: "skip_0x 16 ?s = ?s"
  proof -
    have "?s ! 1 \<in> set ?s" if "2 < length ?s" using that by (intro nth_mem) simp
    then show ?thesis using plain by (metis skip_0x_def)
  qed
  have digits: "takeWhile (is_digit 16) ?s = ?s"
    using plain by (simp add: takeWhile_eq_all_conv)
  show ?thesis
    using plain [OF hd] ne assms(2)
    by (simp add: stoll_def strtoll_def space skip digits Let_def digits_value_hex_digits)
qed

section \<open>std::string\<close>

definition substr :: "string \<Rightarrow> nat \<Rightarrow> nat \<Rightarrow> cxx_exn + string" where
  "substr s pos n = (if length s < pos then Inl Out_of_range else Inr (take n (drop pos s)))"

definition substr_from :: "string \<Rightarrow> nat \<Rightarrow> cxx_exn + string" where
  "substr_from s pos = (if length s < pos then Inl Out_of_range else Inr (drop pos s))"

end
