(* ===== verification/StoreKey.thy ===== *)
theory StoreKey
  imports CStdlib
begin

unbundle bit_operations_syntax

text \<open>
  src/src/common/storekey.cpp: the layout of the LevelDB keys and the two integer encodings.

  Beside the translated functions, this theory shows what the rest of the store relies on: the
  five key families are disjoint, a key determines its arguments, the fixed-width hexadecimal
  encoding orders strings as the numbers they encode, and both encodings round-trip.
\<close>

section \<open>The encodings\<close>

definition EncodeOrd :: "int \<Rightarrow> string" where
  "EncodeOrd v = snprintf_016llx (u64 v)"

definition DecodeOrd :: "string \<Rightarrow> cxx_exn + int" where
  "DecodeOrd hex = stoll hex 16"

fun EncodeUint64_loop :: "nat \<Rightarrow> 64 word \<Rightarrow> string \<Rightarrow> string" where
  "EncodeUint64_loop 0 v out = out"
| "EncodeUint64_loop (Suc i) v out =
     EncodeUint64_loop i (drop_bit 8 v) (out[i := char_of (unat (v AND 0xff))])"

definition EncodeUint64 :: "64 word \<Rightarrow> string" where
  "EncodeUint64 v = EncodeUint64_loop 8 v (replicate 8 (CHR 0x00))"

fun DecodeUint64_loop :: "string \<Rightarrow> 64 word \<Rightarrow> 64 word" where
  "DecodeUint64_loop [] v = v"
| "DecodeUint64_loop (c # cs) v = DecodeUint64_loop cs (push_bit 8 v OR of_nat (of_char c))"

definition DecodeUint64 :: "string \<Rightarrow> 64 word" where
  "DecodeUint64 inp = (if length inp < 8 then 0 else DecodeUint64_loop (take 8 inp) 0)"

section \<open>The keys\<close>

definition RevisionMetaKey :: bytes where
  "RevisionMetaKey = ''meta/revision''"

definition CompactRevKey :: bytes where
  "CompactRevKey = ''meta/compact_rev''"

definition MainKey :: "string \<Rightarrow> bytes" where
  "MainKey key = ''k/'' @ key"

definition VersionKey :: "int \<Rightarrow> string \<Rightarrow> bytes" where
  "VersionKey revision key = ''v/'' @ EncodeOrd revision @ ''/'' @ key"

definition ConfigKey :: "string \<Rightarrow> int \<Rightarrow> bytes" where
  "ConfigKey key version = ''cfg/'' @ key @ ''/'' @ EncodeOrd version"

section \<open>EncodeOrd and DecodeOrd\<close>

lemma length_EncodeOrd [simp]: "length (EncodeOrd v) = 16"
  by (simp add: EncodeOrd_def snprintf_016llx_def)

lemma unat_lt_16_16: "unat (w :: 64 word) < 16 ^ 16"
  using unsigned_less [of w, where 'a = nat] by simp

lemma DecodeOrd_EncodeOrd_cases:
  assumes "i64 v"
  shows "DecodeOrd (EncodeOrd v) = (if 0 \<le> v then Inr v else Inl Out_of_range)"
proof -
  have dec: "DecodeOrd (EncodeOrd v) =
      (if int (unat (u64 v)) < 2 ^ 63 then Inr (int (unat (u64 v))) else Inl Out_of_range)"
    unfolding DecodeOrd_def EncodeOrd_def snprintf_016llx_def
    by (rule stoll_hex_digits) (simp_all add: unat_lt_16_16 [simplified])
  show ?thesis
  proof (cases "0 \<le> v")
    case True
    with assms have "nn64 v" by (simp add: i64_def nn64_def)
    with True dec show ?thesis by (simp add: unat_u64 nn64_def del: of_nat_unat)
  next
    case False
    have "v mod 2 ^ 64 = (v + 2 ^ 64) mod 2 ^ 64" by simp
    also have "\<dots> = v + 2 ^ 64"
      using assms False by (intro mod_pos_pos_trivial) (auto simp: i64_def)
    finally have "uint (u64 v) = v + 2 ^ 64"
      by (simp add: u64_def uint_word_of_int)
    then have "int (unat (u64 v)) = v + 2 ^ 64"
      by simp
    with False dec assms show ?thesis by (simp add: i64_def)
  qed
qed

lemma DecodeOrd_EncodeOrd [simp]: "nn64 v \<Longrightarrow> DecodeOrd (EncodeOrd v) = Inr v"
  by (simp add: DecodeOrd_EncodeOrd_cases nn64_def i64_def)

lemma EncodeOrd_less: "nn64 a \<Longrightarrow> nn64 b \<Longrightarrow> a < b \<Longrightarrow> EncodeOrd a < EncodeOrd b"
  unfolding EncodeOrd_def snprintf_016llx_def
  by (rule hex_digits_less)
    (simp_all add: unat_u64 unat_lt_16_16 [simplified] nn64_def nat_less_eq_zless)

lemma EncodeOrd_less_iff: "nn64 a \<Longrightarrow> nn64 b \<Longrightarrow> EncodeOrd a < EncodeOrd b \<longleftrightarrow> a < b"
  by (metis EncodeOrd_less less_asym' linorder_less_linear)

lemma EncodeOrd_inj: "nn64 a \<Longrightarrow> nn64 b \<Longrightarrow> EncodeOrd a = EncodeOrd b \<longleftrightarrow> a = b"
  by (metis EncodeOrd_less less_irrefl linorder_less_linear)

section \<open>EncodeUint64 and DecodeUint64\<close>

lemma push_drop_low_byte: "push_bit 8 (drop_bit 8 v) OR (v AND 255) = v" for v :: "64 word"
proof (rule bit_eqI)
  fix n
  have "bit (255 :: 64 word) n \<longleftrightarrow> n < 8" if "n < 64"
    using that bit_mask_iff [of 8 n, where 'a = "64 word"] by (simp add: mask_eq_exp_minus_1)
  then show "bit (push_bit 8 (drop_bit 8 v) OR (v AND 255)) n = bit v n"
    if "possible_bit TYPE(64 word) n" using that
    by (auto simp: bit_simps)
qed

lemma drop_56_low_byte: "drop_bit 56 v AND 255 = drop_bit 56 v" for v :: "64 word"
proof (rule bit_eqI)
  fix n
  assume n: "possible_bit TYPE(64 word) n"
  then have "bit (255 :: 64 word) n \<longleftrightarrow> n < 8"
    using bit_mask_iff [of 8 n, where 'a = "64 word"] by (simp add: mask_eq_exp_minus_1)
  moreover have "\<not> bit v (56 + n)" if "8 \<le> n"
    using that impossible_bit [of "56 + n" v] by (auto simp: possible_bit_word)
  ultimately show "bit (drop_bit 56 v AND 255) n = bit (drop_bit 56 v) n"
    by (auto simp: bit_simps)
qed

lemma of_nat_byte: "of_nat (of_char (char_of (unat (v AND 255)))) = v AND 255" for v :: "64 word"
proof -
  have "unat (v AND 255) \<le> unat (255 :: 64 word)"
    by (rule word_and_le1 [THEN word_le_nat_alt [THEN iffD1]])
  then have "unat (v AND 255) mod 256 = unat (v AND 255)" by simp
  then show ?thesis by simp
qed

lemma EncodeUint64_bytes:
  "EncodeUint64 v = map (\<lambda>i. char_of (unat (drop_bit i v AND 255))) [56, 48, 40, 32, 24, 16, 8, 0]"
  by (simp add: EncodeUint64_def numeral_eq_Suc)

lemma length_EncodeUint64 [simp]: "length (EncodeUint64 v) = 8"
  by (simp add: EncodeUint64_bytes)

lemma push_drop_step:
  "push_bit 8 (drop_bit (8 + n) v) OR (drop_bit n v AND 255) = drop_bit n v" for v :: "64 word"
  using push_drop_low_byte [of "drop_bit n v"] by simp

lemma DecodeUint64_8: "length s = 8 \<Longrightarrow> DecodeUint64 s = DecodeUint64_loop s 0"
  by (simp add: DecodeUint64_def)

lemma DecodeUint64_EncodeUint64 [simp]: "DecodeUint64 (EncodeUint64 v) = v"
proof -
  have "DecodeUint64 (EncodeUint64 v) = drop_bit 0 v"
    using push_drop_step [of 48 v] push_drop_step [of 40 v] push_drop_step [of 32 v]
      push_drop_step [of 24 v] push_drop_step [of 16 v] push_drop_step [of 8 v]
      push_drop_step [of 0 v]
    unfolding DecodeUint64_8 [OF length_EncodeUint64]
    unfolding EncodeUint64_bytes list.map DecodeUint64_loop.simps of_nat_byte
    by (simp only: push_bit_of_0 or.left_neutral drop_56_low_byte arith_simps add_0_right)
  then show ?thesis by simp
qed

lemma s64_Decode_Encode [simp]: "i64 v \<Longrightarrow> s64 (DecodeUint64 (EncodeUint64 (u64 v))) = v"
  by (simp add: s64_u64)

text \<open>The two encodings by integer arithmetic, for evaluation.\<close>

lemma EncodeUint64_code [code]:
  "EncodeUint64 v = (let n = uint v in map (\<lambda>i. let b = n div i mod 256 in if b = 0 then CHR 0x00 else char_of b)
     [72057594037927936, 281474976710656, 1099511627776, 4294967296, 16777216, 65536, 256, 1])"
proof -
  have "char_of (unat (drop_bit i v AND 255)) = (char_of (uint v div 2 ^ i mod 256) :: char)" for i
  proof -
    have "drop_bit i v AND 255 = take_bit 8 (drop_bit i v)"
      using take_bit_eq_mask [of 8 "drop_bit i v"] by (simp add: mask_eq_exp_minus_1)
    moreover have "uint (take_bit 8 (drop_bit i v)) = take_bit 8 (drop_bit i (uint v))"
      by (simp only: unsigned_take_bit_eq unsigned_drop_bit_eq) (simp add: take_bit_int_eq_self unsigned_less [of v, where 'a = int, simplified])
    ultimately have "int (unat (drop_bit i v AND 255)) = uint v div 2 ^ i mod 256"
      by (simp add: drop_bit_eq_div take_bit_eq_mod)
    then show ?thesis
      using char_of_nat [of "unat (drop_bit i v AND 255)", where 'a = int] by simp
  qed
  note bytes = this
  have zero: "(if b = 0 then CHR 0x00 else char_of b) = (char_of b :: char)" for b :: int
    by (simp add: char_of_def)
  have pow: "(2 :: int) ^ 56 = 72057594037927936" "(2 :: int) ^ 48 = 281474976710656"
    "(2 :: int) ^ 40 = 1099511627776" "(2 :: int) ^ 32 = 4294967296" "(2 :: int) ^ 24 = 16777216"
    "(2 :: int) ^ 16 = 65536" "(2 :: int) ^ 8 = 256" "(2 :: int) ^ 0 = 1"
    by simp_all
  show ?thesis unfolding EncodeUint64_bytes list.map bytes pow Let_def zero ..
qed

lemma push_or_byte: "push_bit 8 v OR of_nat (of_char c) = v * 256 + of_nat (of_char c)" for v :: "64 word"
proof -
  have "of_nat (of_char c) = (take_bit 8 (of_nat (of_char c)) :: 64 word)"
    using take_bit_of_nat [of 8 "of_char c", where 'a = "64 word"] take_bit_nat_eq_self [of "of_char c" 8]
    by (simp add: nat_of_char_less_256)
  then have "bit (of_nat (of_char c) :: 64 word) n \<Longrightarrow> n < 8" for n
    by (metis bit_take_bit_iff)
  then have "push_bit 8 v + of_nat (of_char c) = push_bit 8 v OR of_nat (of_char c)"
    by (intro disjunctive_add) (meson bit_push_bit_iff not_le)
  then show ?thesis by (simp add: push_bit_eq_mult)
qed

lemma DecodeUint64_loop_int:
  "DecodeUint64_loop s (word_of_int n) = word_of_int (foldl (\<lambda>a c. a * 256 + of_char c) n s)"
proof (induction s arbitrary: n)
  case (Cons c s)
  have "push_bit 8 (word_of_int n) OR of_nat (of_char c) = (word_of_int (n * 256 + of_char c) :: 64 word)"
    unfolding push_or_byte of_nat_of_char [where 'a = int, symmetric] by simp
  with Cons show ?case by (simp only: DecodeUint64_loop.simps foldl.simps)
qed simp

lemma DecodeUint64_code [code]:
  "DecodeUint64 s = (if length s < 8 then 0 else word_of_int (foldl (\<lambda>a c. a * 256 + of_char c) 0 (take 8 s)))"
  using DecodeUint64_loop_int [of "take 8 s" 0] by (simp add: DecodeUint64_def)
section \<open>Key families\<close>

lemma MainKey_inj [key_simps, simp]: "MainKey a = MainKey b \<longleftrightarrow> a = b"
  by (simp add: MainKey_def)

lemma VersionKey_inj [key_simps, simp]:
  "nn64 r \<Longrightarrow> nn64 r' \<Longrightarrow> VersionKey r a = VersionKey r' b \<longleftrightarrow> r = r' \<and> a = b"
  by (simp add: VersionKey_def append_eq_append_conv EncodeOrd_inj)

lemma ConfigKey_inj [key_simps, simp]:
  "nn64 v \<Longrightarrow> nn64 v' \<Longrightarrow> ConfigKey a v = ConfigKey b v' \<longleftrightarrow> a = b \<and> v = v'"
proof -
  have "ConfigKey a v = ConfigKey b v' \<longleftrightarrow>
      (a @ ''/'') @ EncodeOrd v = (b @ ''/'') @ EncodeOrd v'"
    by (simp add: ConfigKey_def)
  also have "\<dots> \<longleftrightarrow> a @ ''/'' = b @ ''/'' \<and> EncodeOrd v = EncodeOrd v'"
    by (rule append_eq_append_conv) simp
  finally show "nn64 v \<Longrightarrow> nn64 v' \<Longrightarrow> ConfigKey a v = ConfigKey b v' \<longleftrightarrow> a = b \<and> v = v'"
    by (simp add: EncodeOrd_inj)
qed

lemma keys_disjoint [key_simps, simp]:
  "RevisionMetaKey \<noteq> CompactRevKey" "RevisionMetaKey \<noteq> MainKey a"
  "RevisionMetaKey \<noteq> VersionKey r a" "RevisionMetaKey \<noteq> ConfigKey a v"
  "CompactRevKey \<noteq> RevisionMetaKey" "CompactRevKey \<noteq> MainKey a"
  "CompactRevKey \<noteq> VersionKey r a" "CompactRevKey \<noteq> ConfigKey a v"
  "MainKey a \<noteq> RevisionMetaKey" "MainKey a \<noteq> CompactRevKey"
  "MainKey a \<noteq> VersionKey r b" "MainKey a \<noteq> ConfigKey b v"
  "VersionKey r a \<noteq> RevisionMetaKey" "VersionKey r a \<noteq> CompactRevKey"
  "VersionKey r a \<noteq> MainKey b" "VersionKey r a \<noteq> ConfigKey b v"
  "ConfigKey a v \<noteq> RevisionMetaKey" "ConfigKey a v \<noteq> CompactRevKey"
  "ConfigKey a v \<noteq> MainKey b" "ConfigKey a v \<noteq> VersionKey r b"
  by (simp_all add: RevisionMetaKey_def CompactRevKey_def MainKey_def VersionKey_def ConfigKey_def)

lemma prefix_k [simp]:
  "prefix ''k/'' (MainKey a)" "\<not> prefix ''k/'' RevisionMetaKey" "\<not> prefix ''k/'' CompactRevKey"
  "\<not> prefix ''k/'' (VersionKey r a)" "\<not> prefix ''k/'' (ConfigKey a v)"
  by (simp_all add: RevisionMetaKey_def CompactRevKey_def MainKey_def VersionKey_def ConfigKey_def)

lemma prefix_v [simp]:
  "prefix ''v/'' (VersionKey r a)" "\<not> prefix ''v/'' RevisionMetaKey"
  "\<not> prefix ''v/'' CompactRevKey" "\<not> prefix ''v/'' (MainKey a)" "\<not> prefix ''v/'' (ConfigKey a v)"
  by (simp_all add: RevisionMetaKey_def CompactRevKey_def MainKey_def VersionKey_def ConfigKey_def)

lemma prefix_cfg [simp]:
  "prefix ''cfg/'' (ConfigKey a v)" "\<not> prefix ''cfg/'' RevisionMetaKey"
  "\<not> prefix ''cfg/'' CompactRevKey" "\<not> prefix ''cfg/'' (MainKey a)"
  "\<not> prefix ''cfg/'' (VersionKey r a)"
  by (simp_all add: RevisionMetaKey_def CompactRevKey_def MainKey_def VersionKey_def ConfigKey_def)

lemma VersionKey_less:
  "nn64 r \<Longrightarrow> nn64 r' \<Longrightarrow> r < r' \<Longrightarrow> VersionKey r a < VersionKey r' b"
  by (simp add: VersionKey_def append_less_same_length EncodeOrd_less)

lemma VersionKey_lessD:
  "nn64 r \<Longrightarrow> nn64 r' \<Longrightarrow> VersionKey r a < VersionKey r' b \<Longrightarrow> r \<le> r'"
  by (meson VersionKey_less less_asym' not_le)

lemma VersionKey_start_le:
  "nn64 r \<Longrightarrow> nn64 r' \<Longrightarrow> VersionKey r [] \<le> VersionKey r' a \<longleftrightarrow> r \<le> r'"
proof
  assume *: "nn64 r" "nn64 r'" "VersionKey r [] \<le> VersionKey r' a"
  show "r \<le> r'"
    using VersionKey_less [OF *(2,1)] *(3) by (meson not_le)
next
  assume *: "nn64 r" "nn64 r'" "r \<le> r'"
  show "VersionKey r [] \<le> VersionKey r' a"
  proof (cases "r = r'")
    case True
    then show ?thesis by (simp add: VersionKey_def)
  next
    case False
    with * show ?thesis by (intro less_imp_le VersionKey_less) auto
  qed
qed

lemma ConfigKey_less:
  "nn64 v \<Longrightarrow> nn64 v' \<Longrightarrow> ConfigKey a v < ConfigKey a v' \<longleftrightarrow> v < v'"
  by (simp add: ConfigKey_def EncodeOrd_less_iff)

text \<open>The pieces Compaction and ReplayEvents cut out of a history key.\<close>

lemma VersionKey_parts:
  "length (VersionKey r a) = 19 + length a"
  "substr (VersionKey r a) 2 16 = Inr (EncodeOrd r)"
  "substr_from (VersionKey r a) 19 = Inr a"
  by (simp_all add: VersionKey_def substr_def substr_from_def)

end
