(* ===== verification/Proto.thy ===== *)
theory Proto
  imports StoreKey
begin

text \<open>
  The messages of src/proto/configraft.proto and the result structs of src/src/raft/node.h as
  records and datatypes.  The C++ code of the messages is generated by protoc and is not part
  of the repository: serialisation and parsing are a parameter of the model (\<open>codec\<close>), and
  the locale \<open>protobuf\<close> states what the store relies on.  A reference codec shows that the
  laws can hold.
\<close>

section \<open>Messages\<close>

datatype Code = OK | KEY_NOT_FOUND | CAS_FAILED | NOT_LEADER | VERSION_NOT_FOUND | COMPACTED
  | INVALID_ARGUMENT | INTERNAL

fun code_number :: "Code \<Rightarrow> int" where
  "code_number OK = 0"
| "code_number KEY_NOT_FOUND = 1"
| "code_number CAS_FAILED = 2"
| "code_number NOT_LEADER = 3"
| "code_number VERSION_NOT_FOUND = 4"
| "code_number COMPACTED = 5"
| "code_number INVALID_ARGUMENT = 6"
| "code_number INTERNAL = 100"

record KV =
  kv_key :: string
  kv_value :: string
  kv_version :: int
  kv_revision :: int
  kv_deleted :: bool

definition KV_default :: KV where
  "KV_default = \<lparr>kv_key = [], kv_value = [], kv_version = 0, kv_revision = 0, kv_deleted = False\<rparr>"

record WatchEvent =
  ev_revision :: int
  ev_key :: string
  ev_value :: string
  ev_version :: int
  ev_type :: string

datatype RaftCmd =
    Cmd_put string string
  | Cmd_delete string
  | Cmd_cas string string string
  | Cmd_publish string string
  | Cmd_rollback string int
  | Cmd_batch_put "(string \<times> string) list"
  | Cmd_not_set

record SnapshotData =
  sd_revision :: int
  sd_kvs :: "KV list"
  sd_cfg_kvs :: "KV list"

section \<open>Results of a node\<close>

record ApplyResult =
  ar_code :: Code
  ar_message :: string
  ar_kv :: KV
  ar_kvs :: "KV list"
  ar_leader_id :: string
  ar_events :: "WatchEvent list"

definition ApplyResult_init :: ApplyResult where
  "ApplyResult_init = \<lparr>ar_code = OK, ar_message = [], ar_kv = KV_default, ar_kvs = [],
     ar_leader_id = [], ar_events = []\<rparr>"

section \<open>Serialisation\<close>

record codec =
  ser_kv :: "KV \<Rightarrow> bytes"
  parse_kv :: "bytes \<Rightarrow> KV option"

text \<open>
  \<open>utf8 s\<close>: the string may be held by a proto3 string field.  Integer fields hold int64
  values.  Within these limits a serialised message parses to itself, and a message that
  parses is within them.
\<close>

definition kv_fits :: "(string \<Rightarrow> bool) \<Rightarrow> KV \<Rightarrow> bool" where
  "kv_fits utf8 kv \<longleftrightarrow> utf8 (kv_key kv) \<and> utf8 (kv_value kv) \<and> i64 (kv_version kv) \<and>
     i64 (kv_revision kv)"

locale protobuf =
  fixes P :: codec
    and utf8 :: "string \<Rightarrow> bool"
  assumes parse_ser: "kv_fits utf8 kv \<Longrightarrow> parse_kv P (ser_kv P kv) = Some kv"
    and parse_fits: "parse_kv P raw = Some kv \<Longrightarrow> kv_fits utf8 kv"
    and utf8_Nil: "utf8 []"

section \<open>A reference codec\<close>

text \<open>
  The key, each byte after a mark and then a terminator, the two integers in eight bytes each,
  the flag, and the value.
\<close>

fun mark_bytes :: "string \<Rightarrow> bytes" where
  "mark_bytes [] = [CHR 0x00]"
| "mark_bytes (c # cs) = CHR 0x01 # c # mark_bytes cs"

fun unmark_bytes :: "bytes \<Rightarrow> (string \<times> bytes) option" where
  "unmark_bytes [] = None"
| "unmark_bytes (m # cs) =
     (if m = CHR 0x00 then Some ([], cs)
      else if m = CHR 0x01 then
        (case cs of [] \<Rightarrow> None
         | c # rest \<Rightarrow> map_option (\<lambda>(s, r). (c # s, r)) (unmark_bytes rest))
      else None)"

definition ref_ser_kv :: "KV \<Rightarrow> bytes" where
  "ref_ser_kv kv = mark_bytes (kv_key kv) @ EncodeUint64 (u64 (kv_version kv)) @
     EncodeUint64 (u64 (kv_revision kv)) @ (if kv_deleted kv then CHR 0x01 else CHR 0x00) # kv_value kv"

definition ref_parse_kv :: "bytes \<Rightarrow> KV option" where
  "ref_parse_kv raw = (case unmark_bytes raw of None \<Rightarrow> None | Some (key, rest) \<Rightarrow>
     if length rest < 17 then None
     else Some \<lparr>kv_key = key, kv_value = drop 17 rest,
       kv_version = s64 (DecodeUint64 (take 8 rest)),
       kv_revision = s64 (DecodeUint64 (take 8 (drop 8 rest))),
       kv_deleted = (rest ! 16 = CHR 0x01)\<rparr>)"

definition ref_codec :: codec where
  "ref_codec = \<lparr>ser_kv = ref_ser_kv, parse_kv = ref_parse_kv\<rparr>"

lemma unmark_mark_bytes: "unmark_bytes (mark_bytes s @ rest) = Some (s, rest)"
  by (induction s) auto

lemma i64_s64: "i64 (s64 w)"
  using sint_lt [of w] sint_ge [of w] by (simp add: s64_def i64_def)

lemma ref_parse_ser:
  assumes "i64 (kv_version kv)" "i64 (kv_revision kv)"
  shows "ref_parse_kv (ref_ser_kv kv) = Some kv"
  using assms
  by (cases kv) (simp add: ref_parse_kv_def ref_ser_kv_def unmark_mark_bytes nth_append s64_u64)

interpretation ref_pb: protobuf ref_codec "\<lambda>_. True"
proof
  show "parse_kv ref_codec (ser_kv ref_codec kv) = Some kv" if "kv_fits (\<lambda>_. True) kv" for kv
    using that by (simp add: ref_codec_def ref_parse_ser kv_fits_def)
  show "kv_fits (\<lambda>_. True) kv" if "parse_kv ref_codec raw = Some kv" for raw kv
    using that
    by (auto simp: ref_codec_def ref_parse_kv_def kv_fits_def i64_s64 split: option.splits if_splits)
qed simp

end
