(* ===== verification/LevelDB.thy ===== *)
theory LevelDB
  imports StoreKey
begin

text \<open>
  The interface of LevelDB that src/src/store/store.cpp uses.  LevelDB is a third-party
  library, so its calls are a parameter of the model (the record \<open>leveldb\<close>, over an abstract
  type of database states) and the locale \<open>leveldb\<close> states its documented behaviour relative
  to the contents of a state: Get returns the stored bytes, NotFound or an I/O error; Write
  applies a batch as a whole or not at all; an iterator visits entries in bytewise key order,
  and may stop early on an I/O error.  \<open>leveldb_readable\<close> adds that reads do not fail (writes
  still may).  A reference database in memory shows that the laws can hold.
\<close>

section \<open>The calls\<close>

datatype get_status = Found bytes | NotFound | IOError

datatype batch_op = BPut bytes bytes | BDelete bytes

type_synonym batch = "batch_op list"
type_synonym contents = "bytes \<rightharpoonup> bytes"

text \<open>
  \<open>ldb_Get db key\<close> is DB::Get; \<open>ldb_Write db batch\<close> is DB::Write, with the state after the
  call and whether its status is ok; \<open>ldb_Iter db start\<close> lists the entries an iterator visits
  after Seek(start), until it is not Valid().
\<close>

record 'db leveldb =
  ldb_Get :: "'db \<Rightarrow> bytes \<Rightarrow> get_status"
  ldb_Write :: "'db \<Rightarrow> batch \<Rightarrow> 'db \<times> bool"
  ldb_Iter :: "'db \<Rightarrow> bytes \<Rightarrow> (bytes \<times> bytes) list"

text \<open>
  Opening a directory and the calls of std::filesystem around it: \<open>fs_create_directories\<close>
  throws (None) or returns the new file system state, \<open>fs_remove_all\<close> reports in its flag
  whether its error code is clear, \<open>ldb_Open\<close> is DB::Open with create_if_missing.
\<close>

record ('fs, 'db) disk =
  fs_create_directories :: "'fs \<Rightarrow> string \<Rightarrow> 'fs option"
  fs_remove_all :: "'fs \<Rightarrow> string \<Rightarrow> 'fs \<times> bool"
  ldb_Open :: "'fs \<Rightarrow> string \<Rightarrow> string + 'db"

section \<open>Documented behaviour\<close>

fun apply_batch :: "batch \<Rightarrow> contents \<Rightarrow> contents" where
  "apply_batch [] c = c"
| "apply_batch (BPut k v # b) c = apply_batch b (c(k \<mapsto> v))"
| "apply_batch (BDelete k # b) c = apply_batch b (c(k := None))"

lemma apply_batch_append [batch_simps]:
  "apply_batch (b1 @ b2) c = apply_batch b2 (apply_batch b1 c)"
proof (induction b1 arbitrary: c)
  case (Cons x b1)
  then show ?case by (cases x) (simp_all only: append_Cons apply_batch.simps)
qed simp

text \<open>A range loop of the sources: Seek(start), then Next while the key starts with p.\<close>

definition scan :: "'db leveldb \<Rightarrow> 'db \<Rightarrow> bytes \<Rightarrow> bytes \<Rightarrow> (bytes \<times> bytes) list" where
  "scan L db start p = takeWhile (\<lambda>e. prefix p (fst e)) (ldb_Iter L db start)"

locale leveldb =
  fixes L :: "'db leveldb"
    and C :: "'db \<Rightarrow> contents"
  assumes get_found: "ldb_Get L db k = Found v \<Longrightarrow> C db k = Some v"
    and get_not_found: "ldb_Get L db k = NotFound \<Longrightarrow> C db k = None"
    and write_ok: "ldb_Write L db b = (db', True) \<Longrightarrow> C db' = apply_batch b (C db)"
    and write_failed: "ldb_Write L db b = (db', False) \<Longrightarrow> C db' = C db"
    and iter_sorted: "keys_sorted (ldb_Iter L db s)"
    and iter_sound: "(k, v) \<in> set (ldb_Iter L db s) \<Longrightarrow> C db k = Some v \<and> s \<le> k"
    and iter_no_skip: "(k, v) \<in> set (ldb_Iter L db s) \<Longrightarrow> C db k' = Some v' \<Longrightarrow> s \<le> k' \<Longrightarrow>
      k' < k \<Longrightarrow> (k', v') \<in> set (ldb_Iter L db s)"
begin

lemma scan_sorted: "keys_sorted (scan L db s p)"
proof -
  have "sorted_wrt (<) (map fst (takeWhile Q es))"
    if "sorted_wrt (<) (map fst es)" for Q and es :: "(bytes \<times> bytes) list"
    using that by (induction es) (auto dest: set_takeWhileD)
  then show ?thesis
    using iter_sorted unfolding scan_def keys_sorted_def by blast
qed

lemma scan_sound: "(k, v) \<in> set (scan L db s p) \<Longrightarrow> C db k = Some v \<and> s \<le> k \<and> prefix p k"
  unfolding scan_def by (auto dest!: set_takeWhileD dest: iter_sound)

end

locale leveldb_readable = leveldb +
  assumes get_no_error: "ldb_Get L db k \<noteq> IOError"
    and iter_complete: "C db k = Some v \<Longrightarrow> s \<le> k \<Longrightarrow> (k, v) \<in> set (ldb_Iter L db s)"
begin

lemma get_eq: "ldb_Get L db k = (case C db k of None \<Rightarrow> NotFound | Some v \<Rightarrow> Found v)"
  using get_found get_not_found get_no_error by (cases "ldb_Get L db k") force+

lemma iter_iff: "(k, v) \<in> set (ldb_Iter L db s) \<longleftrightarrow> C db k = Some v \<and> s \<le> k"
  using iter_sound iter_complete by blast

text \<open>A range loop that starts at or after the prefix visits every entry with the prefix.\<close>

lemma scan_iff:
  assumes "prefix p s"
  shows "(k, v) \<in> set (scan L db s p) \<longleftrightarrow> C db k = Some v \<and> s \<le> k \<and> prefix p k"
proof -
  have "\<forall>e \<in> set (ldb_Iter L db s). p \<le> fst e"
    using iter_sound assms prefix_le order.trans by fastforce
  then have "scan L db s p = filter (\<lambda>e. prefix p (fst e)) (ldb_Iter L db s)"
    unfolding scan_def using takeWhile_prefix_filter iter_sorted by blast
  then show ?thesis using iter_iff by auto
qed

lemma scan_prefix_iff: "(k, v) \<in> set (scan L db p p) \<longleftrightarrow> C db k = Some v \<and> prefix p k"
  using scan_iff [of p p k v db] prefix_le by auto

end

section \<open>A reference database in memory\<close>

type_synonym mem_db = "(bytes \<times> bytes) list"

fun mem_op :: "batch_op \<Rightarrow> mem_db \<Rightarrow> mem_db" where
  "mem_op (BPut k v) db = (k, v) # db"
| "mem_op (BDelete k) db = filter (\<lambda>e. fst e \<noteq> k) db"

definition mem_Get :: "mem_db \<Rightarrow> bytes \<Rightarrow> get_status" where
  "mem_Get db k = (case map_of db k of None \<Rightarrow> NotFound | Some v \<Rightarrow> Found v)"

definition mem_Write :: "mem_db \<Rightarrow> batch \<Rightarrow> mem_db \<times> bool" where
  "mem_Write db b = (fold mem_op b db, True)"

definition mem_Iter :: "mem_db \<Rightarrow> bytes \<Rightarrow> (bytes \<times> bytes) list" where
  "mem_Iter db s = map (\<lambda>k. (k, the (map_of db k)))
     (filter (\<lambda>k. s \<le> k) (sort (remdups (map fst db))))"

definition mem_leveldb :: "mem_db leveldb" where
  "mem_leveldb = \<lparr>ldb_Get = mem_Get, ldb_Write = mem_Write, ldb_Iter = mem_Iter\<rparr>"

lemma map_of_mem_op: "map_of (mem_op x db) = apply_batch [x] (map_of db)"
proof (cases x)
  case (BDelete k)
  have "map_of (filter (\<lambda>e. fst e \<noteq> k) db) = (map_of db)(k := None)"
    by (induction db) auto
  with BDelete show ?thesis by simp
qed simp

lemma map_of_mem_write: "map_of (fold mem_op b db) = apply_batch b (map_of db)"
proof (induction b arbitrary: db)
  case (Cons x b)
  then show ?case
    using apply_batch_append [of "[x]" b "map_of db"] by (simp add: map_of_mem_op)
qed simp

lemma mem_Iter_iff: "(k, v) \<in> set (mem_Iter db s) \<longleftrightarrow> map_of db k = Some v \<and> s \<le> k"
proof -
  have "(k, v) \<in> set (mem_Iter db s) \<longleftrightarrow> k \<in> fst ` set db \<and> s \<le> k \<and> v = the (map_of db k)"
    by (auto simp: mem_Iter_def)
  moreover have "k \<in> fst ` set db \<longleftrightarrow> map_of db k \<noteq> None"
    by (simp add: map_of_eq_None_iff)
  ultimately show ?thesis by auto
qed

lemma mem_Iter_sorted: "keys_sorted (mem_Iter db s)"
proof -
  have "sorted_wrt (<) (filter (\<lambda>k. s \<le> k) (sort (remdups (map fst db))))"
    by (simp add: strict_sorted_iff sorted_wrt_filter)
  then show ?thesis by (simp add: keys_sorted_def mem_Iter_def comp_def)
qed

interpretation mem_db: leveldb_readable mem_leveldb map_of
proof
qed (auto simp: mem_leveldb_def mem_Get_def mem_Write_def map_of_mem_write mem_Iter_sorted
    mem_Iter_iff split: option.splits)

end
