(* ===== verification/Store.thy ===== *)
theory Store
  imports Proto LevelDB
begin

text \<open>
  src/src/store/store.cpp: the multi-version store over LevelDB.  Each private "Locked" method
  is one definition over the database state its db_ pointer denotes; the public method of the
  same name takes the shared lock and calls it.  \<open>L\<close> is the LevelDB interface and \<open>P\<close> the
  message codec.  A writing method returns the database state after it, its int64_t return
  value (-1 on failure) and the record it stores through out_kv.

  The two methods that keep an iterator open while they also read the current state
  (CompactionLocked, ReplayEventsLocked) take both states: \<open>db_it\<close>, which the iterator is
  pinned to, and \<open>db\<close>, the state at the later read and write.
\<close>

section \<open>Reading\<close>

definition SerializeKV :: "codec \<Rightarrow> KV \<Rightarrow> bytes" where
  "SerializeKV P kv = ser_kv P kv"

definition ReadMainLocked :: "'db leveldb \<Rightarrow> codec \<Rightarrow> 'db \<Rightarrow> string \<Rightarrow> KV option" where
  "ReadMainLocked L P db key =
    (case ldb_Get L db (MainKey key) of
       NotFound \<Rightarrow> None
     | IOError \<Rightarrow> None
     | Found raw \<Rightarrow> parse_kv P raw)"

definition CurrentRevisionLocked :: "'db leveldb \<Rightarrow> 'db \<Rightarrow> int" where
  "CurrentRevisionLocked L db =
    (case ldb_Get L db RevisionMetaKey of
       Found raw \<Rightarrow> s64 (DecodeUint64 raw)
     | NotFound \<Rightarrow> 0
     | IOError \<Rightarrow> 0)"

definition CompactRevLocked :: "'db leveldb \<Rightarrow> 'db \<Rightarrow> int" where
  "CompactRevLocked L db =
    (case ldb_Get L db CompactRevKey of
       Found raw \<Rightarrow> s64 (DecodeUint64 raw)
     | NotFound \<Rightarrow> 0
     | IOError \<Rightarrow> 0)"

definition GetLocked :: "'db leveldb \<Rightarrow> codec \<Rightarrow> 'db \<Rightarrow> string \<Rightarrow> KV option \<times> Code" where
  "GetLocked L P db key =
    (case ReadMainLocked L P db key of
       None \<Rightarrow> (None, KEY_NOT_FOUND)
     | Some kv \<Rightarrow> if kv_deleted kv then (None, KEY_NOT_FOUND) else (Some kv, OK))"

definition GetConfigLocked :: "'db leveldb \<Rightarrow> codec \<Rightarrow> 'db \<Rightarrow> string \<Rightarrow> int \<Rightarrow> KV option \<times> Code" where
  "GetConfigLocked L P db key version =
    (if version \<le> 0 then GetLocked L P db key
     else (case ldb_Get L db (ConfigKey key version) of
         NotFound \<Rightarrow> (None, VERSION_NOT_FOUND)
       | IOError \<Rightarrow> (None, INTERNAL)
       | Found raw \<Rightarrow>
           (case parse_kv P raw of
              None \<Rightarrow> (None, INTERNAL)
            | Some kv \<Rightarrow> if kv_deleted kv then (None, VERSION_NOT_FOUND) else (Some kv, OK))))"

fun GetHistory_loop :: "codec \<Rightarrow> string \<Rightarrow> (bytes \<times> bytes) list \<Rightarrow> KV list" where
  "GetHistory_loop P key [] = []"
| "GetHistory_loop P key ((k, v) # es) =
    (case parse_kv P v of
       None \<Rightarrow> GetHistory_loop P key es
     | Some kv \<Rightarrow>
         if kv_key kv \<noteq> key then GetHistory_loop P key es
         else if \<not> kv_deleted kv then kv # GetHistory_loop P key es
         else GetHistory_loop P key es)"

definition GetHistoryLocked :: "'db leveldb \<Rightarrow> codec \<Rightarrow> 'db \<Rightarrow> string \<Rightarrow> KV list" where
  "GetHistoryLocked L P db key =
    (let p = ''cfg/'' @ key @ ''/'' in GetHistory_loop P key (scan L db p p))"

section \<open>Writing\<close>

text \<open>
  The increment is two's complement; in C++ it is undefined behaviour at the largest int64_t,
  which the theorems exclude.
\<close>

definition NextRevisionLocked :: "'db leveldb \<Rightarrow> 'db \<Rightarrow> batch \<Rightarrow> int \<times> batch" where
  "NextRevisionLocked L db batch =
    (let rv = inc64 (CurrentRevisionLocked L db);
         raw = EncodeUint64 (u64 rv)
     in (rv, batch @ [BPut RevisionMetaKey raw]))"

definition next_version :: "KV option \<Rightarrow> int" where
  "next_version old_kv = (case old_kv of Some kv \<Rightarrow> inc64 (kv_version kv) | None \<Rightarrow> 1)"

definition PutLocked ::
  "'db leveldb \<Rightarrow> codec \<Rightarrow> 'db \<Rightarrow> string \<Rightarrow> string \<Rightarrow> 'db \<times> int \<times> KV option" where
  "PutLocked L P db key val =
    (let old_kv = ReadMainLocked L P db key;
         (rv, batch) = NextRevisionLocked L db []
     in if rv < 0 then (db, -1, None)
        else
          let new_kv = \<lparr>kv_key = key, kv_value = val, kv_version = next_version old_kv,
                kv_revision = rv, kv_deleted = False\<rparr>;
              serialized = SerializeKV P new_kv;
              (db', ok) = ldb_Write L db (batch @
                [BPut (MainKey key) serialized, BPut (VersionKey rv key) serialized])
          in if \<not> ok then (db', -1, None) else (db', rv, Some new_kv))"

definition DeleteLocked ::
  "'db leveldb \<Rightarrow> codec \<Rightarrow> 'db \<Rightarrow> string \<Rightarrow> 'db \<times> int \<times> KV option" where
  "DeleteLocked L P db key =
    (let (rv, batch) = NextRevisionLocked L db []
     in if rv < 0 then (db, -1, None)
        else
          let kv = \<lparr>kv_key = key, kv_value = [],
                kv_version = next_version (ReadMainLocked L P db key),
                kv_revision = rv, kv_deleted = True\<rparr>;
              serialized = SerializeKV P kv;
              (db', ok) = ldb_Write L db (batch @
                [BPut (MainKey key) serialized, BPut (VersionKey rv key) serialized])
          in if \<not> ok then (db', -1, None) else (db', rv, Some kv))"

definition CompareAndSwapLocked ::
  "'db leveldb \<Rightarrow> codec \<Rightarrow> 'db \<Rightarrow> string \<Rightarrow> string \<Rightarrow> string \<Rightarrow> 'db \<times> int \<times> KV option \<times> Code" where
  "CompareAndSwapLocked L P db key expect val =
    (let old_kv = ReadMainLocked L P db key;
         absent = (case old_kv of None \<Rightarrow> True | Some kv \<Rightarrow> kv_deleted kv);
         matched = (if expect = [] then absent
                    else \<not> absent \<and> (case old_kv of None \<Rightarrow> False | Some kv \<Rightarrow> kv_value kv = expect))
     in if \<not> matched then (db, -1, None, CAS_FAILED)
        else
          let (rv, batch) = NextRevisionLocked L db []
          in if rv < 0 then (db, -1, None, INTERNAL)
             else
               let new_kv = \<lparr>kv_key = key, kv_value = val, kv_version = next_version old_kv,
                     kv_revision = rv, kv_deleted = False\<rparr>;
                   serialized = SerializeKV P new_kv;
                   (db', ok) = ldb_Write L db (batch @
                     [BPut (MainKey key) serialized, BPut (VersionKey rv key) serialized])
               in if \<not> ok then (db', -1, None, INTERNAL) else (db', rv, Some new_kv, OK))"

fun BatchPut_loop ::
  "'db leveldb \<Rightarrow> codec \<Rightarrow> 'db \<Rightarrow> (string \<times> string) list \<Rightarrow> int \<Rightarrow> batch \<Rightarrow> KV list \<Rightarrow>
    int \<times> batch \<times> KV list" where
  "BatchPut_loop L P db [] r batch new_kvs = (r, batch, new_kvs)"
| "BatchPut_loop L P db ((key, val) # kvs) rev0 batch new_kvs =
    (let rv = inc64 rev0;
         new_kv = \<lparr>kv_key = key, kv_value = val,
           kv_version = next_version (ReadMainLocked L P db key),
           kv_revision = rv, kv_deleted = False\<rparr>;
         serialized = SerializeKV P new_kv
     in BatchPut_loop L P db kvs rv
          (batch @ [BPut (MainKey key) serialized, BPut (VersionKey rv key) serialized])
          (new_kvs @ [new_kv]))"

definition BatchPutLocked ::
  "'db leveldb \<Rightarrow> codec \<Rightarrow> 'db \<Rightarrow> (string \<times> string) list \<Rightarrow> 'db \<times> int \<times> KV list" where
  "BatchPutLocked L P db kvs =
    (if kvs = [] then (db, 0, [])
     else
       let (rv, batch, new_kvs) = BatchPut_loop L P db kvs (CurrentRevisionLocked L db) [] [];
           raw = EncodeUint64 (u64 rv);
           (db', ok) = ldb_Write L db (batch @ [BPut RevisionMetaKey raw])
       in if \<not> ok then (db', -1, []) else (db', 0, new_kvs))"

definition PublishLocked ::
  "'db leveldb \<Rightarrow> codec \<Rightarrow> 'db \<Rightarrow> string \<Rightarrow> string \<Rightarrow> 'db \<times> int \<times> KV option" where
  "PublishLocked L P db key val =
    (let old_kv = ReadMainLocked L P db key;
         (rv, batch) = NextRevisionLocked L db []
     in if rv < 0 then (db, -1, None)
        else
          let new_kv = \<lparr>kv_key = key, kv_value = val, kv_version = next_version old_kv,
                kv_revision = rv, kv_deleted = False\<rparr>;
              serialized = SerializeKV P new_kv;
              (db', ok) = ldb_Write L db (batch @
                [BPut (MainKey key) serialized, BPut (VersionKey rv key) serialized,
                 BPut (ConfigKey key (kv_version new_kv)) serialized])
          in if \<not> ok then (db', -1, None) else (db', rv, Some new_kv))"

text \<open>The last component is the flag the method stores through its ok pointer.\<close>

definition RollbackLocked ::
  "'db leveldb \<Rightarrow> codec \<Rightarrow> 'db \<Rightarrow> string \<Rightarrow> int \<Rightarrow> 'db \<times> int \<times> KV option \<times> bool" where
  "RollbackLocked L P db key target_version =
    (case GetConfigLocked L P db key target_version of
       (None, code) \<Rightarrow> (db, -1, None, False)
     | (Some target, code) \<Rightarrow>
         (case PublishLocked L P db key (kv_value target) of
            (db', rv, out_kv) \<Rightarrow> (db', rv, out_kv, True)))"

section \<open>Compaction\<close>

text \<open>std::map of vectors, in key order; \<open>per_key_add\<close> is \<open>per_key[key].emplace_back(x)\<close>.\<close>

fun per_key_add :: "string \<Rightarrow> 'a \<Rightarrow> (string \<times> 'a list) list \<Rightarrow> (string \<times> 'a list) list" where
  "per_key_add key x [] = [(key, [x])]"
| "per_key_add key x ((a, xs) # m) =
    (if key < a then (key, [x]) # (a, xs) # m
     else if key = a then (a, xs @ [x]) # m
     else (a, xs) # per_key_add key x m)"

fun Compaction_collect ::
  "codec \<Rightarrow> (bytes \<times> bytes) list \<Rightarrow> (string \<times> (int \<times> int) list) list \<Rightarrow>
    cxx_exn + (string \<times> (int \<times> int) list) list" where
  "Compaction_collect P [] per_key = Inr per_key"
| "Compaction_collect P ((k, v) # es) per_key =
    (if length k < 18 then Compaction_collect P es per_key
     else case substr k 2 16 of Inl e \<Rightarrow> Inl e | Inr rev_hex \<Rightarrow>
       (case substr_from k (2 + 16 + 1) of Inl e \<Rightarrow> Inl e | Inr key \<Rightarrow>
         (case parse_kv P v of None \<Rightarrow> Compaction_collect P es per_key | Some kv \<Rightarrow>
           (case DecodeOrd rev_hex of Inl e \<Rightarrow> Inl e | Inr rv \<Rightarrow>
             Compaction_collect P es (per_key_add key (rv, kv_version kv) per_key)))))"

text \<open>The accumulator is the batch, the count of removed records and max_deleted_rev.\<close>

fun Compaction_key ::
  "string \<Rightarrow> (int \<times> int) list \<Rightarrow> batch \<times> int \<times> int \<Rightarrow> batch \<times> int \<times> int" where
  "Compaction_key key [] acc = acc"
| "Compaction_key key ((rv, ver) # records) (batch, removed, max_deleted_rev) =
    Compaction_key key records
      (batch @ [BDelete (VersionKey rv key), BDelete (ConfigKey key ver)], removed + 1,
       if rv > max_deleted_rev then rv else max_deleted_rev)"

fun Compaction_keys ::
  "int \<Rightarrow> (string \<times> (int \<times> int) list) list \<Rightarrow> batch \<times> int \<times> int \<Rightarrow> batch \<times> int \<times> int" where
  "Compaction_keys keep [] acc = acc"
| "Compaction_keys keep ((key, records) # per_key) acc =
    (let excess = i32 (int (length records)) - keep
     in if excess \<le> 0 then Compaction_keys keep per_key acc
        else Compaction_keys keep per_key (Compaction_key key (take (nat excess) records) acc))"

definition CompactionLocked ::
  "'db leveldb \<Rightarrow> codec \<Rightarrow> 'db \<Rightarrow> 'db \<Rightarrow> int \<Rightarrow> cxx_exn + 'db \<times> int" where
  "CompactionLocked L P db_it db keep_versions =
    (let keep = (if keep_versions < 1 then 1 else keep_versions)
     in case Compaction_collect P (scan L db_it ''v/'' ''v/'') [] of
          Inl e \<Rightarrow> Inl e
        | Inr per_key \<Rightarrow>
            (case Compaction_keys keep per_key ([], 0, 0) of (batch, removed, max_deleted_rev) \<Rightarrow>
               if removed > 0 then
                 let new_compact_rev = max (CompactRevLocked L db) max_deleted_rev;
                     raw = EncodeUint64 (u64 new_compact_rev);
                     (db', ok) = ldb_Write L db (batch @ [BPut CompactRevKey raw])
                 in Inr (db', removed)
               else Inr (db, removed)))"

section \<open>Watch replay\<close>

fun ReplayEvents_loop ::
  "codec \<Rightarrow> string \<Rightarrow> int \<Rightarrow> int \<Rightarrow> (bytes \<times> bytes) list \<Rightarrow> WatchEvent list \<Rightarrow>
    cxx_exn + WatchEvent list" where
  "ReplayEvents_loop P key current_revision max_events [] out = Inr out"
| "ReplayEvents_loop P key current_revision max_events ((k, v) # es) out =
    (if length k < 18 then ReplayEvents_loop P key current_revision max_events es out
     else case substr k 2 16 of Inl e \<Rightarrow> Inl e | Inr rev_hex \<Rightarrow>
       (case DecodeOrd rev_hex of Inl e \<Rightarrow> Inl e | Inr rv \<Rightarrow>
         (if rv > current_revision then Inr out
          else case parse_kv P v of
            None \<Rightarrow> ReplayEvents_loop P key current_revision max_events es out
          | Some kv \<Rightarrow>
              if key \<noteq> [] \<and> kv_key kv \<noteq> key
              then ReplayEvents_loop P key current_revision max_events es out
              else
                let ev = \<lparr>ev_revision = rv, ev_key = kv_key kv, ev_value = kv_value kv,
                      ev_version = kv_version kv,
                      ev_type = (if kv_deleted kv then ''DELETE'' else ''PUT'')\<rparr>;
                    out' = out @ [ev]
                in if i32 (int (length out')) \<ge> max_events then Inr out'
                   else ReplayEvents_loop P key current_revision max_events es out')))"

definition ReplayEventsLocked ::
  "'db leveldb \<Rightarrow> codec \<Rightarrow> 'db \<Rightarrow> 'db \<Rightarrow> int \<Rightarrow> int \<Rightarrow> string \<Rightarrow> int \<Rightarrow>
    cxx_exn + bool \<times> WatchEvent list \<times> Code" where
  "ReplayEventsLocked L P db_it db from_revision0 current_revision key max_events =
    (if max_events \<le> 0 then Inr (True, [], OK)
     else
       let from_revision = (if from_revision0 < 0 then 0 else from_revision0);
           compact_rev = CompactRevLocked L db
       in if from_revision < compact_rev then Inr (False, [], COMPACTED)
          else if from_revision \<ge> current_revision then Inr (True, [], OK)
          else
            (case ReplayEvents_loop P key current_revision max_events
                (scan L db_it (VersionKey (inc64 from_revision) []) ''v/'') [] of
               Inl e \<Rightarrow> Inl e
             | Inr out \<Rightarrow> Inr (True, out, OK)))"

section \<open>Snapshots and the database's life\<close>

fun snapshot_kvs :: "codec \<Rightarrow> (bytes \<times> bytes) list \<Rightarrow> KV list" where
  "snapshot_kvs P [] = []"
| "snapshot_kvs P ((k, v) # es) =
    (case parse_kv P v of None \<Rightarrow> snapshot_kvs P es | Some kv \<Rightarrow> kv # snapshot_kvs P es)"

definition ExportSnapshot :: "'db leveldb \<Rightarrow> codec \<Rightarrow> 'db \<Rightarrow> SnapshotData" where
  "ExportSnapshot L P db =
    \<lparr>sd_revision =
       (case ldb_Iter L db RevisionMetaKey of
          [] \<Rightarrow> 0
        | (k, v) # _ \<Rightarrow> if k = RevisionMetaKey then s64 (DecodeUint64 v) else 0),
     sd_kvs = snapshot_kvs P (scan L db (MainKey []) ''k/''),
     sd_cfg_kvs = snapshot_kvs P (scan L db ''cfg/'' ''cfg/'')\<rparr>"

text \<open>The members db_ (null or an open database) and data_dir_.\<close>

record 'db Store =
  st_db :: "'db option"
  st_data_dir :: string

datatype 'a open_result = Opened 'a | Open_failed string | Open_throws

definition OpenLocked ::
  "('fs, 'db) disk \<Rightarrow> 'fs \<Rightarrow> 'db Store \<Rightarrow> string \<Rightarrow> 'db Store open_result" where
  "OpenLocked D fs st data_dir =
    (case fs_create_directories D fs data_dir of
       None \<Rightarrow> Open_throws
     | Some fs' \<Rightarrow>
         (case ldb_Open D fs' data_dir of
            Inl err \<Rightarrow> Open_failed err
          | Inr db \<Rightarrow> Opened (st\<lparr>st_db := Some db, st_data_dir := data_dir\<rparr>)))"

definition CloseStore :: "'db Store \<Rightarrow> 'db Store" where
  "CloseStore st = st\<lparr>st_db := None\<rparr>"

fun LoadSnapshot_kvs :: "codec \<Rightarrow> KV list \<Rightarrow> batch" where
  "LoadSnapshot_kvs P [] = []"
| "LoadSnapshot_kvs P (kv # kvs) =
    [BPut (MainKey (kv_key kv)) (ser_kv P kv),
     BPut (VersionKey (kv_revision kv) (kv_key kv)) (ser_kv P kv)] @ LoadSnapshot_kvs P kvs"

fun LoadSnapshot_cfg :: "codec \<Rightarrow> KV list \<Rightarrow> batch" where
  "LoadSnapshot_cfg P [] = []"
| "LoadSnapshot_cfg P (kv # kvs) =
    BPut (ConfigKey (kv_key kv) (kv_version kv)) (ser_kv P kv) # LoadSnapshot_cfg P kvs"

definition LoadSnapshot_batch :: "codec \<Rightarrow> SnapshotData \<Rightarrow> batch" where
  "LoadSnapshot_batch P data =
    LoadSnapshot_kvs P (sd_kvs data) @ LoadSnapshot_cfg P (sd_cfg_kvs data) @
    (if sd_revision data > 0 then
       [BPut RevisionMetaKey (EncodeUint64 (u64 (sd_revision data))),
        BPut CompactRevKey (EncodeUint64 (u64 (sd_revision data)))]
     else [])"

text \<open>The store afterwards, and the method's bool result.\<close>

definition LoadSnapshot ::
  "'db leveldb \<Rightarrow> ('fs, 'db) disk \<Rightarrow> codec \<Rightarrow> 'fs \<Rightarrow> 'db Store \<Rightarrow> SnapshotData \<Rightarrow>
    ('db Store \<times> bool) open_result" where
  "LoadSnapshot L D P fs st data =
    (let st1 = st\<lparr>st_db := None\<rparr>;
         (fs1, ec) = fs_remove_all D fs (st_data_dir st1)
     in case OpenLocked D fs1 st1 (st_data_dir st1) of
          Open_throws \<Rightarrow> Open_throws
        | Open_failed err \<Rightarrow> Opened (st1, False)
        | Opened st2 \<Rightarrow>
            (case st_db st2 of
               None \<Rightarrow> Opened (st2, False)
             | Some db \<Rightarrow>
                 (case ldb_Write L db (LoadSnapshot_batch P data) of
                    (db', ok) \<Rightarrow> Opened (st2\<lparr>st_db := Some db'\<rparr>, ok))))"

end
