(* ===== verification/Mvcc.thy ===== *)
theory Mvcc
  imports Proto
begin

text \<open>
  The abstract multi-version store: what src/src/store promises (store.h), with no encoding,
  no database and no failing writes.  A state holds the last revision given out, the greatest
  revision removed by compaction, the current record of each key, the history by revision, and
  the published versions of each key.  \<open>s_apply\<close> is the command interpreter of the replicated
  state machine; \<open>mvcc_inv\<close> is the invariant every operation keeps.
\<close>

record mvcc =
  m_rev :: int
  m_crev :: int
  m_main :: "string \<rightharpoonup> KV"
  m_hist :: "int \<times> string \<rightharpoonup> KV"
  m_cfg :: "string \<times> int \<rightharpoonup> KV"

definition mvcc_empty :: mvcc where
  "mvcc_empty = \<lparr>m_rev = 0, m_crev = 0, m_main = Map.empty, m_hist = Map.empty, m_cfg = Map.empty\<rparr>"

section \<open>Operations\<close>

definition s_version :: "mvcc \<Rightarrow> string \<Rightarrow> int" where
  "s_version m k = (case m_main m k of None \<Rightarrow> 1 | Some kv \<Rightarrow> kv_version kv + 1)"

text \<open>The record of the next write to a key.\<close>

definition s_record :: "mvcc \<Rightarrow> string \<Rightarrow> string \<Rightarrow> bool \<Rightarrow> KV" where
  "s_record m k v del = \<lparr>kv_key = k, kv_value = v, kv_version = s_version m k,
     kv_revision = m_rev m + 1, kv_deleted = del\<rparr>"

definition s_write :: "KV \<Rightarrow> mvcc \<Rightarrow> mvcc" where
  "s_write kv m = m\<lparr>m_rev := kv_revision kv, m_main := (m_main m)(kv_key kv \<mapsto> kv),
     m_hist := (m_hist m)((kv_revision kv, kv_key kv) \<mapsto> kv)\<rparr>"

definition s_index :: "KV \<Rightarrow> mvcc \<Rightarrow> mvcc" where
  "s_index kv m = m\<lparr>m_cfg := (m_cfg m)((kv_key kv, kv_version kv) \<mapsto> kv)\<rparr>"

definition s_put :: "mvcc \<Rightarrow> string \<Rightarrow> string \<Rightarrow> mvcc \<times> KV" where
  "s_put m k v = (let kv = s_record m k v False in (s_write kv m, kv))"

definition s_delete :: "mvcc \<Rightarrow> string \<Rightarrow> mvcc \<times> KV" where
  "s_delete m k = (let kv = s_record m k [] True in (s_write kv m, kv))"

definition s_publish :: "mvcc \<Rightarrow> string \<Rightarrow> string \<Rightarrow> mvcc \<times> KV" where
  "s_publish m k v = (let kv = s_record m k v False in (s_index kv (s_write kv m), kv))"

definition s_get :: "mvcc \<Rightarrow> string \<Rightarrow> KV option" where
  "s_get m k = (case m_main m k of None \<Rightarrow> None | Some kv \<Rightarrow> if kv_deleted kv then None else Some kv)"

definition s_get_config :: "mvcc \<Rightarrow> string \<Rightarrow> int \<Rightarrow> KV option" where
  "s_get_config m k v = (if v \<le> 0 then s_get m k
     else case m_cfg m (k, v) of None \<Rightarrow> None | Some kv \<Rightarrow> if kv_deleted kv then None else Some kv)"

text \<open>An empty expectation asks for an absent key, any other for a live key with that value.\<close>

definition s_cas_matches :: "mvcc \<Rightarrow> string \<Rightarrow> string \<Rightarrow> bool" where
  "s_cas_matches m k expect =
     (case s_get m k of None \<Rightarrow> expect = [] | Some kv \<Rightarrow> expect \<noteq> [] \<and> kv_value kv = expect)"

text \<open>Versions come from the state before the batch, revisions are consecutive.\<close>

fun s_batch_from :: "mvcc \<Rightarrow> mvcc \<Rightarrow> (string \<times> string) list \<Rightarrow> mvcc \<times> KV list" where
  "s_batch_from m0 m [] = (m, [])"
| "s_batch_from m0 m ((k, v) # kvs) =
    (let kv = (s_record m k v False)\<lparr>kv_version := s_version m0 k\<rparr>;
         (m', out) = s_batch_from m0 (s_write kv m) kvs
     in (m', kv # out))"

definition s_batch :: "mvcc \<Rightarrow> (string \<times> string) list \<Rightarrow> mvcc \<times> KV list" where
  "s_batch m kvs = s_batch_from m m kvs"

section \<open>Commands\<close>

definition s_event :: "KV \<Rightarrow> WatchEvent" where
  "s_event kv = \<lparr>ev_revision = kv_revision kv, ev_key = kv_key kv, ev_value = kv_value kv,
     ev_version = kv_version kv, ev_type = (if kv_deleted kv then ''DELETE'' else ''PUT'')\<rparr>"

definition s_ok :: "KV \<Rightarrow> ApplyResult" where
  "s_ok kv = ApplyResult_init\<lparr>ar_kv := kv, ar_events := [s_event kv]\<rparr>"

definition s_fail :: "Code \<Rightarrow> string \<Rightarrow> ApplyResult" where
  "s_fail c msg = ApplyResult_init\<lparr>ar_code := c, ar_message := msg\<rparr>"

fun s_apply :: "mvcc \<Rightarrow> RaftCmd \<Rightarrow> mvcc \<times> ApplyResult" where
  "s_apply m (Cmd_put k v) = (let (m', kv) = s_put m k v in (m', s_ok kv))"
| "s_apply m (Cmd_delete k) = (let (m', kv) = s_delete m k in (m', s_ok kv))"
| "s_apply m (Cmd_publish k v) = (let (m', kv) = s_publish m k v in (m', s_ok kv))"
| "s_apply m (Cmd_rollback k v) =
    (case s_get_config m k v of
       None \<Rightarrow> (m, s_fail VERSION_NOT_FOUND ''target version not found'')
     | Some target \<Rightarrow> let (m', kv) = s_publish m k (kv_value target) in (m', s_ok kv))"
| "s_apply m (Cmd_cas k e v) =
    (if s_cas_matches m k e then let (m', kv) = s_put m k v in (m', s_ok kv)
     else (m, s_fail CAS_FAILED ''expect value mismatch''))"
| "s_apply m (Cmd_batch_put kvs) =
    (let (m', out) = s_batch m kvs
     in (m', ApplyResult_init\<lparr>ar_kvs := out, ar_events := map s_event out\<rparr>))"
| "s_apply m Cmd_not_set = (m, s_fail INTERNAL ''unknown raft cmd'')"

text \<open>How many revisions a command takes at most.\<close>

fun cmd_cost :: "RaftCmd \<Rightarrow> int" where
  "cmd_cost (Cmd_batch_put kvs) = int (length kvs)"
| "cmd_cost Cmd_not_set = 0"
| "cmd_cost _ = 1"

fun s_run :: "mvcc \<Rightarrow> RaftCmd list \<Rightarrow> mvcc \<times> ApplyResult list" where
  "s_run m [] = (m, [])"
| "s_run m (c # cs) =
    (let (m1, r) = s_apply m c; (m2, rs) = s_run m1 cs in (m2, r # rs))"

section \<open>Invariant\<close>

definition main_ok :: "mvcc \<Rightarrow> bool" where
  "main_ok m \<longleftrightarrow> (\<forall>k kv. m_main m k = Some kv \<longrightarrow>
     kv_key kv = k \<and> 1 \<le> kv_version kv \<and> kv_version kv \<le> kv_revision kv \<and>
     kv_revision kv \<le> m_rev m \<and> m_hist m (kv_revision kv, k) = Some kv)"

definition hist_ok :: "mvcc \<Rightarrow> bool" where
  "hist_ok m \<longleftrightarrow> (\<forall>r k kv. m_hist m (r, k) = Some kv \<longrightarrow>
     kv_key kv = k \<and> kv_revision kv = r \<and> 1 \<le> r \<and> r \<le> m_rev m \<and> 1 \<le> kv_version kv \<and>
     (\<exists>kv'. m_main m k = Some kv' \<and> r \<le> kv_revision kv' \<and> kv_version kv \<le> kv_version kv'))"

definition hist_unique :: "mvcc \<Rightarrow> bool" where
  "hist_unique m \<longleftrightarrow> (\<forall>r k k'. m_hist m (r, k) \<noteq> None \<longrightarrow> m_hist m (r, k') \<noteq> None \<longrightarrow> k = k')"

definition hist_dense :: "mvcc \<Rightarrow> bool" where
  "hist_dense m \<longleftrightarrow> (\<forall>r. m_crev m < r \<longrightarrow> r \<le> m_rev m \<longrightarrow> (\<exists>k. m_hist m (r, k) \<noteq> None))"

definition cfg_ok :: "mvcc \<Rightarrow> bool" where
  "cfg_ok m \<longleftrightarrow> (\<forall>k v kv. m_cfg m (k, v) = Some kv \<longrightarrow>
     kv_key kv = k \<and> kv_version kv = v \<and> 1 \<le> v \<and> \<not> kv_deleted kv \<and> kv_revision kv \<le> m_rev m \<and>
     (\<exists>kv'. m_main m k = Some kv' \<and> v \<le> kv_version kv'))"

definition mvcc_inv :: "mvcc \<Rightarrow> bool" where
  "mvcc_inv m \<longleftrightarrow> 0 \<le> m_crev m \<and> m_crev m \<le> m_rev m \<and> main_ok m \<and> hist_ok m \<and>
     hist_unique m \<and> hist_dense m \<and> cfg_ok m"

lemmas mvcc_inv_defs = mvcc_inv_def main_ok_def hist_ok_def hist_unique_def hist_dense_def cfg_ok_def

lemma mvcc_inv_empty: "mvcc_inv mvcc_empty"
  by (simp add: mvcc_inv_defs mvcc_empty_def)

lemma mvcc_invD:
  assumes "mvcc_inv m"
  shows "0 \<le> m_crev m" "m_crev m \<le> m_rev m" "0 \<le> m_rev m" "main_ok m" "hist_ok m"
    "hist_unique m" "hist_dense m" "cfg_ok m"
  using assms by (simp_all add: mvcc_inv_def)

lemma main_okD:
  assumes "main_ok m" "m_main m k = Some kv"
  shows "kv_key kv = k" "1 \<le> kv_version kv" "kv_version kv \<le> kv_revision kv"
    "1 \<le> kv_revision kv" "kv_revision kv \<le> m_rev m" "m_hist m (kv_revision kv, k) = Some kv"
proof -
  have "kv_key kv = k \<and> 1 \<le> kv_version kv \<and> kv_version kv \<le> kv_revision kv \<and>
     kv_revision kv \<le> m_rev m \<and> m_hist m (kv_revision kv, k) = Some kv"
    using assms unfolding main_ok_def by blast
  then show "kv_key kv = k" "1 \<le> kv_version kv" "kv_version kv \<le> kv_revision kv"
    "1 \<le> kv_revision kv" "kv_revision kv \<le> m_rev m" "m_hist m (kv_revision kv, k) = Some kv"
    by auto
qed

lemma hist_okD:
  assumes "hist_ok m" "m_hist m (r, k) = Some kv"
  shows "kv_key kv = k" "kv_revision kv = r" "1 \<le> r" "r \<le> m_rev m" "1 \<le> kv_version kv"
    "\<exists>kv'. m_main m k = Some kv' \<and> r \<le> kv_revision kv' \<and> kv_version kv \<le> kv_version kv'"
proof -
  have "kv_key kv = k \<and> kv_revision kv = r \<and> 1 \<le> r \<and> r \<le> m_rev m \<and> 1 \<le> kv_version kv \<and>
     (\<exists>kv'. m_main m k = Some kv' \<and> r \<le> kv_revision kv' \<and> kv_version kv \<le> kv_version kv')"
    using assms unfolding hist_ok_def by blast
  then show "kv_key kv = k" "kv_revision kv = r" "1 \<le> r" "r \<le> m_rev m" "1 \<le> kv_version kv"
    "\<exists>kv'. m_main m k = Some kv' \<and> r \<le> kv_revision kv' \<and> kv_version kv \<le> kv_version kv'"
    by auto
qed

lemma cfg_okD:
  assumes "cfg_ok m" "m_cfg m (k, v) = Some kv"
  shows "kv_key kv = k" "kv_version kv = v" "1 \<le> v" "\<not> kv_deleted kv" "kv_revision kv \<le> m_rev m"
    "\<exists>kv'. m_main m k = Some kv' \<and> v \<le> kv_version kv'"
proof -
  have "kv_key kv = k \<and> kv_version kv = v \<and> 1 \<le> v \<and> \<not> kv_deleted kv \<and>
     kv_revision kv \<le> m_rev m \<and> (\<exists>kv'. m_main m k = Some kv' \<and> v \<le> kv_version kv')"
    using assms unfolding cfg_ok_def by blast
  then show "kv_key kv = k" "kv_version kv = v" "1 \<le> v" "\<not> kv_deleted kv"
    "kv_revision kv \<le> m_rev m" "\<exists>kv'. m_main m k = Some kv' \<and> v \<le> kv_version kv'"
    by auto
qed

lemma mvcc_inv_version_bounds:
  assumes "mvcc_inv m"
  shows "1 \<le> s_version m k" "s_version m k \<le> m_rev m + 1"
  using mvcc_invD(3,4) [OF assms] main_okD(2,3,5) [of m k]
  by (fastforce simp: s_version_def split: option.split)+

text \<open>
  A write is legal in a state when it takes the next revision and a version above every version
  of its key.  A batch computes its versions beforehand, so they may equal the current one.
\<close>

definition legal_write :: "mvcc \<Rightarrow> KV \<Rightarrow> bool" where
  "legal_write m kv \<longleftrightarrow> kv_revision kv = m_rev m + 1 \<and> 1 \<le> kv_version kv \<and>
     kv_version kv \<le> m_rev m + 1 \<and>
     (\<forall>old. m_main m (kv_key kv) = Some old \<longrightarrow> kv_version old \<le> kv_version kv)"

lemma s_record_sel [simp]:
  "kv_key (s_record m k v d) = k" "kv_value (s_record m k v d) = v"
  "kv_version (s_record m k v d) = s_version m k" "kv_revision (s_record m k v d) = m_rev m + 1"
  "kv_deleted (s_record m k v d) = d"
  by (simp_all add: s_record_def)

lemma legal_record: "mvcc_inv m \<Longrightarrow> legal_write m (s_record m k v d)"
  using mvcc_inv_version_bounds [of m k] by (auto simp: legal_write_def s_version_def)

lemma s_write_sel [simp]:
  "m_rev (s_write kv m) = kv_revision kv" "m_crev (s_write kv m) = m_crev m"
  "m_main (s_write kv m) = (m_main m)(kv_key kv \<mapsto> kv)"
  "m_hist (s_write kv m) = (m_hist m)((kv_revision kv, kv_key kv) \<mapsto> kv)"
  "m_cfg (s_write kv m) = m_cfg m"
  by (simp_all add: s_write_def)

lemma s_index_sel [simp]:
  "m_rev (s_index kv m) = m_rev m" "m_crev (s_index kv m) = m_crev m"
  "m_main (s_index kv m) = m_main m" "m_hist (s_index kv m) = m_hist m"
  "m_cfg (s_index kv m) = (m_cfg m)((kv_key kv, kv_version kv) \<mapsto> kv)"
  by (simp_all add: s_index_def)

lemma hist_fresh: "hist_ok m \<Longrightarrow> m_rev m < r \<Longrightarrow> m_hist m (r, k) = None"
  by (cases "m_hist m (r, k)") (auto dest: hist_okD(4))

lemma legal_main_ok:
  assumes "mvcc_inv m" "legal_write m kv"
  shows "main_ok (s_write kv m)"
proof -
  note ok = main_okD [OF mvcc_invD(4) [OF assms(1)]]
  have "kv_revision kv = m_rev m + 1" "1 \<le> kv_version kv" "kv_version kv \<le> m_rev m + 1"
    using assms(2) by (simp_all add: legal_write_def)
  then show ?thesis unfolding main_ok_def
    by (auto split: if_splits dest: ok)
qed

lemma legal_hist_ok:
  assumes "mvcc_inv m" "legal_write m kv"
  shows "hist_ok (s_write kv m)"
  unfolding hist_ok_def
proof (intro allI impI)
  fix r k x
  assume "m_hist (s_write kv m) (r, k) = Some x"
  then have x: "x = kv \<and> r = kv_revision kv \<and> k = kv_key kv \<or> m_hist m (r, k) = Some x"
    by (simp split: if_splits)
  show "kv_key x = k \<and> kv_revision x = r \<and> 1 \<le> r \<and> r \<le> m_rev (s_write kv m) \<and>
      1 \<le> kv_version x \<and> (\<exists>kv'. m_main (s_write kv m) k = Some kv' \<and> r \<le> kv_revision kv' \<and>
        kv_version x \<le> kv_version kv')"
  proof (cases "m_hist m (r, k) = Some x")
    case False
    with x assms mvcc_invD(3) [OF assms(1)] show ?thesis by (auto simp: legal_write_def)
  next
    case True
    note ok = hist_okD [OF mvcc_invD(5) [OF assms(1)] True]
    from ok(6) obtain kv' where "m_main m k = Some kv'" "r \<le> kv_revision kv'"
        "kv_version x \<le> kv_version kv'" by blast
    with ok(1-5) assms(2) show ?thesis by (force simp: legal_write_def)
  qed
qed

lemma legal_cfg_ok:
  assumes "mvcc_inv m" "legal_write m kv"
  shows "cfg_ok (s_write kv m)"
  unfolding cfg_ok_def
proof (intro allI impI)
  fix k v x
  assume "m_cfg (s_write kv m) (k, v) = Some x"
  then have x: "m_cfg m (k, v) = Some x" by simp
  note ok = cfg_okD [OF mvcc_invD(8) [OF assms(1)] x]
  from ok(6) obtain kv' where "m_main m k = Some kv'" "v \<le> kv_version kv'" by blast
  with ok(1-5) assms(2) show "kv_key x = k \<and> kv_version x = v \<and> 1 \<le> v \<and> \<not> kv_deleted x \<and>
      kv_revision x \<le> m_rev (s_write kv m) \<and>
      (\<exists>kv'. m_main (s_write kv m) k = Some kv' \<and> v \<le> kv_version kv')"
    by (force simp: legal_write_def)
qed

lemma mvcc_inv_write:
  assumes "mvcc_inv m" "legal_write m kv"
  shows "mvcc_inv (s_write kv m)"
proof -
  note D = mvcc_invD [OF assms(1)]
  have rv: "kv_revision kv = m_rev m + 1" using assms(2) by (simp add: legal_write_def)
  have "hist_unique (s_write kv m)"
    using D(6) hist_fresh [OF D(5)] rv unfolding hist_unique_def by (auto split: if_splits)
  moreover have "hist_dense (s_write kv m)"
    using D(7) rv unfolding hist_dense_def by (auto simp: zle_add1_eq_le order_le_less)
  ultimately show ?thesis
    using D(1,2) rv legal_main_ok [OF assms] legal_hist_ok [OF assms] legal_cfg_ok [OF assms]
    by (simp add: mvcc_inv_def)
qed

lemma mvcc_inv_index:
  assumes "mvcc_inv m" "m_main m (kv_key kv) = Some kv" "\<not> kv_deleted kv"
  shows "mvcc_inv (s_index kv m)"
proof -
  note D = mvcc_invD [OF assms(1)]
  have "cfg_ok (s_index kv m)"
    using D(8) main_okD(2,5) [OF D(4) assms(2)] assms(2,3)
    unfolding cfg_ok_def by (auto split: if_splits)
  moreover have "main_ok (s_index kv m) = main_ok m" "hist_ok (s_index kv m) = hist_ok m"
    "hist_unique (s_index kv m) = hist_unique m" "hist_dense (s_index kv m) = hist_dense m"
    by (simp_all only: main_ok_def hist_ok_def hist_unique_def hist_dense_def s_index_sel)
  ultimately show ?thesis using D by (simp add: mvcc_inv_def)
qed

lemma mvcc_inv_put: "mvcc_inv m \<Longrightarrow> mvcc_inv (fst (s_put m k v))"
  by (simp add: s_put_def Let_def mvcc_inv_write legal_record)

lemma mvcc_inv_delete: "mvcc_inv m \<Longrightarrow> mvcc_inv (fst (s_delete m k))"
  by (simp add: s_delete_def Let_def mvcc_inv_write legal_record)

lemma mvcc_inv_publish: "mvcc_inv m \<Longrightarrow> mvcc_inv (fst (s_publish m k v))"
  by (simp add: s_publish_def Let_def mvcc_inv_write legal_record mvcc_inv_index)

definition batch_ok :: "mvcc \<Rightarrow> mvcc \<Rightarrow> bool" where
  "batch_ok m0 m \<longleftrightarrow> (\<forall>k. 1 \<le> s_version m0 k \<and> s_version m0 k \<le> m_rev m + 1 \<and>
     (\<forall>old. m_main m k = Some old \<longrightarrow> kv_version old \<le> s_version m0 k))"

lemma batch_ok_refl: "mvcc_inv m \<Longrightarrow> batch_ok m m"
  by (auto simp: batch_ok_def mvcc_inv_version_bounds) (simp add: s_version_def)

lemma batch_from_inv:
  "mvcc_inv m \<Longrightarrow> batch_ok m0 m \<Longrightarrow> mvcc_inv (fst (s_batch_from m0 m kvs))"
proof (induction m0 m kvs rule: s_batch_from.induct)
  case (2 m0 m k v kvs)
  let ?kv = "(s_record m k v False)\<lparr>kv_version := s_version m0 k\<rparr>"
  have "legal_write m ?kv"
    using "2.prems"(2) by (auto simp: legal_write_def batch_ok_def)
  then have "mvcc_inv (s_write ?kv m)"
    using "2.prems"(1) by (rule mvcc_inv_write [rotated])
  moreover have "batch_ok m0 (s_write ?kv m)"
    using "2.prems"(2) unfolding batch_ok_def by (auto intro: order.trans)
  ultimately have "mvcc_inv (fst (s_batch_from m0 (s_write ?kv m) kvs))"
    using "2.IH" by blast
  then show ?case by (simp add: Let_def case_prod_beta)
qed simp

lemma mvcc_inv_batch: "mvcc_inv m \<Longrightarrow> mvcc_inv (fst (s_batch m kvs))"
  by (simp add: s_batch_def batch_from_inv batch_ok_refl)

text \<open>Every command keeps the invariant, and so does every sequence of commands.\<close>

lemma mvcc_inv_apply: "mvcc_inv m \<Longrightarrow> mvcc_inv (fst (s_apply m c))"
  using mvcc_inv_put mvcc_inv_delete mvcc_inv_publish mvcc_inv_batch
  by (cases c) (simp_all add: case_prod_beta Let_def split: option.split)

lemma mvcc_inv_run: "mvcc_inv m \<Longrightarrow> mvcc_inv (fst (s_run m cs))"
proof (induction cs arbitrary: m)
  case (Cons c cs)
  then show ?case using mvcc_inv_apply [of m c] by (simp add: case_prod_beta Let_def)
qed simp

section \<open>Revisions and events\<close>

text \<open>
  The events of a command carry exactly the revisions it takes, in order and without a gap,
  and every one of them is in the history afterwards.
\<close>

lemma batch_from_revisions:
  "m_rev (fst (s_batch_from m0 m kvs)) = m_rev m + int (length kvs) \<and>
   map kv_revision (snd (s_batch_from m0 m kvs)) = [m_rev m + 1..m_rev m + int (length kvs)]"
proof (induction m0 m kvs rule: s_batch_from.induct)
  case (2 m0 m k v kvs)
  then show ?case
    using upto_rec1 [of "m_rev m + 1" "m_rev m + (1 + int (length kvs))"]
    by (simp add: Let_def case_prod_beta algebra_simps)
qed simp

lemma s_event_revision [simp]: "ev_revision (s_event kv) = kv_revision kv"
  by (simp add: s_event_def)

lemma s_apply_revisions:
  "map ev_revision (ar_events (snd (s_apply m c))) = [m_rev m + 1..m_rev (fst (s_apply m c))]"
proof -
  have one: "[r + 1] = [r + 1..r + 1]" for r :: int
    by simp
  show ?thesis
    using batch_from_revisions [of m m]
    by (cases c) (simp_all add: s_put_def s_delete_def s_publish_def s_batch_def s_ok_def s_fail_def
        ApplyResult_init_def case_prod_beta Let_def comp_def split: option.split)
qed

lemma s_apply_rev_bounds:
  "m_rev m \<le> m_rev (fst (s_apply m c))" "m_rev (fst (s_apply m c)) \<le> m_rev m + cmd_cost c"
  using batch_from_revisions [of m m]
  by (cases c; simp add: s_put_def s_delete_def s_publish_def s_batch_def
      case_prod_beta Let_def split: option.split)+

lemma s_apply_crev [simp]: "m_crev (fst (s_apply m c)) = m_crev m"
proof -
  have "m_crev (fst (s_batch_from m0 m kvs)) = m_crev m" for m0 m kvs
    by (induction m0 m kvs rule: s_batch_from.induct) (simp_all add: Let_def case_prod_beta)
  then show ?thesis
    by (cases c) (simp_all add: s_put_def s_delete_def s_publish_def s_batch_def case_prod_beta
        Let_def split: option.split)
qed

text \<open>A history record after a command was there before or is the record of one of its events.\<close>

lemma batch_from_hist:
  "m_hist (fst (s_batch_from m0 m kvs)) (r, u) = Some kv \<Longrightarrow>
    m_hist m (r, u) = Some kv \<or> kv \<in> set (snd (s_batch_from m0 m kvs))"
proof (induction m0 m kvs rule: s_batch_from.induct)
  case (2 m0 m k v kvs)
  then show ?case by (fastforce simp: Let_def case_prod_beta split: if_splits)
qed simp

lemma s_apply_hist:
  assumes "m_hist (fst (s_apply m c)) (r, u) = Some kv"
  shows "m_hist m (r, u) = Some kv \<or> s_event kv \<in> set (ar_events (snd (s_apply m c)))"
  using assms batch_from_hist [of m m _ r u kv]
  by (cases c) (fastforce simp: s_put_def s_delete_def s_publish_def s_batch_def s_ok_def
      ApplyResult_init_def case_prod_beta Let_def split: option.splits if_splits)+

section \<open>Replicas\<close>

text \<open>
  Two states agree when they give out the same revisions and hold the same current records;
  their histories and indices may differ, since each node compacts on its own.  All commands
  but a rollback to a named version depend on, and keep, no more than this.
\<close>

definition agree :: "mvcc \<Rightarrow> mvcc \<Rightarrow> bool" where
  "agree m m' \<longleftrightarrow> m_rev m = m_rev m' \<and> m_main m = m_main m'"

fun index_free :: "RaftCmd \<Rightarrow> bool" where
  "index_free (Cmd_rollback k n) = (n \<le> 0)"
| "index_free _ = True"

lemma agree_refl [simp]: "agree m m"
  by (simp add: agree_def)

lemma agree_trans: "agree a b \<Longrightarrow> agree b c \<Longrightarrow> agree a c"
  by (simp add: agree_def)

lemma agree_sym: "agree a b \<Longrightarrow> agree b a"
  by (simp add: agree_def)

lemma agree_write: "agree m m' \<Longrightarrow> agree (s_write kv m) (s_write kv m')"
  by (simp add: agree_def)

lemma agree_index: "agree m m' \<Longrightarrow> agree (s_index kv m) (s_index kv' m')"
  by (simp add: agree_def)

lemma agree_reads:
  assumes "agree m m'"
  shows "s_record m k v d = s_record m' k v d" "s_version m k = s_version m' k"
    "s_get m k = s_get m' k" "s_cas_matches m k e = s_cas_matches m' k e"
  using assms by (simp_all add: agree_def s_record_def s_version_def s_get_def s_cas_matches_def)

lemma agree_batch_from:
  "agree m m' \<Longrightarrow> agree m0 m0' \<Longrightarrow>
    agree (fst (s_batch_from m0 m kvs)) (fst (s_batch_from m0' m' kvs)) \<and>
    snd (s_batch_from m0 m kvs) = snd (s_batch_from m0' m' kvs)"
proof (induction kvs arbitrary: m m')
  case (Cons e kvs)
  obtain k v where "e = (k, v)" by (cases e)
  then show ?case
    using Cons agree_reads(1) [OF Cons.prems(1)] agree_reads(2) [OF Cons.prems(2)]
    by (simp add: Let_def case_prod_beta agree_write)
qed simp

lemma agree_apply:
  assumes "agree m m'" "index_free cmd"
  shows "agree (fst (s_apply m cmd)) (fst (s_apply m' cmd))"
    and "snd (s_apply m cmd) = snd (s_apply m' cmd)"
  using assms agree_batch_from [OF assms(1) assms(1)]
  by (cases cmd; simp add: agree_reads [OF assms(1)] agree_write agree_index s_put_def s_delete_def
      s_publish_def s_get_config_def s_batch_def Let_def case_prod_beta split: option.split)+

lemma agree_run:
  "agree m m' \<Longrightarrow> list_all index_free cmds \<Longrightarrow>
    agree (fst (s_run m cmds)) (fst (s_run m' cmds)) \<and> snd (s_run m cmds) = snd (s_run m' cmds)"
proof (induction cmds arbitrary: m m')
  case (Cons c cmds)
  then show ?case
    using Cons.IH [OF agree_apply(1) [OF Cons.prems(1)]] agree_apply(2) [OF Cons.prems(1), of c]
    by (simp add: case_prod_beta Let_def)
qed simp

lemma s_run_Cons:
  "fst (s_run m (c # cs)) = fst (s_run (fst (s_apply m c)) cs)"
  "snd (s_run m (c # cs)) = snd (s_apply m c) # snd (s_run (fst (s_apply m c)) cs)"
  by (simp_all add: case_prod_beta Let_def)

lemma s_run_append: "fst (s_run m (xs @ ys)) = fst (s_run (fst (s_run m xs)) ys)"
  by (induction xs arbitrary: m) (simp_all add: case_prod_beta)

end
