(* ===== verification/StoreSpec.thy ===== *)
theory StoreSpec
  imports Store Mvcc
begin

text \<open>
  The store implements the abstract multi-version store.  \<open>mvcc_of P c\<close> reads the abstract state
  off the contents of the database, \<open>layout\<close> says that every key is of one of the five
  families of src/src/common/storekey.h with a value that parses, and \<open>store_inv\<close> joins the
  layout with the abstract invariant.  The locale \<open>store_env\<close> is what the store relies on:
  LevelDB with reads that do not fail (writes may), and the message codec.
\<close>

section \<open>Abstraction\<close>

definition meta_at :: "contents \<Rightarrow> bytes \<Rightarrow> int" where
  "meta_at c k = (case c k of None \<Rightarrow> 0 | Some raw \<Rightarrow> s64 (DecodeUint64 raw))"

definition kv_at :: "codec \<Rightarrow> contents \<Rightarrow> bytes \<Rightarrow> KV option" where
  "kv_at P c k = (case c k of None \<Rightarrow> None | Some raw \<Rightarrow> parse_kv P raw)"

definition mvcc_of :: "codec \<Rightarrow> contents \<Rightarrow> mvcc" where
  "mvcc_of P c = \<lparr>m_rev = meta_at c RevisionMetaKey, m_crev = meta_at c CompactRevKey,
     m_main = (\<lambda>k. kv_at P c (MainKey k)),
     m_hist = (\<lambda>(r, k). if nn64 r then kv_at P c (VersionKey r k) else None),
     m_cfg = (\<lambda>(k, v). if nn64 v then kv_at P c (ConfigKey k v) else None)\<rparr>"

definition key_ok :: "codec \<Rightarrow> bytes \<Rightarrow> bytes \<Rightarrow> bool" where
  "key_ok P k raw \<longleftrightarrow> k = RevisionMetaKey \<or> k = CompactRevKey \<or>
     (\<exists>kv. parse_kv P raw = Some kv \<and>
        ((\<exists>u. k = MainKey u) \<or> (\<exists>r u. nn64 r \<and> k = VersionKey r u) \<or>
         (\<exists>u v. nn64 v \<and> k = ConfigKey u v)))"

definition layout :: "codec \<Rightarrow> contents \<Rightarrow> bool" where
  "layout P c \<longleftrightarrow> (\<forall>k raw. c k = Some raw \<longrightarrow> key_ok P k raw)"

definition store_inv :: "codec \<Rightarrow> contents \<Rightarrow> bool" where
  "store_inv P c \<longleftrightarrow> layout P c \<and> mvcc_inv (mvcc_of P c)"

lemma mvcc_of_sel [simp]:
  "m_rev (mvcc_of P c) = meta_at c RevisionMetaKey" "m_crev (mvcc_of P c) = meta_at c CompactRevKey"
  "m_main (mvcc_of P c) k = kv_at P c (MainKey k)"
  "m_hist (mvcc_of P c) (r, k) = (if nn64 r then kv_at P c (VersionKey r k) else None)"
  "m_cfg (mvcc_of P c) (k, v) = (if nn64 v then kv_at P c (ConfigKey k v) else None)"
  by (simp_all add: mvcc_of_def)

lemma mvcc_of_empty [simp]: "mvcc_of P Map.empty = mvcc_empty"
  by (auto simp: mvcc_of_def mvcc_empty_def meta_at_def kv_at_def)

lemma store_inv_empty: "store_inv P Map.empty"
  by (simp add: store_inv_def layout_def mvcc_inv_empty)

lemma i64_meta_at: "i64 (meta_at c k)"
  by (simp add: meta_at_def i64_s64 split: option.split) (simp add: i64_def)

lemma store_inv_rev: "store_inv P c \<Longrightarrow> nn64 (meta_at c RevisionMetaKey)"
  using i64_meta_at [of c RevisionMetaKey] mvcc_invD(3) [of "mvcc_of P c"]
  by (simp add: store_inv_def nn64_def i64_def)

lemma store_inv_crev: "store_inv P c \<Longrightarrow> nn64 (meta_at c CompactRevKey)"
  using i64_meta_at [of c CompactRevKey] mvcc_invD(1) [of "mvcc_of P c"]
  by (simp add: store_inv_def nn64_def i64_def)

section \<open>Single updates\<close>

lemma kv_at_upd [simp]:
  "kv_at P (c(k \<mapsto> raw)) k' = (if k' = k then parse_kv P raw else kv_at P c k')"
  "kv_at P (c(k := None)) k' = (if k' = k then None else kv_at P c k')"
  by (simp_all add: kv_at_def)

lemma meta_at_upd [simp]:
  "meta_at (c(k \<mapsto> raw)) k' = (if k' = k then s64 (DecodeUint64 raw) else meta_at c k')"
  "meta_at (c(k := None)) k' = (if k' = k then 0 else meta_at c k')"
  by (simp_all add: meta_at_def)

lemma mvcc_of_put_rev: "i64 r \<Longrightarrow>
    mvcc_of P (c(RevisionMetaKey \<mapsto> EncodeUint64 (u64 r))) = (mvcc_of P c)\<lparr>m_rev := r\<rparr>"
  by (auto simp: mvcc_of_def s64_u64)

lemma mvcc_of_put_crev: "i64 r \<Longrightarrow>
    mvcc_of P (c(CompactRevKey \<mapsto> EncodeUint64 (u64 r))) = (mvcc_of P c)\<lparr>m_crev := r\<rparr>"
  by (auto simp: mvcc_of_def s64_u64)

lemma mvcc_of_put_main: "parse_kv P raw = Some kv \<Longrightarrow>
    mvcc_of P (c(MainKey k \<mapsto> raw)) = (mvcc_of P c)\<lparr>m_main := (m_main (mvcc_of P c))(k \<mapsto> kv)\<rparr>"
  by (auto simp: mvcc_of_def)

lemma mvcc_of_put_hist: "parse_kv P raw = Some kv \<Longrightarrow> nn64 r \<Longrightarrow>
    mvcc_of P (c(VersionKey r k \<mapsto> raw)) = (mvcc_of P c)\<lparr>m_hist := (m_hist (mvcc_of P c))((r, k) \<mapsto> kv)\<rparr>"
  by (auto simp: mvcc_of_def fun_eq_iff)

lemma mvcc_of_put_cfg: "parse_kv P raw = Some kv \<Longrightarrow> nn64 v \<Longrightarrow>
    mvcc_of P (c(ConfigKey k v \<mapsto> raw)) = (mvcc_of P c)\<lparr>m_cfg := (m_cfg (mvcc_of P c))((k, v) \<mapsto> kv)\<rparr>"
  by (auto simp: mvcc_of_def fun_eq_iff)

lemma mvcc_of_del_hist: "nn64 r \<Longrightarrow>
    mvcc_of P (c(VersionKey r k := None)) = (mvcc_of P c)\<lparr>m_hist := (m_hist (mvcc_of P c))((r, k) := None)\<rparr>"
  by (auto simp: mvcc_of_def fun_eq_iff)

lemma mvcc_of_del_cfg: "nn64 v \<Longrightarrow>
    mvcc_of P (c(ConfigKey k v := None)) = (mvcc_of P c)\<lparr>m_cfg := (m_cfg (mvcc_of P c))((k, v) := None)\<rparr>"
  by (auto simp: mvcc_of_def fun_eq_iff)

lemmas mvcc_of_updates = mvcc_of_put_rev mvcc_of_put_crev mvcc_of_put_main mvcc_of_put_hist mvcc_of_put_cfg
  mvcc_of_del_hist mvcc_of_del_cfg

lemma layout_put: "layout P c \<Longrightarrow> key_ok P k raw \<Longrightarrow> layout P (c(k \<mapsto> raw))"
  by (simp add: layout_def)

lemma layout_del: "layout P c \<Longrightarrow> layout P (c(k := None))"
  by (simp add: layout_def)

lemma key_ok_intros:
  "key_ok P RevisionMetaKey raw" "key_ok P CompactRevKey raw"
  "parse_kv P raw = Some kv \<Longrightarrow> key_ok P (MainKey u) raw"
  "parse_kv P raw = Some kv \<Longrightarrow> nn64 r \<Longrightarrow> key_ok P (VersionKey r u) raw"
  "parse_kv P raw = Some kv \<Longrightarrow> nn64 v \<Longrightarrow> key_ok P (ConfigKey u v) raw"
  unfolding key_ok_def by blast+

section \<open>Writing one record\<close>

definition record_batch :: "codec \<Rightarrow> KV \<Rightarrow> batch" where
  "record_batch P kv = [BPut RevisionMetaKey (EncodeUint64 (u64 (kv_revision kv))),
     BPut (MainKey (kv_key kv)) (ser_kv P kv),
     BPut (VersionKey (kv_revision kv) (kv_key kv)) (ser_kv P kv)]"

locale store_env = leveldb_readable L C + protobuf P utf8
  for L :: "'db leveldb" and C :: "'db \<Rightarrow> contents" and P :: codec and utf8 :: "string \<Rightarrow> bool"
begin

lemma ReadMain_refines: "ReadMainLocked L P db k = m_main (mvcc_of P (C db)) k"
  by (simp add: ReadMainLocked_def get_eq kv_at_def split: option.split)

lemma CurrentRevision_refines: "CurrentRevisionLocked L db = m_rev (mvcc_of P (C db))"
  by (simp add: CurrentRevisionLocked_def get_eq meta_at_def split: option.split)

lemma CompactRev_refines: "CompactRevLocked L db = m_crev (mvcc_of P (C db))"
  by (simp add: CompactRevLocked_def get_eq meta_at_def split: option.split)

lemma Get_refines: "GetLocked L P db k =
    (case s_get (mvcc_of P (C db)) k of None \<Rightarrow> (None, KEY_NOT_FOUND) | Some kv \<Rightarrow> (Some kv, OK))"
  by (simp add: GetLocked_def ReadMain_refines s_get_def split: option.split)

lemma parse_stored:
  "layout P (C db) \<Longrightarrow> C db (ConfigKey k v) = Some raw \<Longrightarrow> parse_kv P raw \<noteq> None"
  unfolding layout_def key_ok_def by fastforce

lemma GetConfig_refines:
  assumes "layout P (C db)" "i64 v"
  shows "fst (GetConfigLocked L P db k v) = s_get_config (mvcc_of P (C db)) k v"
    and "snd (GetConfigLocked L P db k v) =
      (if s_get_config (mvcc_of P (C db)) k v \<noteq> None then OK
       else if v \<le> 0 then KEY_NOT_FOUND else VERSION_NOT_FOUND)"
proof -
  have "nn64 v" if "\<not> v \<le> 0" using that assms(2) by (simp add: nn64_def i64_def)
  then show "fst (GetConfigLocked L P db k v) = s_get_config (mvcc_of P (C db)) k v"
    "snd (GetConfigLocked L P db k v) =
      (if s_get_config (mvcc_of P (C db)) k v \<noteq> None then OK
       else if v \<le> 0 then KEY_NOT_FOUND else VERSION_NOT_FOUND)"
    using parse_stored [OF assms(1), of k v]
    by (auto simp: GetConfigLocked_def s_get_config_def Get_refines get_eq kv_at_def split: option.split)
qed

lemma next_version_refines:
  assumes "store_inv P (C db)" "nn64 (m_rev (mvcc_of P (C db)) + 1)"
  shows "next_version (m_main (mvcc_of P (C db)) k) = s_version (mvcc_of P (C db)) k"
proof -
  have "1 \<le> s_version (mvcc_of P (C db)) k" "s_version (mvcc_of P (C db)) k \<le> m_rev (mvcc_of P (C db)) + 1"
    using assms(1) mvcc_inv_version_bounds [of "mvcc_of P (C db)" k] by (simp_all add: store_inv_def)
  with assms(2) show ?thesis
    by (auto simp: next_version_def s_version_def nn64_def split: option.splits)
qed

lemma NextRevision_refines:
  "nn64 (m_rev (mvcc_of P (C db)) + 1) \<Longrightarrow> NextRevisionLocked L db b =
     (m_rev (mvcc_of P (C db)) + 1, b @ [BPut RevisionMetaKey (EncodeUint64 (u64 (m_rev (mvcc_of P (C db)) + 1)))])"
  by (simp add: NextRevisionLocked_def CurrentRevision_refines Let_def)

lemma record_fits:
  assumes "store_inv P (C db)" "nn64 (m_rev (mvcc_of P (C db)) + 1)" "utf8 k" "utf8 v"
  shows "kv_fits utf8 (s_record (mvcc_of P (C db)) k v d)"
  using assms mvcc_inv_version_bounds [of "mvcc_of P (C db)" k]
  by (auto simp: kv_fits_def store_inv_def nn64_def i64_def)

lemma record_batch_refines:
  assumes "layout P c" "kv_fits utf8 kv" "nn64 (kv_revision kv)"
  shows "mvcc_of P (apply_batch (record_batch P kv) c) = s_write kv (mvcc_of P c)"
    and "layout P (apply_batch (record_batch P kv) c)"
proof -
  note ps = parse_ser [OF assms(2)]
  show "mvcc_of P (apply_batch (record_batch P kv) c) = s_write kv (mvcc_of P c)"
    using assms(3) by (simp add: record_batch_def mvcc_of_updates ps s_write_def)
  show "layout P (apply_batch (record_batch P kv) c)"
    using assms(1,3) by (simp add: record_batch_def layout_put key_ok_intros ps)
qed

text \<open>
  The write path of Put, Delete, CompareAndSwap and Publish is one batch with the record under
  its keys.  Either the write fails and the contents are unchanged, or the abstract state
  becomes the one after the write.
\<close>

lemma write_effect:
  assumes "layout P (C db)" "kv_fits utf8 kv" "nn64 (kv_revision kv)"
    and "ldb_Write L db (record_batch P kv) = (db', True)"
  shows "mvcc_of P (C db') = s_write kv (mvcc_of P (C db))" "layout P (C db')"
  using record_batch_refines [OF assms(1-3)] write_ok [OF assms(4)] by simp_all

lemma write_index_effect:
  assumes "layout P (C db)" "kv_fits utf8 kv" "nn64 (kv_revision kv)" "nn64 (kv_version kv)"
    and "ldb_Write L db (record_batch P kv @ [BPut (ConfigKey (kv_key kv) (kv_version kv)) (ser_kv P kv)])
      = (db', True)"
  shows "mvcc_of P (C db') = s_index kv (s_write kv (mvcc_of P (C db)))" "layout P (C db')"
  using record_batch_refines [OF assms(1-3)] write_ok [OF assms(5)] assms(4)
  by (simp_all add: apply_batch_append mvcc_of_put_cfg parse_ser [OF assms(2)] s_index_def
      layout_put key_ok_intros)

lemma write_cases:
  obtains db' where "ldb_Write L db b = (db', True)" "C db' = apply_batch b (C db)"
  | db' where "ldb_Write L db b = (db', False)" "C db' = C db"
  using write_ok [of db b] write_failed [of db b] by (metis (full_types) surj_pair)

text \<open>Each writing method is its batch followed by one write.\<close>

lemma write_methods_eq:
  fixes db k v
  defines "m \<equiv> mvcc_of P (C db)"
  assumes "store_inv P (C db)" "nn64 (m_rev m + 1)"
  shows "PutLocked L P db k v = (let kv = s_record m k v False in
      case ldb_Write L db (record_batch P kv) of (db', ok) \<Rightarrow>
        if ok then (db', m_rev m + 1, Some kv) else (db', -1, None))" (is ?put)
    and "DeleteLocked L P db k = (let kv = s_record m k [] True in
      case ldb_Write L db (record_batch P kv) of (db', ok) \<Rightarrow>
        if ok then (db', m_rev m + 1, Some kv) else (db', -1, None))" (is ?del)
    and "PublishLocked L P db k v = (let kv = s_record m k v False in
      case ldb_Write L db (record_batch P kv @ [BPut (ConfigKey k (kv_version kv)) (ser_kv P kv)]) of
        (db', ok) \<Rightarrow> if ok then (db', m_rev m + 1, Some kv) else (db', -1, None))" (is ?pub)
    and "CompareAndSwapLocked L P db k e v =
      (if \<not> s_cas_matches m k e then (db, -1, None, CAS_FAILED)
       else let kv = s_record m k v False in
      case ldb_Write L db (record_batch P kv) of (db', ok) \<Rightarrow>
        if ok then (db', m_rev m + 1, Some kv, OK) else (db', -1, None, INTERNAL))" (is ?cas)
proof -
  have nr: "NextRevisionLocked L db [] = (m_rev m + 1, [BPut RevisionMetaKey (EncodeUint64 (u64 (m_rev m + 1)))])"
    using NextRevision_refines [of db "[]"] assms(3) by (simp add: m_def)
  have pos: "\<not> m_rev m + 1 < 0" using assms(3) by (simp add: nn64_def)
  have nv: "next_version (m_main m k) = s_version m k"
    using next_version_refines [of db k] assms(2,3) by (simp add: m_def)
  note eqs = nr pos nv ReadMain_refines [of db k, folded m_def] SerializeKV_def record_batch_def
    s_record_def Let_def
  show ?put ?del ?pub
    unfolding PutLocked_def DeleteLocked_def PublishLocked_def by (simp_all add: eqs split: prod.split)
  show ?cas unfolding CompareAndSwapLocked_def
    by (simp add: eqs s_cas_matches_def s_get_def split: option.split prod.split)
qed

text \<open>
  The batch is built record by record; the revision is written once, at the end, so the
  intermediate contents differ from the intermediate abstract states in the revision only.
\<close>

lemma batch_record_step:
  fixes db k v m
  defines "m0 \<equiv> mvcc_of P (C db)"
  defines "kv \<equiv> (s_record m k v False)\<lparr>kv_version := s_version m0 k\<rparr>"
  defines "c' \<equiv> \<lambda>c. c(MainKey k \<mapsto> ser_kv P kv, VersionKey (m_rev m + 1) k \<mapsto> ser_kv P kv)"
  assumes "store_inv P (C db)" "layout P c" "mvcc_of P c = m\<lparr>m_rev := m_rev m0\<rparr>"
    and nn: "nn64 (m_rev m + 1)" "nn64 (m_rev m0 + 1)" and "utf8 k" "utf8 v"
  shows "layout P (c' c)" "mvcc_of P (c' c) = (s_write kv m)\<lparr>m_rev := m_rev m0\<rparr>"
proof -
  have sel: "kv_key kv = k" "kv_revision kv = m_rev m + 1" by (simp_all add: kv_def)
  have "kv_fits utf8 kv"
    using record_fits [OF assms(4), of k v False] nn assms(9,10) by (simp add: kv_fits_def kv_def m0_def)
  note ps = parse_ser [OF this]
  show "layout P (c' c)" "mvcc_of P (c' c) = (s_write kv m)\<lparr>m_rev := m_rev m0\<rparr>"
    using assms(5,6) nn(1) sel
    by (simp_all add: c'_def layout_put key_ok_intros ps mvcc_of_updates s_write_def)
qed

lemma BatchPut_loop_Cons:
  fixes db
  defines "m0 \<equiv> mvcc_of P (C db)"
  defines "kv \<equiv> \<lambda>m k v. (s_record m k v False)\<lparr>kv_version := s_version m0 k\<rparr>"
  assumes "store_inv P (C db)" "nn64 (m_rev m + 1)" "nn64 (m_rev m0 + 1)"
  shows "BatchPut_loop L P db ((k, v) # kvs) (m_rev m) b out = BatchPut_loop L P db kvs (m_rev (s_write (kv m k v) m))
    (b @ [BPut (MainKey k) (ser_kv P (kv m k v)), BPut (VersionKey (m_rev m + 1) k) (ser_kv P (kv m k v))]) (out @ [kv m k v])"
proof -
  have "next_version (ReadMainLocked L P db k) = s_version m0 k"
    using next_version_refines [OF assms(3)] assms(5) by (simp add: ReadMain_refines m0_def)
  moreover have "kv m k v = \<lparr>kv_key = k, kv_value = v, kv_version = s_version m0 k,
      kv_revision = m_rev m + 1, kv_deleted = False\<rparr>"
    by (simp add: kv_def s_record_def)
  ultimately show ?thesis using assms(4) by (simp add: Let_def SerializeKV_def)
qed

lemma BatchPut_loop_refines:
  fixes db
  defines "m0 \<equiv> mvcc_of P (C db)"
  assumes "store_inv P (C db)"
  shows "\<lbrakk>layout P c; mvcc_of P c = m\<lparr>m_rev := m_rev m0\<rparr>; m_rev m0 \<le> m_rev m;
      nn64 (m_rev m + int (length kvs)); \<forall>(k, v) \<in> set kvs. utf8 k \<and> utf8 v\<rbrakk> \<Longrightarrow>
    \<exists>b'. BatchPut_loop L P db kvs (m_rev m) b out =
          (m_rev (fst (s_batch_from m0 m kvs)), b @ b', out @ snd (s_batch_from m0 m kvs)) \<and>
        layout P (apply_batch b' c) \<and>
        mvcc_of P (apply_batch b' c) = (fst (s_batch_from m0 m kvs))\<lparr>m_rev := m_rev m0\<rparr>"
proof (induction kvs arbitrary: m c b out)
  case Nil
  then show ?case by simp
next
  case (Cons e kvs)
  obtain k v where e: "e = (k, v)" by (cases e)
  define kv where "kv = (s_record m k v False)\<lparr>kv_version := s_version m0 k\<rparr>"
  let ?c = "c(MainKey k \<mapsto> ser_kv P kv, VersionKey (m_rev m + 1) k \<mapsto> ser_kv P kv)"
  have rev: "0 \<le> m_rev m0" "nn64 (m_rev m + 1)"
    using store_inv_rev [OF assms(2)] Cons.prems(3,4) by (auto simp: m0_def nn64_def)
  then have nn: "nn64 (m_rev m + 1)" "nn64 (m_rev m0 + 1)" using Cons.prems(3) by (auto simp: nn64_def)
  have "utf8 k" "utf8 v" using Cons.prems(5) e by simp_all
  note step = batch_record_step [OF assms(2) Cons.prems(1) Cons.prems(2) [unfolded m0_def] nn(1)
      nn(2) [unfolded m0_def] this, folded m0_def, folded kv_def]
  let ?ops = "[BPut (MainKey k) (ser_kv P kv), BPut (VersionKey (m_rev m + 1) k) (ser_kv P kv)]"
  have loop: "BatchPut_loop L P db (e # kvs) (m_rev m) b out =
      BatchPut_loop L P db kvs (m_rev (s_write kv m)) (b @ ?ops) (out @ [kv])"
    using BatchPut_loop_Cons [OF assms(2) nn(1) nn(2) [unfolded m0_def]] by (simp only: e kv_def m0_def)
  have spec: "s_batch_from m0 m (e # kvs) =
      (fst (s_batch_from m0 (s_write kv m) kvs), kv # snd (s_batch_from m0 (s_write kv m) kvs))"
    by (simp add: e Let_def case_prod_beta kv_def)
  have pre: "m_rev m0 \<le> m_rev (s_write kv m)" "nn64 (m_rev (s_write kv m) + int (length kvs))"
    "\<forall>(k, v) \<in> set kvs. utf8 k \<and> utf8 v"
    using Cons.prems(3-5) by (simp_all add: kv_def algebra_simps)
  from Cons.IH [OF step pre, of "b @ ?ops" "out @ [kv]"] obtain b' where b':
    "BatchPut_loop L P db kvs (m_rev (s_write kv m)) (b @ ?ops) (out @ [kv]) =
      (m_rev (fst (s_batch_from m0 (s_write kv m) kvs)), (b @ ?ops) @ b',
       (out @ [kv]) @ snd (s_batch_from m0 (s_write kv m) kvs))"
    "layout P (apply_batch b' ?c)"
    "mvcc_of P (apply_batch b' ?c) = (fst (s_batch_from m0 (s_write kv m) kvs))\<lparr>m_rev := m_rev m0\<rparr>"
    by blast
  show ?case
    by (rule exI [of _ "?ops @ b'"]) (simp only: loop spec b' fst_conv snd_conv append_assoc
        append_Cons append_Nil apply_batch.simps simp_thms)
qed

lemma BatchPut_refines:
  fixes db kvs
  defines "m \<equiv> mvcc_of P (C db)"
  assumes "store_inv P (C db)" "nn64 (m_rev m + int (length kvs))"
    and "\<forall>(k, v) \<in> set kvs. utf8 k \<and> utf8 v" "BatchPutLocked L P db kvs = (db', r, out)"
  shows "r = 0 \<and> out = snd (s_batch m kvs) \<and> mvcc_of P (C db') = fst (s_batch m kvs) \<and> layout P (C db') \<or>
    r = -1 \<and> out = [] \<and> (\<exists>b. ldb_Write L db b = (db', False))"
proof (cases "kvs = []")
  case True
  with assms show ?thesis by (simp add: BatchPutLocked_def s_batch_def store_inv_def)
next
  case False
  have "layout P (C db)" using assms(2) by (simp add: store_inv_def)
  from BatchPut_loop_refines [OF assms(2) this, of m kvs "[]" "[]"] assms(3,4)
  obtain b' where b': "BatchPut_loop L P db kvs (m_rev m) [] [] =
      (m_rev (fst (s_batch m kvs)), b', snd (s_batch m kvs))"
    "layout P (apply_batch b' (C db))"
    "mvcc_of P (apply_batch b' (C db)) = (fst (s_batch m kvs))\<lparr>m_rev := m_rev m\<rparr>"
    by (auto simp: m_def s_batch_def)
  have nn: "i64 (m_rev (fst (s_batch m kvs)))"
    using assms(3) batch_from_revisions [of m m kvs] by (simp add: s_batch_def)
  define b where "b = b' @ [BPut RevisionMetaKey (EncodeUint64 (u64 (m_rev (fst (s_batch m kvs)))))]"
  have eq: "BatchPutLocked L P db kvs = (case ldb_Write L db b of (db', ok) \<Rightarrow>
      if ok then (db', 0, snd (s_batch m kvs)) else (db', -1, []))"
    using b'(1) False
    by (simp add: BatchPutLocked_def b_def CurrentRevision_refines m_def split: prod.split)
  show ?thesis
  proof (cases rule: write_cases [of db b])
    case (1 db1)
    then have "mvcc_of P (C db1) = fst (s_batch m kvs)" "layout P (C db1)"
      using b'(2,3) nn by (simp_all add: b_def apply_batch_append mvcc_of_put_rev layout_put key_ok_intros)
    with 1 eq assms(5) show ?thesis by simp
  next
    case (2 db1)
    with eq assms(5) show ?thesis by auto
  qed
qed

end

end
