(* ===== verification/StoreOps.thy ===== *)
theory StoreOps
  imports StoreSpec
begin

text \<open>
  src/src/store/store_ops.cpp: one committed command applied to the store.  The functions fill
  an ApplyResult that the caller allocated; here it is passed in and returned.  The theorem of
  this theory is that the interpreter refines \<open>s_apply\<close> of the abstract store, or reports
  INTERNAL with the contents unchanged when LevelDB refuses the write.
\<close>

section \<open>The interpreter\<close>

definition MakeEvent :: "KV \<Rightarrow> WatchEvent" where
  "MakeEvent kv = \<lparr>ev_revision = kv_revision kv, ev_key = kv_key kv, ev_value = kv_value kv,
     ev_version = kv_version kv, ev_type = (if kv_deleted kv then ''DELETE'' else ''PUT'')\<rparr>"

text \<open>A local KV that a store method fills through its out pointer, or leaves as constructed.\<close>

definition filled :: "KV option \<Rightarrow> KV" where
  "filled out_kv = (case out_kv of None \<Rightarrow> KV_default | Some kv \<Rightarrow> kv)"

definition push_event :: "ApplyResult \<Rightarrow> KV \<Rightarrow> ApplyResult" where
  "push_event out kv = out\<lparr>ar_events := ar_events out @ [MakeEvent kv]\<rparr>"

definition ApplyPut ::
  "'db leveldb \<Rightarrow> codec \<Rightarrow> 'db \<Rightarrow> string \<Rightarrow> string \<Rightarrow> ApplyResult \<Rightarrow> 'db \<times> ApplyResult" where
  "ApplyPut L P db key val out =
    (case PutLocked L P db key val of (db', rv, kv) \<Rightarrow>
       if rv < 0 then (db', out\<lparr>ar_code := INTERNAL, ar_message := ''store write failed''\<rparr>)
       else (db', push_event (out\<lparr>ar_code := OK, ar_kv := filled kv\<rparr>) (filled kv)))"

definition ApplyDelete ::
  "'db leveldb \<Rightarrow> codec \<Rightarrow> 'db \<Rightarrow> string \<Rightarrow> ApplyResult \<Rightarrow> 'db \<times> ApplyResult" where
  "ApplyDelete L P db key out =
    (case DeleteLocked L P db key of (db', rv, kv) \<Rightarrow>
       if rv < 0 then (db', out\<lparr>ar_code := INTERNAL, ar_message := ''store write failed''\<rparr>)
       else (db', push_event (out\<lparr>ar_code := OK, ar_kv := filled kv\<rparr>) (filled kv)))"

definition ApplyPublish ::
  "'db leveldb \<Rightarrow> codec \<Rightarrow> 'db \<Rightarrow> string \<Rightarrow> string \<Rightarrow> ApplyResult \<Rightarrow> 'db \<times> ApplyResult" where
  "ApplyPublish L P db key val out =
    (case PublishLocked L P db key val of (db', rv, kv) \<Rightarrow>
       if rv < 0 then (db', out\<lparr>ar_code := INTERNAL, ar_message := ''store publish failed''\<rparr>)
       else (db', push_event (out\<lparr>ar_code := OK, ar_kv := filled kv\<rparr>) (filled kv)))"

definition ApplyRollback ::
  "'db leveldb \<Rightarrow> codec \<Rightarrow> 'db \<Rightarrow> string \<Rightarrow> int \<Rightarrow> ApplyResult \<Rightarrow> 'db \<times> ApplyResult" where
  "ApplyRollback L P db key target_version out =
    (case RollbackLocked L P db key target_version of (db', rv, kv, ok) \<Rightarrow>
       if \<not> ok then
         (db', out\<lparr>ar_code := VERSION_NOT_FOUND, ar_message := ''target version not found''\<rparr>)
       else if rv < 0 then (db', out\<lparr>ar_code := INTERNAL, ar_message := ''store rollback failed''\<rparr>)
       else (db', push_event (out\<lparr>ar_code := OK, ar_kv := filled kv\<rparr>) (filled kv)))"

definition ApplyCas ::
  "'db leveldb \<Rightarrow> codec \<Rightarrow> 'db \<Rightarrow> string \<Rightarrow> string \<Rightarrow> string \<Rightarrow> ApplyResult \<Rightarrow> 'db \<times> ApplyResult" where
  "ApplyCas L P db key expect val out =
    (case CompareAndSwapLocked L P db key expect val of (db', rv, kv, code) \<Rightarrow>
       if rv < 0 then
         (if code = CAS_FAILED
          then (db', out\<lparr>ar_code := CAS_FAILED, ar_message := ''expect value mismatch''\<rparr>)
          else (db', out\<lparr>ar_code := INTERNAL, ar_message := ''store cas failed''\<rparr>))
       else (db', push_event (out\<lparr>ar_code := OK, ar_kv := filled kv\<rparr>) (filled kv)))"

definition ApplyBatch ::
  "'db leveldb \<Rightarrow> codec \<Rightarrow> 'db \<Rightarrow> (string \<times> string) list \<Rightarrow> ApplyResult \<Rightarrow> 'db \<times> ApplyResult" where
  "ApplyBatch L P db puts out =
    (case BatchPutLocked L P db puts of (db', rv, new_kvs) \<Rightarrow>
       if rv < 0 then (db', out\<lparr>ar_code := INTERNAL, ar_message := ''store batch write failed''\<rparr>)
       else (db', foldl push_event (out\<lparr>ar_code := OK, ar_kvs := new_kvs\<rparr>) new_kvs))"

fun ApplyCmdToStore ::
  "'db leveldb \<Rightarrow> codec \<Rightarrow> 'db \<Rightarrow> RaftCmd \<Rightarrow> ApplyResult \<Rightarrow> 'db \<times> ApplyResult" where
  "ApplyCmdToStore L P db (Cmd_put key val) out = ApplyPut L P db key val out"
| "ApplyCmdToStore L P db (Cmd_delete key) out = ApplyDelete L P db key out"
| "ApplyCmdToStore L P db (Cmd_batch_put puts) out = ApplyBatch L P db puts out"
| "ApplyCmdToStore L P db (Cmd_cas key expect val) out = ApplyCas L P db key expect val out"
| "ApplyCmdToStore L P db (Cmd_publish key val) out = ApplyPublish L P db key val out"
| "ApplyCmdToStore L P db (Cmd_rollback key ver) out = ApplyRollback L P db key ver out"
| "ApplyCmdToStore L P db Cmd_not_set out =
     (db, out\<lparr>ar_code := INTERNAL, ar_message := ''unknown raft cmd''\<rparr>)"

text \<open>A log: each command with a fresh result, as the state machine applies them.\<close>

fun apply_log :: "'db leveldb \<Rightarrow> codec \<Rightarrow> 'db \<Rightarrow> RaftCmd list \<Rightarrow> 'db \<times> ApplyResult list" where
  "apply_log L P db [] = (db, [])"
| "apply_log L P db (cmd # cmds) =
    (let (db1, r) = ApplyCmdToStore L P db cmd ApplyResult_init;
         (db2, rs) = apply_log L P db1 cmds
     in (db2, r # rs))"

section \<open>Refinement\<close>

text \<open>What a command that came over the wire satisfies: its strings are proto3 strings.\<close>

fun cmd_fits :: "(string \<Rightarrow> bool) \<Rightarrow> RaftCmd \<Rightarrow> bool" where
  "cmd_fits utf8 (Cmd_put k v) = (utf8 k \<and> utf8 v)"
| "cmd_fits utf8 (Cmd_delete k) = utf8 k"
| "cmd_fits utf8 (Cmd_cas k e v) = (utf8 k \<and> utf8 e \<and> utf8 v)"
| "cmd_fits utf8 (Cmd_publish k v) = (utf8 k \<and> utf8 v)"
| "cmd_fits utf8 (Cmd_rollback k n) = (utf8 k \<and> i64 n)"
| "cmd_fits utf8 (Cmd_batch_put kvs) = (\<forall>(k, v) \<in> set kvs. utf8 k \<and> utf8 v)"
| "cmd_fits utf8 Cmd_not_set = True"

text \<open>How many revisions a log takes at most.\<close>

definition log_cost :: "RaftCmd list \<Rightarrow> int" where
  "log_cost cmds = sum_list (map cmd_cost cmds)"

lemma cmd_cost_nonneg [simp]: "0 \<le> cmd_cost cmd"
  by (cases cmd) simp_all

lemma log_cost_simps [simp]:
  "log_cost [] = 0" "log_cost (cmd # cmds) = cmd_cost cmd + log_cost cmds"
  by (simp_all add: log_cost_def)

lemma log_cost_nonneg [simp]: "0 \<le> log_cost cmds"
  by (induction cmds) simp_all

text \<open>The two outcomes of a command.\<close>

definition cmd_done :: "('db \<Rightarrow> contents) \<Rightarrow> codec \<Rightarrow> 'db \<Rightarrow> RaftCmd \<Rightarrow> 'db \<Rightarrow> ApplyResult \<Rightarrow> bool" where
  "cmd_done C P db cmd db' res \<longleftrightarrow>
     s_apply (mvcc_of P (C db)) cmd = (mvcc_of P (C db'), res) \<and> layout P (C db')"

definition cmd_refused :: "'db leveldb \<Rightarrow> 'db \<Rightarrow> 'db \<Rightarrow> ApplyResult \<Rightarrow> bool" where
  "cmd_refused L db db' res \<longleftrightarrow>
     (\<exists>b. ldb_Write L db b = (db', False)) \<and> ar_code res = INTERNAL \<and> ar_events res = []"

lemma MakeEvent_eq: "MakeEvent = s_event"
  by (simp add: fun_eq_iff MakeEvent_def s_event_def)

lemma push_event_init:
  "push_event (ApplyResult_init\<lparr>ar_code := OK, ar_kv := kv\<rparr>) kv = s_ok kv"
  by (simp add: push_event_def s_ok_def MakeEvent_eq ApplyResult_init_def)

lemma foldl_push_event:
  "foldl push_event out kvs = out\<lparr>ar_events := ar_events out @ map s_event kvs\<rparr>"
  by (induction kvs arbitrary: out) (simp_all add: push_event_def MakeEvent_eq)

lemma fail_init: "ApplyResult_init\<lparr>ar_code := c, ar_message := msg\<rparr> = s_fail c msg"
  by (simp add: s_fail_def)

lemma s_fail_sel [simp]: "ar_code (s_fail c msg) = c" "ar_events (s_fail c msg) = []"
  by (simp_all add: s_fail_def ApplyResult_init_def)

lemmas apply_defs = ApplyPut_def ApplyDelete_def ApplyPublish_def ApplyRollback_def ApplyCas_def
  ApplyBatch_def

context store_env
begin

lemma apply_record:
  assumes "store_inv P (C db)" "nn64 (m_rev (mvcc_of P (C db)) + 1)" "utf8 k" "utf8 v"
    and "s_apply (mvcc_of P (C db)) cmd =
      (s_write (s_record (mvcc_of P (C db)) k v d) (mvcc_of P (C db)),
       s_ok (s_record (mvcc_of P (C db)) k v d))"
    and "ldb_Write L db (record_batch P (s_record (mvcc_of P (C db)) k v d)) = (db', True)"
  shows "cmd_done C P db cmd db' (s_ok (s_record (mvcc_of P (C db)) k v d))"
  using write_effect [OF _ record_fits [OF assms(1-4)] _ assms(6)] assms
  by (simp add: cmd_done_def store_inv_def)

lemma apply_publish:
  assumes "store_inv P (C db)" "nn64 (m_rev (mvcc_of P (C db)) + 1)" "utf8 k" "utf8 v"
    and "ldb_Write L db (record_batch P kv @ [BPut (ConfigKey k (kv_version kv)) (ser_kv P kv)]) = (db', True)"
    and "kv = s_record (mvcc_of P (C db)) k v False"
  shows "mvcc_of P (C db') = fst (s_publish (mvcc_of P (C db)) k v) \<and> layout P (C db')"
proof -
  have "nn64 (kv_version kv)"
    using mvcc_inv_version_bounds [of "mvcc_of P (C db)" k] assms(1,2,6)
    by (simp add: store_inv_def nn64_def)
  then show ?thesis
    using write_index_effect [OF _ record_fits [OF assms(1-4), of False, folded assms(6)], of db db'] assms
    by (simp add: store_inv_def s_publish_def Let_def)
qed

lemma apply_put_refines:
  assumes "store_inv P (C db)" "nn64 (m_rev (mvcc_of P (C db)) + 1)" "utf8 k" "utf8 v"
    and "ApplyPut L P db k v ApplyResult_init = (db', res)"
  shows "cmd_done C P db (Cmd_put k v) db' res \<or> cmd_refused L db db' res"
proof -
  let ?kv = "s_record (mvcc_of P (C db)) k v False"
  note pos = assms(2) [unfolded nn64_def]
  show ?thesis
  proof (cases rule: write_cases [of db "record_batch P ?kv"])
    case (1 db1)
    then show ?thesis
      using apply_record [OF assms(1-4), of "Cmd_put k v" False db1] pos assms(5)
      by (simp add: apply_defs write_methods_eq [OF assms(1,2)] filled_def push_event_init s_put_def Let_def)
  next
    case (2 db1)
    then show ?thesis
      using assms(5)
      by (auto simp: apply_defs write_methods_eq [OF assms(1,2)] fail_init cmd_refused_def)
  qed
qed

lemma apply_delete_refines:
  assumes "store_inv P (C db)" "nn64 (m_rev (mvcc_of P (C db)) + 1)" "utf8 k"
    and "ApplyDelete L P db k ApplyResult_init = (db', res)"
  shows "cmd_done C P db (Cmd_delete k) db' res \<or> cmd_refused L db db' res"
proof -
  let ?kv = "s_record (mvcc_of P (C db)) k [] True"
  note pos = assms(2) [unfolded nn64_def]
  show ?thesis
  proof (cases rule: write_cases [of db "record_batch P ?kv"])
    case (1 db1)
    then show ?thesis
      using apply_record [OF assms(1-3) utf8_Nil, of "Cmd_delete k" True db1] pos assms(4)
      by (simp add: apply_defs write_methods_eq [OF assms(1,2)] filled_def push_event_init s_delete_def Let_def)
  next
    case (2 db1)
    then show ?thesis
      using assms(4)
      by (auto simp: apply_defs write_methods_eq [OF assms(1,2)] fail_init cmd_refused_def)
  qed
qed

lemma apply_cas_refines:
  assumes "store_inv P (C db)" "nn64 (m_rev (mvcc_of P (C db)) + 1)" "utf8 k" "utf8 v"
    and "ApplyCas L P db k e v ApplyResult_init = (db', res)"
  shows "cmd_done C P db (Cmd_cas k e v) db' res \<or> cmd_refused L db db' res"
proof (cases "s_cas_matches (mvcc_of P (C db)) k e")
  case False
  then show ?thesis
    using assms(1,5)
    by (simp add: apply_defs write_methods_eq [OF assms(1,2)] fail_init cmd_done_def store_inv_def)
next
  case True
  let ?kv = "s_record (mvcc_of P (C db)) k v False"
  note pos = assms(2) [unfolded nn64_def]
  show ?thesis
  proof (cases rule: write_cases [of db "record_batch P ?kv"])
    case (1 db1)
    then show ?thesis
      using apply_record [OF assms(1-4), of "Cmd_cas k e v" False db1] pos assms(5) True
      by (simp add: apply_defs write_methods_eq [OF assms(1,2)] filled_def push_event_init s_put_def Let_def)
  next
    case (2 db1)
    then show ?thesis
      using assms(5) True
      by (auto simp: apply_defs write_methods_eq [OF assms(1,2)] fail_init cmd_refused_def)
  qed
qed

text \<open>Publish, and Rollback once its target is found.\<close>

lemma publish_refines:
  assumes "store_inv P (C db)" "nn64 (m_rev (mvcc_of P (C db)) + 1)" "utf8 k" "utf8 v"
    and "PublishLocked L P db k v = (db', rv, out)"
  shows "rv = m_rev (mvcc_of P (C db)) + 1 \<and> out = Some (s_record (mvcc_of P (C db)) k v False) \<and>
      s_publish (mvcc_of P (C db)) k v = (mvcc_of P (C db'), filled out) \<and> layout P (C db') \<or>
    rv = -1 \<and> (\<exists>b. ldb_Write L db b = (db', False))"
proof -
  let ?kv = "s_record (mvcc_of P (C db)) k v False"
  show ?thesis
  proof (cases rule: write_cases
      [of db "record_batch P ?kv @ [BPut (ConfigKey k (kv_version ?kv)) (ser_kv P ?kv)]"])
    case (1 db1)
    show ?thesis
      using apply_publish [OF assms(1-4) 1(1) refl] 1(1) assms(5)
      by (auto simp: write_methods_eq [OF assms(1,2)] filled_def s_publish_def Let_def)
  next
    case (2 db1)
    then show ?thesis
      using assms(5) by (auto simp: write_methods_eq [OF assms(1,2)])
  qed
qed

lemma apply_publish_refines:
  assumes "store_inv P (C db)" "nn64 (m_rev (mvcc_of P (C db)) + 1)" "utf8 k" "utf8 v"
    and "ApplyPublish L P db k v ApplyResult_init = (db', res)"
  shows "cmd_done C P db (Cmd_publish k v) db' res \<or> cmd_refused L db db' res"
proof -
  obtain db1 rv out where pub: "PublishLocked L P db k v = (db1, rv, out)" by (metis prod_cases3)
  show ?thesis
    using publish_refines [OF assms(1-4) pub] assms(2,5) pub
    by (auto simp: apply_defs fail_init cmd_refused_def cmd_done_def push_event_init nn64_def)
qed

lemma stored_utf8: "s_get_config (mvcc_of P (C db)) k n = Some kv \<Longrightarrow> utf8 (kv_value kv)"
  by (auto simp: s_get_config_def s_get_def kv_at_def kv_fits_def
      dest!: parse_fits split: if_splits option.splits)

lemma apply_rollback_refines:
  assumes "store_inv P (C db)" "nn64 (m_rev (mvcc_of P (C db)) + 1)" "utf8 k" "i64 n"
    and "ApplyRollback L P db k n ApplyResult_init = (db', res)"
  shows "cmd_done C P db (Cmd_rollback k n) db' res \<or> cmd_refused L db db' res"
proof -
  have lay: "layout P (C db)" using assms(1) by (simp add: store_inv_def)
  obtain code where gc:
    "GetConfigLocked L P db k n = (s_get_config (mvcc_of P (C db)) k n, code)"
    using GetConfig_refines(1) [OF lay assms(4)] by (metis prod.collapse)
  show ?thesis
  proof (cases "s_get_config (mvcc_of P (C db)) k n")
    case None
    then show ?thesis
      using gc assms(5) lay by (simp add: apply_defs RollbackLocked_def cmd_done_def fail_init)
  next
    case (Some t)
    obtain db1 rv out where pub: "PublishLocked L P db k (kv_value t) = (db1, rv, out)"
      by (metis prod_cases3)
    show ?thesis
      using publish_refines [OF assms(1-3) stored_utf8 [OF Some] pub] assms(2,5) pub gc Some
      by (auto simp: apply_defs RollbackLocked_def fail_init cmd_refused_def cmd_done_def
          push_event_init nn64_def)
  qed
qed

lemma apply_batch_put_refines:
  assumes "store_inv P (C db)" "nn64 (m_rev (mvcc_of P (C db)) + int (length kvs))"
    and "\<forall>(k, v) \<in> set kvs. utf8 k \<and> utf8 v"
    and "ApplyBatch L P db kvs ApplyResult_init = (db', res)"
  shows "cmd_done C P db (Cmd_batch_put kvs) db' res \<or> cmd_refused L db db' res"
proof -
  obtain db1 rv out where bp: "BatchPutLocked L P db kvs = (db1, rv, out)" by (metis prod_cases3)
  show ?thesis
    using BatchPut_refines [OF assms(1-3) bp] assms(4) bp
    by (auto simp: apply_defs fail_init cmd_refused_def cmd_done_def foldl_push_event
        ApplyResult_init_def case_prod_beta)
qed

lemma apply_refines:
  assumes "store_inv P (C db)" "cmd_fits utf8 cmd" "nn64 (m_rev (mvcc_of P (C db)) + cmd_cost cmd)"
    and "ApplyCmdToStore L P db cmd ApplyResult_init = (db', res)"
  shows "cmd_done C P db cmd db' res \<or> cmd_refused L db db' res"
  using assms apply_put_refines apply_delete_refines apply_cas_refines apply_publish_refines
    apply_rollback_refines apply_batch_put_refines
  by (cases cmd) (simp_all add: cmd_done_def store_inv_def fail_init)

lemma refused_unchanged: "cmd_refused L db db' res \<Longrightarrow> C db' = C db"
  unfolding cmd_refused_def using write_failed by blast

lemma apply_keeps_inv:
  assumes "store_inv P (C db)" "cmd_fits utf8 cmd" "nn64 (m_rev (mvcc_of P (C db)) + cmd_cost cmd)"
    and "ApplyCmdToStore L P db cmd ApplyResult_init = (db', res)"
  shows "store_inv P (C db')"
  using apply_refines [OF assms] refused_unchanged [of db db' res] assms(1)
    mvcc_inv_apply [of "mvcc_of P (C db)" cmd]
  by (auto simp: cmd_done_def store_inv_def)

text \<open>Logs: the invariant survives refused writes, and without them a log runs as specified.\<close>

lemma apply_step:
  assumes "store_inv P (C db)" "cmd_fits utf8 cmd" "nn64 (m_rev (mvcc_of P (C db)) + cmd_cost cmd)"
    and "ApplyCmdToStore L P db cmd ApplyResult_init = (db', res)"
  shows "m_rev (mvcc_of P (C db)) \<le> m_rev (mvcc_of P (C db'))"
    and "m_rev (mvcc_of P (C db')) \<le> m_rev (mvcc_of P (C db)) + cmd_cost cmd"
    and "map ev_revision (ar_events res) =
      [m_rev (mvcc_of P (C db)) + 1..m_rev (mvcc_of P (C db'))]"
proof -
  note cost = cmd_cost_nonneg [of cmd]
  show "m_rev (mvcc_of P (C db)) \<le> m_rev (mvcc_of P (C db'))"
    "m_rev (mvcc_of P (C db')) \<le> m_rev (mvcc_of P (C db)) + cmd_cost cmd"
    "map ev_revision (ar_events res) = [m_rev (mvcc_of P (C db)) + 1..m_rev (mvcc_of P (C db'))]"
    using apply_refines [OF assms] refused_unchanged [of db db' res] cost
      s_apply_rev_bounds [of "mvcc_of P (C db)" cmd] s_apply_revisions [of "mvcc_of P (C db)" cmd]
    unfolding cmd_done_def cmd_refused_def by (metis fst_conv snd_conv order_refl list.simps(8)
        add_increasing2 less_add_one upto_empty)+
qed

text \<open>Induction over a log: every command meets a well-formed store and a revision with room for it.\<close>

lemma log_induct [consumes 4, case_names Nil Cons]:
  assumes "store_inv P (C db)" "\<forall>cmd \<in> set cmds. cmd_fits utf8 cmd"
    "nn64 (m_rev (mvcc_of P (C db)) + log_cost cmds)" "apply_log L P db cmds = (db', rs)"
    and Nil: "\<And>db. store_inv P (C db) \<Longrightarrow> R db [] db []"
    and Cons: "\<And>db cmd db1 r cmds db' rs. \<lbrakk>store_inv P (C db); cmd_fits utf8 cmd;
      nn64 (m_rev (mvcc_of P (C db)) + cmd_cost cmd); ApplyCmdToStore L P db cmd ApplyResult_init = (db1, r);
      store_inv P (C db1); R db1 cmds db' rs\<rbrakk> \<Longrightarrow> R db (cmd # cmds) db' (r # rs)"
  shows "R db cmds db' rs"
  using assms(1-4)
proof (induction cmds arbitrary: db db' rs)
  case (Cons cmd cmds)
  obtain db1 r where one: "ApplyCmdToStore L P db cmd ApplyResult_init = (db1, r)" by fastforce
  obtain db2 rs2 where two: "apply_log L P db1 cmds = (db2, rs2)" by fastforce
  have eq: "db' = db2" "rs = r # rs2" using Cons.prems(4) one two by simp_all
  have nn: "nn64 (m_rev (mvcc_of P (C db)) + cmd_cost cmd)"
    using Cons.prems(3) store_inv_rev [OF Cons.prems(1)] log_cost_nonneg [of cmds]
      cmd_cost_nonneg [of cmd]
    unfolding nn64_def mvcc_of_sel log_cost_simps by linarith
  have "cmd_fits utf8 cmd" using Cons.prems(2) by simp
  note step = Cons.prems(1) this nn one
  note st = apply_step [OF step] and inv1 = apply_keeps_inv [OF step]
  have "nn64 (m_rev (mvcc_of P (C db1)) + log_cost cmds)"
    using Cons.prems(3) st(1,2) store_inv_rev [OF Cons.prems(1)] log_cost_nonneg [of cmds]
    unfolding nn64_def mvcc_of_sel log_cost_simps by linarith
  then have "R db1 cmds db2 rs2" using Cons.IH [OF inv1 _ _ two] Cons.prems(2) by simp
  then show ?case unfolding eq by (rule assms(6) [OF step inv1])
qed (simp add: Nil)

lemma log_inv:
  assumes "store_inv P (C db)" "\<forall>cmd \<in> set cmds. cmd_fits utf8 cmd"
    "nn64 (m_rev (mvcc_of P (C db)) + log_cost cmds)" "apply_log L P db cmds = (db', rs)"
  shows "store_inv P (C db') \<and> m_rev (mvcc_of P (C db)) \<le> m_rev (mvcc_of P (C db')) \<and>
    concat (map (\<lambda>r. map ev_revision (ar_events r)) rs) =
      [m_rev (mvcc_of P (C db)) + 1..m_rev (mvcc_of P (C db'))]"
  using assms
proof (induction rule: log_induct)
  case (Cons db cmd db1 r cmds db' rs)
  then show ?case
    using apply_step(1,3) [OF Cons(1-4)] upto_split3 [of "m_rev (mvcc_of P (C db))" "m_rev (mvcc_of P (C db1))"
      "m_rev (mvcc_of P (C db'))"] by simp
qed simp

lemma log_run:
  assumes accepts: "\<And>db b. snd (ldb_Write L db b)" and "store_inv P (C db)" "\<forall>cmd \<in> set cmds. cmd_fits utf8 cmd"
    "nn64 (m_rev (mvcc_of P (C db)) + log_cost cmds)" "apply_log L P db cmds = (db', rs)"
  shows "s_run (mvcc_of P (C db)) cmds = (mvcc_of P (C db'), rs)"
  using assms(2-5)
proof (induction rule: log_induct)
  case (Cons db cmd db1 r cmds db' rs)
  have "\<not> cmd_refused L db db1 r"
    using accepts unfolding cmd_refused_def by (metis snd_conv)
  then have "s_apply (mvcc_of P (C db)) cmd = (mvcc_of P (C db1), r)"
    using apply_refines [OF Cons(1-4)] by (simp add: cmd_done_def)
  with Cons show ?case by simp
qed simp

end

interpretation mem_env: store_env mem_leveldb map_of ref_codec "\<lambda>_. True" ..

lemma mem_log_inv:
  assumes "log_cost cmds < 2 ^ 63" "\<forall>cmd \<in> set cmds. cmd_fits (\<lambda>_. True) cmd"
  shows "store_inv ref_codec (map_of (fst (apply_log mem_leveldb ref_codec [] cmds)))"
proof -
  obtain db rs where "apply_log mem_leveldb ref_codec [] cmds = (db, rs)" by fastforce
  then show ?thesis
    using mem_env.log_inv [of "[]" cmds db rs] assms log_cost_nonneg [of cmds]
    by (simp add: store_inv_empty nn64_def mvcc_empty_def)
qed

section \<open>Properties\<close>

text \<open>
  (C1) A committed command refines the abstract store.  From a well-formed database the
  interpreter either does exactly what the specification says (the abstract state read off the
  new contents and the result with its events are those of \<open>s_apply\<close>, and the database is
  well formed again), or LevelDB refused the write: then the contents are unchanged, the code
  is INTERNAL and there is no event.
\<close>

theorem apply_cmd_refines:
  assumes "store_env L C P utf8" "store_inv P (C db)" "cmd_fits utf8 cmd"
    and "nn64 (m_rev (mvcc_of P (C db)) + cmd_cost cmd)"
    and "ApplyCmdToStore L P db cmd ApplyResult_init = (db', res)"
  shows "s_apply (mvcc_of P (C db)) cmd = (mvcc_of P (C db'), res) \<and> store_inv P (C db') \<or>
    (\<exists>b. ldb_Write L db b = (db', False)) \<and> C db' = C db \<and> ar_code res = INTERNAL \<and> ar_events res = []"
  using store_env.apply_refines [OF assms] store_env.apply_keeps_inv [OF assms]
    store_env.refused_unchanged [OF assms(1), of db db' res]
  by (auto simp: cmd_done_def cmd_refused_def)

theorem apply_cmd_refines_witness:
  "let (db', res) = ApplyCmdToStore mem_leveldb ref_codec
        (fst (apply_log mem_leveldb ref_codec [] [Cmd_put ''a'' ''1''])) (Cmd_cas ''a'' ''1'' ''2'') ApplyResult_init
   in ar_code res = OK \<and> kv_version (ar_kv res) = 2 \<and> store_inv ref_codec (map_of db')"
proof -
  let ?db = "fst (apply_log mem_leveldb ref_codec [] [Cmd_put ''a'' ''1''])"
  obtain db' res where r: "ApplyCmdToStore mem_leveldb ref_codec ?db (Cmd_cas ''a'' ''1'' ''2'') ApplyResult_init = (db', res)"
    by fastforce
  have "ar_code (snd (ApplyCmdToStore mem_leveldb ref_codec ?db (Cmd_cas ''a'' ''1'' ''2'') ApplyResult_init)) = OK"
    "kv_version (ar_kv (snd (ApplyCmdToStore mem_leveldb ref_codec ?db (Cmd_cas ''a'' ''1'' ''2'') ApplyResult_init))) = 2"
    "nn64 (m_rev (mvcc_of ref_codec (map_of ?db)) + cmd_cost (Cmd_cas ''a'' ''1'' ''2''))"
    by code_simp+
  moreover have "store_inv ref_codec (map_of ?db)" by (rule mem_log_inv) simp_all
  ultimately show ?thesis
    using apply_cmd_refines [OF mem_env.store_env_axioms _ _ _ r] r by auto
qed

text \<open>
  Every log keeps the database well formed: whatever commands are applied and whichever of
  their writes LevelDB refuses, the layout and the multi-version invariant hold afterwards.
\<close>

lemma log_keeps_store_inv:
  assumes "store_env L C P utf8" "store_inv P (C db)" "\<forall>cmd \<in> set cmds. cmd_fits utf8 cmd"
    and "nn64 (m_rev (mvcc_of P (C db)) + log_cost cmds)"
    and "apply_log L P db cmds = (db', rs)"
  shows "store_inv P (C db')"
  using store_env.log_inv [OF assms] by simp

text \<open>
  The events of a log are the watch stream without a gap: whatever commands are applied and
  whichever writes are refused, the revisions of the events, read in order, are exactly the
  revisions from the one after the first state's up to the last state's.
\<close>

lemma log_events_consecutive:
  assumes "store_env L C P utf8" "store_inv P (C db)" "\<forall>cmd \<in> set cmds. cmd_fits utf8 cmd"
    and "nn64 (CurrentRevisionLocked L db + log_cost cmds)"
    and "apply_log L P db cmds = (db', rs)"
  shows "concat (map (\<lambda>r. map ev_revision (ar_events r)) rs) =
    [CurrentRevisionLocked L db + 1..CurrentRevisionLocked L db']"
  using store_env.log_inv [OF assms(1-3) _ assms(5)] assms(4)
  by (simp add: store_env.CurrentRevision_refines [OF assms(1)])

text \<open>
  Compare-and-swap is exclusive.  After a swap that succeeded, a second one with the same
  expectation fails with CAS_FAILED, leaves the database as it is, takes no revision and emits
  no event, unless the first one stored the very value that is expected.
\<close>

lemma cas_exclusive:
  assumes "store_env L C P utf8" "store_inv P (C db)" "cmd_fits utf8 (Cmd_cas k e v)"
    and "nn64 (CurrentRevisionLocked L db + 2)"
    and "ApplyCmdToStore L P db (Cmd_cas k e v) ApplyResult_init = (db1, r1)" "ar_code r1 = OK"
    and "v \<noteq> e \<or> e = []"
    and "ApplyCmdToStore L P db1 (Cmd_cas k e w) ApplyResult_init = (db2, r2)"
  shows "ar_code r2 = CAS_FAILED \<and> ar_events r2 = [] \<and> db2 = db1"
proof -
  let ?m = "mvcc_of P (C db)" and ?m1 = "mvcc_of P (C db1)"
  note env = assms(1) and cur = store_env.CurrentRevision_refines [OF assms(1), of db]
  have nn: "nn64 (m_rev ?m + cmd_cost (Cmd_cas k e v))"
    using assms(4) store_inv_rev [OF assms(2)] by (simp add: nn64_def cur)
  note step = store_env.apply_refines [OF env assms(2,3) nn assms(5)]
    store_env.apply_keeps_inv [OF env assms(2,3) nn assms(5)]
    store_env.apply_step(2) [OF env assms(2,3) nn assms(5)]
  have nn1: "nn64 (m_rev ?m1 + 1)"
    using assms(4) step(3) store_inv_rev [OF step(2)] by (simp add: nn64_def cur)
  from step(1) assms(6) have "s_apply ?m (Cmd_cas k e v) = (?m1, r1)"
    by (auto simp: cmd_done_def cmd_refused_def)
  then have m1: "?m1 = fst (s_apply ?m (Cmd_cas k e v))" "r1 = snd (s_apply ?m (Cmd_cas k e v))"
    by simp_all
  have "m_main ?m1 k = Some (s_record ?m k v False)"
    using assms(6) unfolding m1
    by (simp add: s_put_def Let_def s_fail_def ApplyResult_init_def del: mvcc_of_sel split: if_splits)
  then have "\<not> s_cas_matches ?m1 k e"
    using assms(7) by (auto simp: s_cas_matches_def s_get_def simp del: mvcc_of_sel)
  then show ?thesis
    using assms(8) store_env.write_methods_eq(4) [OF env step(2) nn1, of k e w]
    by (auto simp: ApplyCas_def fail_init)
qed

end
