(* ===== verification/HistScan.thy ===== *)
theory HistScan
  imports StoreSpec
begin

text \<open>
  What a loop over the history keys "v/" visits.  Compaction and ReplayEvents of
  src/src/store/store.cpp both iterate over these keys and cut the revision out of them; on a
  well-formed database the entries are the history records of the abstract store, each once,
  in increasing revision order.
\<close>

text \<open>The records of the history from a revision on, in revision order.\<close>

definition hist_from :: "mvcc \<Rightarrow> int \<Rightarrow> KV list \<Rightarrow> bool" where
  "hist_from m lo kvs \<longleftrightarrow> sorted_wrt (\<lambda>a b. kv_revision a < kv_revision b) kvs \<and>
     (\<forall>kv. kv \<in> set kvs \<longleftrightarrow> lo \<le> kv_revision kv \<and> m_hist m (kv_revision kv, kv_key kv) = Some kv)"

text \<open>A database entry that holds a history record.\<close>

definition hist_entry :: "codec \<Rightarrow> bytes \<times> bytes \<Rightarrow> KV \<Rightarrow> bool" where
  "hist_entry P e kv \<longleftrightarrow> fst e = VersionKey (kv_revision kv) (kv_key kv) \<and> nn64 (kv_revision kv) \<and>
     parse_kv P (snd e) = Some kv"

lemma hist_entry_parts:
  assumes "hist_entry P (k, v) kv"
  shows "\<not> length k < 18" "substr k 2 16 = Inr (EncodeOrd (kv_revision kv))"
    "substr_from k 19 = Inr (kv_key kv)" "parse_kv P v = Some kv"
    "DecodeOrd (EncodeOrd (kv_revision kv)) = Inr (kv_revision kv)"
  using assms by (simp_all add: hist_entry_def VersionKey_parts)

lemma hist_from_sorted: "hist_from m lo kvs \<Longrightarrow> sorted_wrt (\<lambda>a b. kv_revision a < kv_revision b) kvs"
  by (simp add: hist_from_def)

lemma hist_from_iff: "hist_from m lo kvs \<Longrightarrow>
    kv \<in> set kvs \<longleftrightarrow> lo \<le> kv_revision kv \<and> m_hist m (kv_revision kv, kv_key kv) = Some kv"
  by (simp add: hist_from_def)

context store_env
begin

lemma stored_hist:
  assumes inv: "store_inv P (C db)" and raw: "C db (VersionKey r u) = Some raw" and nn: "nn64 r"
  obtains kv where "m_hist (mvcc_of P (C db)) (r, u) = Some kv" "hist_entry P (VersionKey r u, raw) kv"
proof -
  obtain kv where kv: "parse_kv P raw = Some kv"
    using inv raw unfolding store_inv_def layout_def key_ok_def by fastforce
  then have h: "m_hist (mvcc_of P (C db)) (r, u) = Some kv"
    using raw nn by (simp add: kv_at_def)
  then have "kv_key kv = u" "kv_revision kv = r"
    using hist_okD(1,2) mvcc_invD(5) inv unfolding store_inv_def by blast+
  with h kv nn that show thesis by (simp add: hist_entry_def)
qed

lemma version_key_shape:
  assumes "store_inv P (C db)" "C db k = Some raw" "prefix ''v/'' k"
  shows "\<exists>r u. nn64 r \<and> k = VersionKey r u"
  using assms unfolding store_inv_def layout_def key_ok_def by fastforce

lemma scan_entry:
  assumes inv: "store_inv P (C db)" and s: "prefix ''v/'' s"
    and lo: "\<And>r u. nn64 r \<Longrightarrow> s \<le> VersionKey r u \<longleftrightarrow> lo \<le> r" and e: "e \<in> set (scan L db s ''v/'')"
  obtains kv where "parse_kv P (snd e) = Some kv" "hist_entry P e kv" "lo \<le> kv_revision kv"
    "m_hist (mvcc_of P (C db)) (kv_revision kv, kv_key kv) = Some kv"
proof -
  let ?m = "mvcc_of P (C db)"
  obtain k raw where kr: "e = (k, raw)" by (cases e)
  have c: "C db k = Some raw" "s \<le> k" "prefix ''v/'' k"
    using e kr scan_iff [OF s] by blast+
  obtain r u where ru: "nn64 r" "k = VersionKey r u"
    using version_key_shape [OF inv c(1,3)] by blast
  then obtain kv where kv: "m_hist ?m (r, u) = Some kv" "hist_entry P (VersionKey r u, raw) kv"
    using stored_hist [OF inv] c(1) by blast
  have "mvcc_inv ?m" using inv by (simp add: store_inv_def)
  from hist_okD(1,2) [OF mvcc_invD(5) [OF this] kv(1)] kv ru kr lo [OF ru(1), of u] c(2)
  show thesis by (intro that [of kv]) (simp_all add: hist_entry_def del: mvcc_of_sel)
qed

text \<open>Entries in key order have records in revision order: no two records share a revision.\<close>

lemma hist_entry_less:
  assumes "mvcc_inv m" "hist_entry P x a" "hist_entry P y b" "fst x < fst y"
    and "m_hist m (kv_revision a, kv_key a) = Some a" "m_hist m (kv_revision b, kv_key b) = Some b"
  shows "kv_revision a < kv_revision b"
proof -
  have "kv_revision a \<le> kv_revision b"
    using assms(2-4) VersionKey_lessD unfolding hist_entry_def by metis
  moreover have "kv_revision a \<noteq> kv_revision b"
  proof
    assume eq: "kv_revision a = kv_revision b"
    then have "kv_key a = kv_key b"
      using mvcc_invD(6) [OF assms(1)] assms(5,6) unfolding hist_unique_def by (metis option.distinct(1))
    with eq assms(2-4) show False by (simp add: hist_entry_def)
  qed
  ultimately show ?thesis by simp
qed

lemma hist_scan:
  assumes inv: "store_inv P (C db)" and s: "prefix ''v/'' s"
    and lo: "\<And>r u. nn64 r \<Longrightarrow> s \<le> VersionKey r u \<longleftrightarrow> lo \<le> r"
  obtains kvs where "hist_from (mvcc_of P (C db)) lo kvs"
    "list_all2 (hist_entry P) (scan L db s ''v/'') kvs"
proof -
  let ?m = "mvcc_of P (C db)" and ?es = "scan L db s ''v/''"
  let ?kv = "\<lambda>e. the (parse_kv P (snd e))"
  have mi: "mvcc_inv ?m" using inv by (simp add: store_inv_def)
  have entry: "hist_entry P e (?kv e) \<and> lo \<le> kv_revision (?kv e) \<and>
      m_hist ?m (kv_revision (?kv e), kv_key (?kv e)) = Some (?kv e)" if "e \<in> set ?es" for e
    by (rule scan_entry [OF inv s lo that]) (simp_all del: mvcc_of_sel)
  have "kv \<in> set (map ?kv ?es)"
    if kv: "lo \<le> kv_revision kv" "m_hist ?m (kv_revision kv, kv_key kv) = Some kv" for kv
  proof -
    from kv(2) obtain raw where raw: "C db (VersionKey (kv_revision kv) (kv_key kv)) = Some raw"
        "parse_kv P raw = Some kv" "nn64 (kv_revision kv)"
      by (auto simp: kv_at_def split: if_splits option.splits)
    then have "(VersionKey (kv_revision kv) (kv_key kv), raw) \<in> set ?es"
      using scan_iff [OF s] lo kv(1) by simp
    with raw(2) show ?thesis by force
  qed
  moreover have "lo \<le> kv_revision kv \<and> m_hist ?m (kv_revision kv, kv_key kv) = Some kv"
    if "kv \<in> set (map ?kv ?es)" for kv
    using that entry by (auto simp del: mvcc_of_sel)
  moreover have "sorted_wrt (\<lambda>a b. kv_revision a < kv_revision b) (map ?kv ?es)"
  proof -
    have "sorted_wrt (\<lambda>x y. fst x < fst y) ?es"
      using scan_sorted [of db s "''v/''"] unfolding keys_sorted_def sorted_wrt_map .
    then show ?thesis
      unfolding sorted_wrt_map
      by (rule sorted_wrt_mono_rel [rotated]) (use hist_entry_less [OF mi] entry in blast)
  qed
  ultimately have "hist_from ?m lo (map ?kv ?es)" unfolding hist_from_def by blast
  moreover have "list_all2 (hist_entry P) ?es (map ?kv ?es)"
    using entry by (simp add: list_all2_conv_all_nth)
  ultimately show thesis by (rule that)
qed

end

end
