(* ===== verification/Compaction.thy ===== *)
theory Compaction
  imports HistScan
begin

text \<open>
  Compaction (Store::Compaction of src/src/store/store.cpp): which records it removes, and what
  it keeps.  The loop over the history fills a map from keys to their records; the excess
  oldest records of each key go, with their version index entries, and the greatest removed
  revision is recorded in the same batch.
\<close>

section \<open>Collecting\<close>

definition add_record :: "KV \<Rightarrow> (string \<times> (int \<times> int) list) list \<Rightarrow> (string \<times> (int \<times> int) list) list" where
  "add_record kv = per_key_add (kv_key kv) (kv_revision kv, kv_version kv)"

lemma collect_eq:
  "list_all2 (hist_entry P) es kvs \<Longrightarrow> Compaction_collect P es per_key = Inr (fold add_record kvs per_key)"
proof (induction es kvs arbitrary: per_key rule: list_all2_induct)
  case (Cons e es kv kvs)
  obtain k v where e: "e = (k, v)" by (cases e)
  show ?case
    using Cons hist_entry_parts [of P k v kv] e by (simp add: add_record_def)
qed simp

text \<open>The map after the loop: keys in order, and for each key its records in scan order.\<close>

definition records_of :: "KV list \<Rightarrow> string \<Rightarrow> (int \<times> int) list" where
  "records_of kvs u = map (\<lambda>kv. (kv_revision kv, kv_version kv)) (filter (\<lambda>kv. kv_key kv = u) kvs)"

lemma per_key_add_keys: "set (map fst (per_key_add k x m)) = insert k (set (map fst m))"
  by (induction k x m rule: per_key_add.induct) auto

lemma per_key_add_sorted:
  "sorted_wrt (<) (map fst m) \<Longrightarrow> sorted_wrt (<) (map fst (per_key_add k x m))"
proof (induction k x m rule: per_key_add.induct)
  case (2 key x a xs m)
  then show ?case
    using per_key_add_keys [of key x m] by (auto dest: order.strict_trans)
qed simp

lemma per_key_add_lookup:
  "sorted_wrt (<) (map fst m) \<Longrightarrow> map_of (per_key_add k x m) u =
    (if u = k then Some ((case map_of m k of None \<Rightarrow> [] | Some xs \<Rightarrow> xs) @ [x]) else map_of m u)"
proof (induction k x m rule: per_key_add.induct)
  case (2 key x a xs m)
  have "map_of m key = None" if "key < a"
  proof -
    have "key \<notin> fst ` set m" using that "2.prems" by (auto dest: order.strict_trans)
    then show ?thesis by (simp add: map_of_eq_None_iff)
  qed
  with 2 show ?case by (auto split: option.split)
qed simp

lemma fold_add_sorted:
  "sorted_wrt (<) (map fst m) \<Longrightarrow> sorted_wrt (<) (map fst (fold add_record kvs m))"
  by (induction kvs arbitrary: m) (simp_all add: add_record_def per_key_add_sorted)

lemma fold_add_lookup:
  "sorted_wrt (<) (map fst m) \<Longrightarrow> (case map_of (fold add_record kvs m) u of None \<Rightarrow> [] | Some xs \<Rightarrow> xs) =
    (case map_of m u of None \<Rightarrow> [] | Some xs \<Rightarrow> xs) @ records_of kvs u"
proof (induction kvs arbitrary: m)
  case (Cons kv kvs)
  then show ?case
    using Cons.IH [OF per_key_add_sorted [OF Cons.prems]]
    by (simp add: add_record_def per_key_add_lookup records_of_def split: option.split)
qed (simp add: records_of_def)

lemma collected_records:
  assumes "(u, xs) \<in> set (fold add_record kvs [])"
  shows "xs = records_of kvs u"
proof -
  have s: "sorted_wrt (<) (map fst (fold add_record kvs []))" by (rule fold_add_sorted) simp
  then have "distinct (map fst (fold add_record kvs []))" by (simp add: strict_sorted_iff)
  with assms have "map_of (fold add_record kvs []) u = Some xs" by simp
  then show ?thesis using fold_add_lookup [of "[]" kvs u] by simp
qed

lemma collected_keys: "fst ` set (fold add_record kvs m) = fst ` set m \<union> kv_key ` set kvs"
proof (induction kvs arbitrary: m)
  case (Cons kv kvs)
  then show ?case using per_key_add_keys [of "kv_key kv" _ m] by (simp add: add_record_def)
qed simp

section \<open>Choosing\<close>

text \<open>The records to remove: (key, revision, version).\<close>

definition key_victims :: "int \<Rightarrow> string \<times> (int \<times> int) list \<Rightarrow> (string \<times> int \<times> int) list" where
  "key_victims keep e = map (\<lambda>(r, ver). (fst e, r, ver))
     (take (nat (i32 (int (length (snd e))) - keep)) (snd e))"

definition victims :: "int \<Rightarrow> (string \<times> (int \<times> int) list) list \<Rightarrow> (string \<times> int \<times> int) list" where
  "victims keep per_key = concat (map (key_victims keep) per_key)"

definition removal :: "string \<times> int \<times> int \<Rightarrow> batch" where
  "removal = (\<lambda>(u, r, ver). [BDelete (VersionKey r u), BDelete (ConfigKey u ver)])"

definition max_rev :: "(string \<times> int \<times> int) list \<Rightarrow> int \<Rightarrow> int" where
  "max_rev vs r0 = fold (\<lambda>(u, r, ver) mx. if r > mx then r else mx) vs r0"

text \<open>The batch of the whole method, given the anchor.\<close>

definition compaction_batch :: "int \<Rightarrow> (string \<times> int \<times> int) list \<Rightarrow> batch" where
  "compaction_batch cr vs = concat (map removal vs) @
     [BPut CompactRevKey (EncodeUint64 (u64 (max cr (max_rev vs 0))))]"

lemma Compaction_key_eq:
  "Compaction_key u recs (b, n, mx) =
    (let vs = map (\<lambda>(r, ver). (u, r, ver)) recs
     in (b @ concat (map removal vs), n + int (length vs), max_rev vs mx))"
  by (induction recs arbitrary: b n mx)
    (auto simp: removal_def max_rev_def Let_def)

lemma Compaction_keys_eq:
  "Compaction_keys keep per_key (b, n, mx) =
    (let vs = victims keep per_key
     in (b @ concat (map removal vs), n + int (length vs), max_rev vs mx))"
proof (induction per_key arbitrary: b n mx)
  case Nil
  then show ?case by (simp add: victims_def max_rev_def)
next
  case (Cons e per_key)
  obtain u recs where "e = (u, recs)" by (cases e)
  with Cons show ?case
    by (simp add: victims_def key_victims_def Let_def Compaction_key_eq max_rev_def add.assoc)
qed

lemma max_rev_simps [simp]:
  "max_rev [] r0 = r0" "max_rev ((u, r, ver) # vs) r0 = max_rev vs (if r > r0 then r else r0)"
  by (simp_all add: max_rev_def)

lemma max_rev_ge0: "r0 \<le> max_rev vs r0"
proof (induction vs arbitrary: r0)
  case (Cons x vs)
  obtain u r ver where "x = (u, r, ver)" by (cases x)
  then show ?case using Cons [of r] Cons [of r0] by auto
qed simp

lemma max_rev_ge: "(u, r, ver) \<in> set vs \<Longrightarrow> r \<le> max_rev vs r0"
proof (induction vs arbitrary: r0)
  case (Cons x vs)
  obtain u' r' ver' where "x = (u', r', ver')" by (cases x)
  then show ?case
    using Cons max_rev_ge0 [of r' vs] max_rev_ge0 [of r0 vs] by auto
qed simp

lemma max_rev_in: "max_rev vs r0 = r0 \<or> (\<exists>u ver. (u, max_rev vs r0, ver) \<in> set vs)"
proof (induction vs arbitrary: r0)
  case (Cons x vs)
  obtain u r ver where "x = (u, r, ver)" by (cases x)
  then show ?case using Cons [of r] Cons [of r0] by (auto split: if_splits)
qed simp

section \<open>Removing\<close>

text \<open>Compaction of the abstract store: some records go, and the anchor moves up.\<close>

definition s_remove :: "(string \<times> int \<times> int) list \<Rightarrow> mvcc \<Rightarrow> mvcc" where
  "s_remove vs m = m\<lparr>
     m_hist := (\<lambda>(r, u). if \<exists>x \<in> set vs. fst x = u \<and> fst (snd x) = r then None else m_hist m (r, u)),
     m_cfg := (\<lambda>(u, n). if \<exists>x \<in> set vs. fst x = u \<and> snd (snd x) = n then None else m_cfg m (u, n))\<rparr>"

definition s_compact :: "(string \<times> int \<times> int) list \<Rightarrow> mvcc \<Rightarrow> mvcc" where
  "s_compact vs m = (s_remove vs m)\<lparr>m_crev := max (m_crev m) (max_rev vs 0)\<rparr>"

lemma s_remove_Nil [simp]: "s_remove [] m = m"
  by (simp add: s_remove_def)

lemma s_remove_Cons: "s_remove ((u, r, n) # vs) m = s_remove vs (m\<lparr>
    m_hist := (m_hist m)((r, u) := None), m_cfg := (m_cfg m)((u, n) := None)\<rparr>)"
  by (rule mvcc.equality) (auto simp: s_remove_def fun_eq_iff)

lemma s_compact_sel [simp]:
  "m_rev (s_compact vs m) = m_rev m" "m_main (s_compact vs m) = m_main m"
  "m_crev (s_compact vs m) = max (m_crev m) (max_rev vs 0)"
  "m_hist (s_compact vs m) (r, u) =
     (if \<exists>x \<in> set vs. fst x = u \<and> fst (snd x) = r then None else m_hist m (r, u))"
  "m_cfg (s_compact vs m) (u, n) =
     (if \<exists>x \<in> set vs. fst x = u \<and> snd (snd x) = n then None else m_cfg m (u, n))"
  by (simp_all add: s_compact_def s_remove_def)

lemma removal_refines:
  "layout P c \<Longrightarrow> \<forall>(u, r, n) \<in> set vs. nn64 r \<and> nn64 n \<Longrightarrow>
    layout P (apply_batch (concat (map removal vs)) c) \<and>
    mvcc_of P (apply_batch (concat (map removal vs)) c) = s_remove vs (mvcc_of P c)"
proof (induction vs arbitrary: c)
  case (Cons x vs)
  obtain u r n where x: "x = (u, r, n)" by (cases x)
  let ?c = "c(VersionKey r u := None, ConfigKey u n := None)"
  have "mvcc_of P ?c = (mvcc_of P c)\<lparr>m_hist := (m_hist (mvcc_of P c))((r, u) := None),
      m_cfg := (m_cfg (mvcc_of P c))((u, n) := None)\<rparr>"
    using Cons.prems(2) x by (simp add: mvcc_of_updates)
  moreover have "apply_batch (concat (map removal (x # vs))) c = apply_batch (concat (map removal vs)) ?c"
    by (simp only: x removal_def list.map concat.simps prod.case append_Cons append_Nil apply_batch.simps)
  moreover have "layout P ?c" using Cons.prems(1) by (intro layout_del)
  moreover have "\<forall>(u, r, n) \<in> set vs. nn64 r \<and> nn64 n" using Cons.prems(2) by simp
  ultimately show ?case
    using Cons.IH [of ?c] by (simp only: s_remove_Cons x simp_thms)
qed simp

text \<open>
  A set of removable records: each is in the history and a newer record of its key exists.
  Removing them keeps the invariant.
\<close>

definition removable :: "mvcc \<Rightarrow> (string \<times> int \<times> int) list \<Rightarrow> bool" where
  "removable m vs \<longleftrightarrow> (\<forall>(u, r, n) \<in> set vs. 1 \<le> r \<and>
     (\<exists>kv. m_main m u = Some kv \<and> r < kv_revision kv))"

lemma removableD:
  assumes "removable m vs" "x \<in> set vs"
  shows "1 \<le> fst (snd x)" "\<exists>kv. m_main m (fst x) = Some kv \<and> fst (snd x) < kv_revision kv"
  using assms unfolding removable_def by fastforce+

lemma mvcc_inv_compact:
  assumes inv: "mvcc_inv m" and rem: "removable m vs"
  shows "mvcc_inv (s_compact vs m)"
proof -
  note D = mvcc_invD [OF inv]
  have main: "main_ok (s_compact vs m)" unfolding main_ok_def
  proof (intro allI impI)
    fix k kv assume "m_main (s_compact vs m) k = Some kv"
    then have k: "m_main m k = Some kv" by simp
    have "\<not> (\<exists>x \<in> set vs. fst x = k \<and> fst (snd x) = kv_revision kv)"
      using removableD(2) [OF rem] k by fastforce
    with main_okD [OF D(4) k] show "kv_key kv = k \<and> 1 \<le> kv_version kv \<and> kv_version kv \<le> kv_revision kv \<and>
        kv_revision kv \<le> m_rev (s_compact vs m) \<and> m_hist (s_compact vs m) (kv_revision kv, k) = Some kv"
      by simp
  qed
  have sub: "m_hist (s_compact vs m) (r, k) = Some kv \<Longrightarrow> m_hist m (r, k) = Some kv" for r k kv
    by (simp split: if_splits)
  have hist: "hist_ok (s_compact vs m)"
    using D(5) sub unfolding hist_ok_def s_compact_sel(1,2) by blast
  have uniq: "hist_unique (s_compact vs m)"
    using D(6) sub unfolding hist_unique_def not_None_eq by blast
  have keep: "m_hist (s_compact vs m) (r, k) = m_hist m (r, k)" if "max_rev vs 0 < r" for r k
  proof -
    have "\<not> (\<exists>x \<in> set vs. fst x = k \<and> fst (snd x) = r)"
      using max_rev_ge [of _ _ _ vs 0] that by fastforce
    then show ?thesis unfolding s_compact_sel by (rule if_not_P)
  qed
  have dense: "hist_dense (s_compact vs m)"
    using D(7) keep unfolding hist_dense_def s_compact_sel(1,3) by simp
  have cfg: "cfg_ok (s_compact vs m)"
    using D(8) unfolding cfg_ok_def s_compact_sel(1,2) by (auto split: if_splits)
  have "max_rev vs 0 \<le> m_rev m"
  proof (cases "max_rev vs 0 = 0")
    case False
    then obtain u ver where "(u, max_rev vs 0, ver) \<in> set vs" using max_rev_in [of vs 0] by blast
    then obtain kv where "m_main m u = Some kv" "max_rev vs 0 < kv_revision kv"
      using removableD(2) [OF rem] by fastforce
    with main_okD(5) [OF D(4)] show ?thesis by fastforce
  qed (use D(3) in simp)
  then show ?thesis
    using D(1,2) main hist uniq dense cfg max_rev_ge0 [of 0 vs] by (simp add: mvcc_inv_def)
qed

section \<open>What is removed\<close>

text \<open>How many records of a key are newer than a revision.\<close>

definition newer :: "mvcc \<Rightarrow> string \<Rightarrow> int \<Rightarrow> nat" where
  "newer m u r = card {r'. r < r' \<and> m_hist m (r', u) \<noteq> None}"

definition hist_count :: "mvcc \<Rightarrow> string \<Rightarrow> nat" where
  "hist_count m u = card {r. m_hist m (r, u) \<noteq> None}"

lemma records_sorted:
  assumes "hist_from m lo kvs"
  shows "sorted_wrt (<) (map fst (records_of kvs u))"
  using sorted_wrt_filter [OF hist_from_sorted [OF assms], of "\<lambda>kv. kv_key kv = u"]
  by (simp add: records_of_def sorted_wrt_map comp_def)

lemma records_iff:
  assumes "mvcc_inv m" "hist_from m 0 kvs"
  shows "(r, n) \<in> set (records_of kvs u) \<longleftrightarrow> (\<exists>kv. m_hist m (r, u) = Some kv \<and> kv_version kv = n)"
proof
  assume "(r, n) \<in> set (records_of kvs u)"
  then obtain kv where "kv \<in> set kvs" "kv_key kv = u" "r = kv_revision kv" "n = kv_version kv"
    by (auto simp: records_of_def)
  with hist_from_iff [OF assms(2)] show "\<exists>kv. m_hist m (r, u) = Some kv \<and> kv_version kv = n" by blast
next
  assume "\<exists>kv. m_hist m (r, u) = Some kv \<and> kv_version kv = n"
  then obtain kv where kv: "m_hist m (r, u) = Some kv" "kv_version kv = n" by blast
  note ok = hist_okD [OF mvcc_invD(5) [OF assms(1)] kv(1)]
  have "kv \<in> set kvs" using hist_from_iff [OF assms(2)] kv ok by simp
  with ok kv show "(r, n) \<in> set (records_of kvs u)" unfolding records_of_def by force
qed

lemma records_revs:
  assumes "mvcc_inv m" "hist_from m 0 kvs"
  shows "set (map fst (records_of kvs u)) = {r. m_hist m (r, u) \<noteq> None}"
  using records_iff [OF assms] by (force simp: image_iff)

lemma records_count:
  assumes "mvcc_inv m" "hist_from m 0 kvs"
  shows "hist_count m u = length (records_of kvs u)"
proof -
  have "distinct (map fst (records_of kvs u))"
    using records_sorted [OF assms(2)] by (simp add: strict_sorted_iff)
  from distinct_card [OF this] show ?thesis
    unfolding hist_count_def records_revs [OF assms, symmetric] by simp
qed

lemma records_newer:
  assumes "mvcc_inv m" "hist_from m 0 kvs" "i < length (records_of kvs u)"
  shows "newer m u (fst (records_of kvs u ! i)) = length (records_of kvs u) - 1 - i"
proof -
  let ?rs = "map fst (records_of kvs u)"
  have "{r'. fst (records_of kvs u ! i) < r' \<and> m_hist m (r', u) \<noteq> None} = {y \<in> set ?rs. ?rs ! i < y}"
    using records_revs [OF assms(1,2), of u] assms(3) by auto
  then show ?thesis
    using card_above_nth [OF records_sorted [OF assms(2)], of i] assms(3) by (simp add: newer_def)
qed

lemma victims_mem:
  "(u, r, n) \<in> set (victims keep (fold add_record kvs [])) \<longleftrightarrow>
    (r, n) \<in> set (take (nat (i32 (int (length (records_of kvs u))) - keep)) (records_of kvs u))"
proof
  assume "(u, r, n) \<in> set (victims keep (fold add_record kvs []))"
  then obtain xs where "(u, xs) \<in> set (fold add_record kvs [])"
      "(r, n) \<in> set (take (nat (i32 (int (length xs)) - keep)) xs)"
    by (auto simp: victims_def key_victims_def)
  then show "(r, n) \<in> set (take (nat (i32 (int (length (records_of kvs u))) - keep)) (records_of kvs u))"
    using collected_records by metis
next
  assume a: "(r, n) \<in> set (take (nat (i32 (int (length (records_of kvs u))) - keep)) (records_of kvs u))"
  then have "(r, n) \<in> set (records_of kvs u)" by (rule in_set_takeD)
  then have "u \<in> fst ` set (fold add_record kvs [])"
    unfolding collected_keys by (auto simp: records_of_def)
  then obtain xs where "(u, xs) \<in> set (fold add_record kvs [])" by auto
  moreover from this have "xs = records_of kvs u" by (rule collected_records)
  ultimately show "(u, r, n) \<in> set (victims keep (fold add_record kvs []))"
    using a unfolding victims_def key_victims_def by force
qed

text \<open>
  A removed record has at least \<open>keep\<close> newer ones.  The converse needs the count of records of
  the key to fit an int.
\<close>

lemma victim_old:
  assumes "mvcc_inv m" "hist_from m 0 kvs" "1 \<le> keep"
    and "(u, r, n) \<in> set (victims keep (fold add_record kvs []))"
  shows "keep \<le> int (newer m u r)" "\<exists>kv. m_hist m (r, u) = Some kv \<and> kv_version kv = n"
proof -
  let ?recs = "records_of kvs u"
  obtain i where i: "i < length ?recs" "i < nat (i32 (int (length ?recs)) - keep)" "?recs ! i = (r, n)"
    using assms(4) unfolding victims_mem by (auto simp: in_set_conv_nth)
  have "int i < int (length ?recs) - keep"
    using i(2) i32_le [of "int (length ?recs)"] by linarith
  then show "keep \<le> int (newer m u r)"
    using records_newer [OF assms(1,2) i(1)] i(3) by simp
  show "\<exists>kv. m_hist m (r, u) = Some kv \<and> kv_version kv = n"
    using records_iff [OF assms(1,2)] i(1,3) nth_mem by metis
qed

lemma victims_exact:
  assumes "mvcc_inv m" "hist_from m 0 kvs" "1 \<le> keep" "int (hist_count m u) < 2 ^ 31"
    and "m_hist m (r, u) = Some kv" "keep \<le> int (newer m u r)"
  shows "(u, r, kv_version kv) \<in> set (victims keep (fold add_record kvs []))"
proof -
  let ?recs = "records_of kvs u"
  have "(r, kv_version kv) \<in> set ?recs" using records_iff [OF assms(1,2)] assms(5) by blast
  then obtain i where i: "i < length ?recs" "?recs ! i = (r, kv_version kv)" by (auto simp: in_set_conv_nth)
  have "i32 (int (length ?recs)) = int (length ?recs)"
    using assms(4) records_count [OF assms(1,2)] by (intro i32_id) simp_all
  moreover have "keep \<le> int (length ?recs - 1 - i)"
    using records_newer [OF assms(1,2) i(1)] i(2) assms(6) by simp
  ultimately have "i < nat (i32 (int (length ?recs)) - keep)" using assms(3) by linarith
  then show ?thesis
    unfolding victims_mem using i by (auto simp: in_set_conv_nth intro!: exI [of _ i])
qed

section \<open>CompactionLocked\<close>

text \<open>
  Commands may commit between the scan and the write of the compaction: the records of the keys
  only get newer.
\<close>

definition main_mono :: "mvcc \<Rightarrow> mvcc \<Rightarrow> bool" where
  "main_mono m m' \<longleftrightarrow> (\<forall>u kv. m_main m u = Some kv \<longrightarrow>
     (\<exists>kv'. m_main m' u = Some kv' \<and> kv_revision kv \<le> kv_revision kv'))"

lemma main_mono_refl [simp]: "main_mono m m"
  by (simp add: main_mono_def)

lemma main_mono_trans: "main_mono m1 m2 \<Longrightarrow> main_mono m2 m3 \<Longrightarrow> main_mono m1 m3"
  unfolding main_mono_def by (meson order.trans)

lemma main_mono_write:
  "mvcc_inv m \<Longrightarrow> kv_revision kv = m_rev m + 1 \<Longrightarrow> main_mono m (s_write kv m)"
  using main_okD(5) [OF mvcc_invD(4)] unfolding main_mono_def by fastforce

lemma hist_bounds:
  assumes "mvcc_inv m" "m_hist m (r, u) = Some kv"
  shows "1 \<le> r" "r \<le> m_rev m" "1 \<le> kv_version kv" "kv_version kv \<le> m_rev m"
proof -
  note ok = hist_okD [OF mvcc_invD(5) [OF assms(1)] assms(2)]
  then obtain kv' where kv': "m_main m u = Some kv'" "kv_version kv \<le> kv_version kv'" by blast
  show "1 \<le> r" "r \<le> m_rev m" "1 \<le> kv_version kv" by (fact ok)+
  show "kv_version kv \<le> m_rev m"
    using main_okD(3,5) [OF mvcc_invD(4) [OF assms(1)] kv'(1)] kv'(2) by linarith
qed

lemma hist_count_le:
  assumes "mvcc_inv m"
  shows "int (hist_count m u) \<le> m_rev m"
proof -
  have "{r. m_hist m (r, u) \<noteq> None} \<subseteq> {1..m_rev m}"
    using hist_bounds(1,2) [OF assms] by fastforce
  from card_mono [OF _ this] show ?thesis
    using mvcc_invD(3) [OF assms] by (simp add: hist_count_def)
qed

lemma newer_main:
  assumes "mvcc_inv m" "1 \<le> newer m u r"
  shows "\<exists>kv. m_main m u = Some kv \<and> r < kv_revision kv"
proof -
  have "{r'. r < r' \<and> m_hist m (r', u) \<noteq> None} \<noteq> {}"
    using assms(2) unfolding newer_def by (metis card.empty not_one_le_zero)
  then obtain r' kv where "r < r'" "m_hist m (r', u) = Some kv" by blast
  with hist_okD(6) [OF mvcc_invD(5) [OF assms(1)]] show ?thesis by force
qed

lemma victims_removable:
  assumes "mvcc_inv m" "hist_from m 0 kvs" "1 \<le> keep" "main_mono m m'"
  shows "removable m' (victims keep (fold add_record kvs []))"
  unfolding removable_def
proof (clarify)
  fix u r n assume v: "(u, r, n) \<in> set (victims keep (fold add_record kvs []))"
  note old = victim_old [OF assms(1-3) v]
  obtain kv where "m_main m u = Some kv" "r < kv_revision kv"
    using newer_main [OF assms(1), of u r] old(1) assms(3) by force
  moreover have "1 \<le> r" using old(2) hist_bounds(1) [OF assms(1)] by blast
  ultimately show "1 \<le> r \<and> (\<exists>kv. m_main m' u = Some kv \<and> r < kv_revision kv)"
    using assms(4) unfolding main_mono_def by force
qed

context store_env
begin

text \<open>The batch of victims found at an earlier state, applied to the current one.\<close>

lemma compaction_batch_refines:
  assumes inv0: "store_inv P (C db_it)" and inv: "store_inv P c"
    and mono: "main_mono (mvcc_of P (C db_it)) (mvcc_of P c)"
    and kvs: "hist_from (mvcc_of P (C db_it)) 0 kvs"
    and vs: "vs = victims (max 1 keep) (fold add_record kvs [])"
  shows "removable (mvcc_of P c) vs"
    "mvcc_of P (apply_batch (compaction_batch (m_crev (mvcc_of P c)) vs) c) = s_compact vs (mvcc_of P c)"
    "layout P (apply_batch (compaction_batch (m_crev (mvcc_of P c)) vs) c)"
proof -
  let ?ms = "mvcc_of P (C db_it)" and ?m = "mvcc_of P c"
  have mi: "mvcc_inv ?ms" "mvcc_inv ?m" "layout P c" using inv0 inv by (simp_all add: store_inv_def)
  show rem: "removable ?m vs" unfolding vs using victims_removable [OF mi(1) kvs _ mono] by simp
  have nn0: "nn64 (m_rev ?ms)" using store_inv_rev [OF inv0] by simp
  have nn: "\<forall>(u, r, n) \<in> set vs. nn64 r \<and> nn64 n"
  proof clarify
    fix u r n assume "(u, r, n) \<in> set vs"
    then obtain kv where kv: "m_hist ?ms (r, u) = Some kv" "kv_version kv = n"
      using victim_old(2) [OF mi(1) kvs] unfolding vs by (metis max.cobounded1)
    show "nn64 r \<and> nn64 n"
      using hist_bounds [OF mi(1) kv(1)] kv(2) nn0 unfolding nn64_def by linarith
  qed
  have "i64 (max (m_crev ?m) (max_rev vs 0))"
    using mvcc_inv_compact [OF mi(2) rem] mvcc_invD(1,2) [of "s_compact vs ?m"] store_inv_rev [OF inv]
    by (simp add: nn64_def i64_def)
  then show "mvcc_of P (apply_batch (compaction_batch (m_crev ?m) vs) c) = s_compact vs ?m"
    "layout P (apply_batch (compaction_batch (m_crev ?m) vs) c)"
    using removal_refines [OF mi(3) nn]
    by (simp_all add: compaction_batch_def apply_batch_append mvcc_of_put_crev s_compact_def layout_put
        key_ok_intros)
qed

text \<open>
  The whole method: it never throws, and it either leaves the database as it is (nothing to
  remove, or a refused write) or compacts it by the records chosen at the scan.
\<close>

lemma compaction_refines:
  fixes db_it db
  defines "m0 \<equiv> mvcc_of P (C db_it)" and "m \<equiv> mvcc_of P (C db)"
  assumes inv0: "store_inv P (C db_it)" and inv: "store_inv P (C db)" and mono: "main_mono m0 m"
  obtains kvs vs db' where "hist_from m0 0 kvs" "vs = victims (max 1 keep) (fold add_record kvs [])"
    "CompactionLocked L P db_it db keep = Inr (db', int (length vs))" "removable m vs"
    "mvcc_of P (C db') = s_compact vs m \<and> layout P (C db') \<or> (\<exists>b. ldb_Write L db b = (db', False))"
proof -
  have "''v/'' \<le> VersionKey r u \<longleftrightarrow> 0 \<le> r" if "nn64 r" for r u
    using that prefix_le [of "''v/''" "VersionKey r u"] by (simp add: nn64_def)
  then obtain kvs where kvs: "hist_from m0 0 kvs"
      "list_all2 (hist_entry P) (scan L db_it ''v/'' ''v/'') kvs"
    using hist_scan [OF inv0, of "''v/''" 0] unfolding m0_def by blast
  define vs where "vs = victims (max 1 keep) (fold add_record kvs [])"
  note eff = compaction_batch_refines [OF inv0 inv mono [unfolded m0_def m_def] kvs(1) [unfolded m0_def]
      vs_def, folded m_def]
  define b where "b = compaction_batch (m_crev m) vs"
  have keep: "(if keep < 1 then 1 else keep) = max 1 keep" by simp
  have run: "CompactionLocked L P db_it db keep = (if vs \<noteq> [] then
      (case ldb_Write L db b of (db', ok) \<Rightarrow> Inr (db', int (length vs))) else Inr (db, 0))"
    unfolding CompactionLocked_def keep collect_eq [OF kvs(2)]
    by (simp add: Let_def Compaction_keys_eq flip: vs_def)
      (simp add: b_def compaction_batch_def CompactRev_refines m_def)
  note fin = that [OF kvs(1) vs_def _ eff(1)]
  show thesis
  proof (cases "vs = []")
    case True
    then have "s_compact vs m = m" using inv mvcc_invD(1) [of m] by (simp add: s_compact_def store_inv_def m_def)
    with True run inv show thesis by (intro fin [of db]) (simp_all add: store_inv_def flip: m_def)
  next
    case False
    show thesis
      by (cases rule: write_cases [of db b]; rule fin) (use False run eff(2,3) in \<open>auto simp: b_def\<close>)
  qed
qed

end

end
