(* ===== verification/Replay.thy ===== *)
theory Replay
  imports HistScan
begin

text \<open>
  ReplayEvents of src/src/store/store.cpp, the resumption of a watch: on a well-formed database
  it never throws, and the events it returns are the history records after the requested
  revision, each once and in revision order, up to the limit; when the requested revision is at
  or above the compaction anchor they are all there.
\<close>

section \<open>The loop\<close>

definition replay_match :: "string \<Rightarrow> KV \<Rightarrow> bool" where
  "replay_match key kv \<longleftrightarrow> key = [] \<or> kv_key kv = key"

definition replay_spec :: "string \<Rightarrow> int \<Rightarrow> int \<Rightarrow> KV list \<Rightarrow> WatchEvent list" where
  "replay_spec key cur mx kvs = map s_event
     (take (nat mx) (filter (\<lambda>kv. kv_revision kv \<le> cur \<and> replay_match key kv) kvs))"

lemma replay_loop_eq:
  "list_all2 (hist_entry P) es kvs \<Longrightarrow> int (length out) < mx \<Longrightarrow> mx < 2 ^ 31 \<Longrightarrow>
    ReplayEvents_loop P key cur mx es out =
      Inr (out @ map s_event (take (nat mx - length out)
        (filter (replay_match key) (takeWhile (\<lambda>kv. kv_revision kv \<le> cur) kvs))))"
proof (induction es kvs arbitrary: out rule: list_all2_induct)
  case (Cons e es kv kvs)
  obtain k v where e: "e = (k, v)" by (cases e)
  note parts = hist_entry_parts [OF Cons.hyps(1) [unfolded e]]
  have len: "i32 (1 + int (length out)) = 1 + int (length out)"
    using Cons.prems by (intro i32_id) linarith+
  have ev: "\<lparr>ev_revision = kv_revision kv, ev_key = kv_key kv, ev_value = kv_value kv,
      ev_version = kv_version kv, ev_type = (if kv_deleted kv then ''DELETE'' else ''PUT'')\<rparr> = s_event kv"
    by (simp add: s_event_def)
  consider (stop) "kv_revision kv > cur" | (skip) "kv_revision kv \<le> cur" "\<not> replay_match key kv"
    | (last) "kv_revision kv \<le> cur" "replay_match key kv" "mx = int (length out) + 1"
    | (more) "kv_revision kv \<le> cur" "replay_match key kv" "int (length out) + 1 < mx"
    using Cons.prems by linarith
  then show ?case
  proof cases
    case stop
    with e parts show ?thesis by simp
  next
    case skip
    with Cons.IH [OF Cons.prems] e parts show ?thesis by (simp add: replay_match_def)
  next
    case last
    then have "nat mx - length out = 1" by simp
    with last e parts len ev show ?thesis by (auto simp: replay_match_def Let_def)
  next
    case more
    then have "nat mx - length out = Suc (nat mx - length (out @ [s_event kv]))" by simp
    with more Cons.IH [of "out @ [s_event kv]"] Cons.prems e parts len ev show ?thesis
      by (auto simp: replay_match_def Let_def)
  qed
qed simp

lemma takeWhile_sorted_filter:
  "sorted_wrt (\<lambda>a b. kv_revision a < kv_revision b) kvs \<Longrightarrow>
    takeWhile (\<lambda>kv. kv_revision kv \<le> cur) kvs = filter (\<lambda>kv. kv_revision kv \<le> cur) kvs"
proof (induction kvs)
  case (Cons kv kvs)
  have "filter (\<lambda>kv. kv_revision kv \<le> cur) kvs = []" if "cur < kv_revision kv"
    using Cons.prems that by (auto simp: filter_empty_conv)
  with Cons show ?case by auto
qed simp

section \<open>ReplayEventsLocked\<close>

context store_env
begin

text \<open>All branches of the method; \<open>kvs\<close> are the records after \<open>from_revision\<close> at the iterator.\<close>

lemma replay_refines:
  fixes frm0 :: int
  defines "frm \<equiv> max 0 frm0"
  assumes inv: "store_inv P (C db_it)" and mx: "mx < 2 ^ 31" and nn: "nn64 (frm + 1)"
  obtains kvs where "hist_from (mvcc_of P (C db_it)) (frm + 1) kvs"
    "ReplayEventsLocked L P db_it db frm0 cur key mx =
      (if mx \<le> 0 then Inr (True, [], OK)
       else if frm < m_crev (mvcc_of P (C db)) then Inr (False, [], COMPACTED)
       else if cur \<le> frm then Inr (True, [], OK)
       else Inr (True, replay_spec key cur mx kvs, OK))"
proof -
  obtain kvs where kvs: "hist_from (mvcc_of P (C db_it)) (frm + 1) kvs"
      "list_all2 (hist_entry P) (scan L db_it (VersionKey (frm + 1) []) ''v/'') kvs"
    using hist_scan [OF inv, of "VersionKey (frm + 1) []" "frm + 1"] VersionKey_start_le [OF nn]
    by auto
  have "filter (replay_match key) (filter (\<lambda>kv. kv_revision kv \<le> cur) kvs) =
      filter (\<lambda>kv. kv_revision kv \<le> cur \<and> replay_match key kv) kvs"
    by (simp add: conj_commute)
  moreover have "(if frm0 < 0 then 0 else frm0) = frm" by (simp add: frm_def)
  ultimately have "ReplayEventsLocked L P db_it db frm0 cur key mx =
      (if mx \<le> 0 then Inr (True, [], OK)
       else if frm < m_crev (mvcc_of P (C db)) then Inr (False, [], COMPACTED)
       else if cur \<le> frm then Inr (True, [], OK)
       else Inr (True, replay_spec key cur mx kvs, OK))"
    unfolding ReplayEventsLocked_def replay_spec_def
    using replay_loop_eq [OF kvs(2), of "[]" mx key cur] mx nn
      takeWhile_sorted_filter [OF hist_from_sorted [OF kvs(1)], of cur]
    by (simp add: Let_def CompactRev_refines)
  with kvs(1) that show thesis by blast
qed

text \<open>The three outcomes of the method for an iterator on a well-formed database.\<close>

lemma replay_cases:
  assumes inv: "store_inv P (C db_it)" and mx: "0 < mx" "mx < 2 ^ 31"
    and cur: "cur \<le> m_rev (mvcc_of P (C db_it))"
  obtains (compacted) "ReplayEventsLocked L P db_it db frm cur key mx = Inr (False, [], COMPACTED)"
      "max 0 frm < m_crev (mvcc_of P (C db))"
  | (no_range) "ReplayEventsLocked L P db_it db frm cur key mx = Inr (True, [], OK)" "cur \<le> max 0 frm"
  | (events) kvs where "hist_from (mvcc_of P (C db_it)) (max 0 frm + 1) kvs"
      "ReplayEventsLocked L P db_it db frm cur key mx = Inr (True, replay_spec key cur mx kvs, OK)"
      "m_crev (mvcc_of P (C db)) \<le> max 0 frm"
proof (cases "cur \<le> max 0 frm")
  case True
  then have "ReplayEventsLocked L P db_it db frm cur key mx =
      (if max 0 frm < m_crev (mvcc_of P (C db)) then Inr (False, [], COMPACTED) else Inr (True, [], OK))"
    using mx by (auto simp: ReplayEventsLocked_def Let_def CompactRev_refines)
  with True show thesis using compacted no_range by metis
next
  case False
  then have "nn64 (max 0 frm + 1)" using cur store_inv_rev [OF inv] by (auto simp: nn64_def)
  then show thesis
    using replay_refines [OF inv mx(2), of frm db cur key] mx(1) False compacted events
    by (metis not_le)
qed

end

section \<open>Completeness\<close>

text \<open>Above the anchor every revision has its record, so the revisions have no gap.\<close>

lemma hist_from_revisions:
  assumes inv: "mvcc_inv m" and h: "hist_from m (frm + 1) kvs" and "m_crev m \<le> frm" "cur \<le> m_rev m"
  shows "map kv_revision (filter (\<lambda>kv. kv_revision kv \<le> cur) kvs) = [frm + 1..cur]"
proof (rule sorted_wrt_less_unique)
  show "sorted_wrt (<) (map kv_revision (filter (\<lambda>kv. kv_revision kv \<le> cur) kvs))"
    using sorted_wrt_filter [OF hist_from_sorted [OF h]] by (simp add: sorted_wrt_map)
  show "sorted_wrt (<) [frm + 1..cur]" by simp
  show "set (map kv_revision (filter (\<lambda>kv. kv_revision kv \<le> cur) kvs)) = set [frm + 1..cur]"
  proof (intro set_eqI iffI)
    fix r assume "r \<in> set [frm + 1..cur]"
    then have r: "m_crev m < r" "r \<le> m_rev m" "frm + 1 \<le> r" "r \<le> cur" using assms(3,4) by auto
    then obtain k kv where kv: "m_hist m (r, k) = Some kv"
      using mvcc_invD(7) [OF inv] unfolding hist_dense_def by blast
    note ok = hist_okD(1,2) [OF mvcc_invD(5) [OF inv] kv]
    with hist_from_iff [OF h, of kv] kv r have "kv \<in> set kvs" by simp
    with ok r show "r \<in> set (map kv_revision (filter (\<lambda>kv. kv_revision kv \<le> cur) kvs))" by force
  next
    fix r assume "r \<in> set (map kv_revision (filter (\<lambda>kv. kv_revision kv \<le> cur) kvs))"
    then show "r \<in> set [frm + 1..cur]" using hist_from_iff [OF h] by auto
  qed
qed

text \<open>The records selected are those of the watched key in the range of revisions.\<close>

lemma replay_selects:
  assumes inv: "mvcc_inv m" and h: "hist_from m (lo + 1) kvs"
  shows "kv \<in> set (filter (\<lambda>kv. kv_revision kv \<le> cur \<and> replay_match key kv) kvs) \<longleftrightarrow>
    (\<exists>r u. lo < r \<and> r \<le> cur \<and> (key = [] \<or> u = key) \<and> m_hist m (r, u) = Some kv)"
  using hist_from_iff [OF h, of kv] hist_okD(1,2) [OF mvcc_invD(5) [OF inv], of _ _ kv]
  by (auto simp: replay_match_def add1_zle_eq)

end
