(* ===== verification/StoreSystem.thy ===== *)
theory StoreSystem
  imports StoreOps Compaction Replay
begin

text \<open>
  The store under concurrency.  Three kinds of threads use it: the state machine applies
  committed commands one after another, the compaction thread of src/src/server/server.cpp scans
  the history and later commits its batch, and watch threads open an iterator and later read the
  compaction anchor.  A state is the database and, while a compaction is between its scan and
  its commit, the state its iterator is pinned to.  The step relation interleaves them freely.
\<close>

section \<open>Steps\<close>

inductive store_step ::
  "'db leveldb \<Rightarrow> ('db \<Rightarrow> contents) \<Rightarrow> codec \<Rightarrow> (string \<Rightarrow> bool) \<Rightarrow>
    'db \<times> 'db option \<Rightarrow> 'db \<times> 'db option \<Rightarrow> bool"
  for L :: "'db leveldb" and C :: "'db \<Rightarrow> contents" and P :: codec and utf8 :: "string \<Rightarrow> bool" where
  step_apply: "ApplyCmdToStore L P db cmd ApplyResult_init = (db', res) \<Longrightarrow> cmd_fits utf8 cmd \<Longrightarrow>
    nn64 (m_rev (mvcc_of P (C db)) + cmd_cost cmd) \<Longrightarrow>
    store_step L C P utf8 (db, pin) (db', pin)"
| step_scan: "store_step L C P utf8 (db, None) (db, Some db)"
| step_commit: "CompactionLocked L P db_it db keep = Inr (db', removed) \<Longrightarrow>
    store_step L C P utf8 (db, Some db_it) (db', None)"

inductive_cases store_stepE [consumes 1, case_names applied scanned committed]: "store_step L C P utf8 s s'"

definition sys_inv :: "('db \<Rightarrow> contents) \<Rightarrow> codec \<Rightarrow> 'db \<times> 'db option \<Rightarrow> bool" where
  "sys_inv C P s \<longleftrightarrow> store_inv P (C (fst s)) \<and>
     (\<forall>db_it. snd s = Some db_it \<longrightarrow> store_inv P (C db_it) \<and>
        main_mono (mvcc_of P (C db_it)) (mvcc_of P (C (fst s))))"

text \<open>What later states keep of earlier ones: revisions and the anchor only grow.\<close>

definition grows :: "mvcc \<Rightarrow> mvcc \<Rightarrow> bool" where
  "grows m m' \<longleftrightarrow> m_rev m \<le> m_rev m' \<and> m_crev m \<le> m_crev m' \<and> main_mono m m'"

lemma grows_refl [simp]: "grows m m"
  by (simp add: grows_def)

lemma grows_trans: "grows m1 m2 \<Longrightarrow> grows m2 m3 \<Longrightarrow> grows m1 m3"
  unfolding grows_def using main_mono_trans by force

section \<open>The abstract steps\<close>

lemma main_mono_index: "main_mono m (s_index kv m') = main_mono m m'"
  by (simp add: main_mono_def)

lemma batch_from_mono:
  "mvcc_inv m \<Longrightarrow> batch_ok m0 m \<Longrightarrow> main_mono m (fst (s_batch_from m0 m kvs))"
proof (induction m0 m kvs rule: s_batch_from.induct)
  case (2 m0 m k v kvs)
  let ?kv = "(s_record m k v False)\<lparr>kv_version := s_version m0 k\<rparr>"
  have lw: "legal_write m ?kv" using "2.prems"(2) by (auto simp: legal_write_def batch_ok_def)
  have "batch_ok m0 (s_write ?kv m)"
    using "2.prems"(2) unfolding batch_ok_def by (auto intro: order.trans)
  then have "main_mono (s_write ?kv m) (fst (s_batch_from m0 (s_write ?kv m) kvs))"
    using "2.IH" mvcc_inv_write [OF "2.prems"(1) lw] by blast
  moreover have "main_mono m (s_write ?kv m)"
    using main_mono_write [OF "2.prems"(1)] by simp
  ultimately show ?case
    using main_mono_trans by (simp add: Let_def case_prod_beta)
qed simp

lemma s_apply_grows: "mvcc_inv m \<Longrightarrow> grows m (fst (s_apply m cmd))"
proof -
  assume inv: "mvcc_inv m"
  have "main_mono m (fst (s_apply m cmd))"
    using batch_from_mono [OF inv batch_ok_refl [OF inv]] main_mono_write [OF inv]
    by (cases cmd) (simp_all add: s_put_def s_delete_def s_publish_def s_batch_def Let_def
        case_prod_beta main_mono_index split: option.split)
  then show ?thesis using s_apply_rev_bounds(1) [of m cmd] by (simp add: grows_def)
qed

lemma s_compact_grows: "grows m (s_compact vs m)"
  by (simp add: grows_def main_mono_def)

lemma s_compact_agree: "agree m (s_compact vs m)"
  by (simp add: agree_def)

section \<open>Invariant and growth of all interleavings\<close>

context store_env
begin

lemma apply_grows:
  assumes "store_inv P (C db)" "cmd_fits utf8 cmd" "nn64 (m_rev (mvcc_of P (C db)) + cmd_cost cmd)"
    and "ApplyCmdToStore L P db cmd ApplyResult_init = (db', res)"
  shows "grows (mvcc_of P (C db)) (mvcc_of P (C db'))"
  using apply_refines [OF assms] refused_unchanged [of db db' res] assms(1)
    s_apply_grows [of "mvcc_of P (C db)" cmd]
  by (auto simp: cmd_done_def store_inv_def)

lemma log_grows:
  assumes "store_inv P (C db)" "\<forall>cmd \<in> set cmds. cmd_fits utf8 cmd"
    "nn64 (m_rev (mvcc_of P (C db)) + log_cost cmds)" "apply_log L P db cmds = (db', rs)"
  shows "grows (mvcc_of P (C db)) (mvcc_of P (C db'))"
  using assms
proof (induction rule: log_induct)
  case (Cons db cmd db1 r cmds db' rs)
  show ?case using apply_grows [OF Cons(1-4)] Cons(6) by (rule grows_trans)
qed simp

lemma compaction_keeps:
  assumes "store_inv P (C db_it)" "store_inv P (C db)"
    and "main_mono (mvcc_of P (C db_it)) (mvcc_of P (C db))"
    and "CompactionLocked L P db_it db keep = Inr (db', removed)"
  shows "store_inv P (C db')" "grows (mvcc_of P (C db)) (mvcc_of P (C db'))"
    "agree (mvcc_of P (C db)) (mvcc_of P (C db'))"
    "m_hist (mvcc_of P (C db')) (r, u) = Some kv \<Longrightarrow> m_hist (mvcc_of P (C db)) (r, u) = Some kv"
proof -
  let ?m = "mvcc_of P (C db)"
  obtain vs where "removable ?m vs" and
    "mvcc_of P (C db') = s_compact vs ?m \<and> layout P (C db') \<or> (\<exists>b. ldb_Write L db b = (db', False))"
    using compaction_refines [OF assms(1-3), of keep] assms(4) by (metis Inr_inject prod.inject)
  then have res: "mvcc_of P (C db') = s_compact vs ?m \<and> layout P (C db') \<and> mvcc_inv (s_compact vs ?m) \<or>
      C db' = C db"
    using assms(2) mvcc_inv_compact write_failed unfolding store_inv_def by blast
  then show "store_inv P (C db')" "grows ?m (mvcc_of P (C db'))" "agree ?m (mvcc_of P (C db'))"
    using assms(2) s_compact_grows s_compact_agree unfolding store_inv_def by fastforce+
  have "m_hist (s_compact vs ?m) (r, u) = Some kv \<Longrightarrow> m_hist ?m (r, u) = Some kv"
    unfolding s_compact_sel by (metis option.distinct(1))
  then show "m_hist (mvcc_of P (C db')) (r, u) = Some kv \<Longrightarrow> m_hist ?m (r, u) = Some kv"
    using res by (metis (no_types))
qed

lemma step_keeps:
  assumes "store_step L C P utf8 s s'" "sys_inv C P s"
  shows "sys_inv C P s' \<and> grows (mvcc_of P (C (fst s))) (mvcc_of P (C (fst s')))"
  using assms(1)
proof (cases rule: store_stepE)
  case (applied db cmd db' res pin)
  note 1 = this
  have inv: "store_inv P (C db)" "nn64 (m_rev (mvcc_of P (C db)) + cmd_cost cmd)"
    using assms(2) 1 by (simp_all add: sys_inv_def)
  have "store_inv P (C db')" "grows (mvcc_of P (C db)) (mvcc_of P (C db'))"
    using apply_keeps_inv [OF inv(1) 1(4) inv(2) 1(3)] apply_grows [OF inv(1) 1(4) inv(2) 1(3)] by simp_all
  with 1(1,2) assms(2) main_mono_trans show ?thesis
    unfolding sys_inv_def grows_def by auto
next
  case (scanned db)
  with assms(2) show ?thesis by (simp add: sys_inv_def)
next
  case (committed db_it db keep db' removed)
  note 3 = this
  have "store_inv P (C db_it)" "store_inv P (C db)" "main_mono (mvcc_of P (C db_it)) (mvcc_of P (C db))"
    using assms(2) 3 by (simp_all add: sys_inv_def)
  from compaction_keeps [OF this 3(3)] 3(1,2) show ?thesis by (simp add: sys_inv_def)
qed

lemma steps_keep:
  "(store_step L C P utf8)\<^sup>*\<^sup>* s s' \<Longrightarrow> sys_inv C P s \<Longrightarrow>
    sys_inv C P s' \<and> grows (mvcc_of P (C (fst s))) (mvcc_of P (C (fst s')))"
  by (induction rule: rtranclp_induct) (auto dest: step_keeps intro: grows_trans)

end

section \<open>Properties\<close>

text \<open>
  (C17) Commands interleaved with compaction in any way keep the database well formed, and the
  revision and the compaction anchor never go back.
\<close>

theorem interleaving_keeps_inv:
  assumes "store_env L C P utf8" "store_inv P (C db)"
    and "(store_step L C P utf8)\<^sup>*\<^sup>* (db, None) (db', pin)"
  shows "store_inv P (C db') \<and> CurrentRevisionLocked L db \<le> CurrentRevisionLocked L db' \<and>
    CompactRevLocked L db \<le> CompactRevLocked L db'"
  using store_env.steps_keep [OF assms(1,3)] assms(2)
  by (simp add: sys_inv_def grows_def store_env.CurrentRevision_refines [OF assms(1)]
      store_env.CompactRev_refines [OF assms(1)])

text \<open>A schedule on the reference database: a command commits between scan and commit.\<close>

definition demo_db :: mem_db where
  "demo_db = fst (apply_log mem_leveldb ref_codec []
     [Cmd_put ''a'' ''1'', Cmd_publish ''a'' ''2'', Cmd_put ''b'' ''3'', Cmd_put ''a'' ''4''])"

definition demo_db2 :: mem_db where
  "demo_db2 = fst (ApplyCmdToStore mem_leveldb ref_codec demo_db (Cmd_delete ''b'') ApplyResult_init)"

definition demo_db3 :: mem_db where
  "demo_db3 = (case CompactionLocked mem_leveldb ref_codec demo_db demo_db2 1 of
     Inl e \<Rightarrow> [] | Inr (db, n) \<Rightarrow> db)"

lemma demo_inv: "store_inv ref_codec (map_of demo_db)"
  unfolding demo_db_def by (rule mem_log_inv) (simp_all add: i64_def)

lemma demo_compaction: "CompactionLocked mem_leveldb ref_codec demo_db demo_db2 1 = Inr (demo_db3, 2)"
proof -
  have "map_sum id snd (CompactionLocked mem_leveldb ref_codec demo_db demo_db2 1) = Inr 2"
    by code_simp
  then show ?thesis
    by (cases "CompactionLocked mem_leveldb ref_codec demo_db demo_db2 1") (auto simp: demo_db3_def)
qed

lemma demo_steps:
  "(store_step mem_leveldb map_of ref_codec (\<lambda>_. True))\<^sup>*\<^sup>* (demo_db, None) (demo_db3, None)"
  "(store_step mem_leveldb map_of ref_codec (\<lambda>_. True))\<^sup>*\<^sup>* (demo_db, Some demo_db) (demo_db3, None)"
  "(store_step mem_leveldb map_of ref_codec (\<lambda>_. True))\<^sup>*\<^sup>* (demo_db, Some demo_db) (demo_db2, Some demo_db)"
proof -
  let ?step = "store_step mem_leveldb map_of ref_codec (\<lambda>_. True)"
  have 1: "?step (demo_db, None) (demo_db, Some demo_db)" by (rule step_scan)
  have 2: "?step (demo_db, Some demo_db) (demo_db2, Some demo_db)"
  proof (rule step_apply)
    show "ApplyCmdToStore mem_leveldb ref_codec demo_db (Cmd_delete ''b'') ApplyResult_init =
        (demo_db2, snd (ApplyCmdToStore mem_leveldb ref_codec demo_db (Cmd_delete ''b'') ApplyResult_init))"
      by (simp add: demo_db2_def)
    show "nn64 (m_rev (mvcc_of ref_codec (map_of demo_db)) + cmd_cost (Cmd_delete ''b''))"
      by code_simp
  qed simp
  have 3: "?step (demo_db2, Some demo_db) (demo_db3, None)"
    by (rule step_commit [OF demo_compaction])
  show "?step\<^sup>*\<^sup>* (demo_db, Some demo_db) (demo_db2, Some demo_db)" using 2 by blast
  show "?step\<^sup>*\<^sup>* (demo_db, Some demo_db) (demo_db3, None)"
    using 2 3 by (blast intro: rtranclp.intros)
  then show "?step\<^sup>*\<^sup>* (demo_db, None) (demo_db3, None)"
    using 1 by (rule converse_rtranclp_into_rtranclp [rotated])
qed

theorem interleaving_keeps_inv_witness:
  "store_inv ref_codec (map_of demo_db3) \<and>
   CurrentRevisionLocked mem_leveldb demo_db \<le> CurrentRevisionLocked mem_leveldb demo_db3"
  using interleaving_keeps_inv [OF mem_env.store_env_axioms demo_inv demo_steps(1)] by simp

text \<open>
  (C12) Compaction is safe, whatever commands commit between its scan and its write: it never
  throws; it keeps the current record of every key and the revision; every history record that
  goes had at least the number of newer records of its key that are to be kept; and the anchor
  covers every removed revision, so that a later resumption below it is refused.
\<close>

theorem compaction_safe:
  assumes "store_env L C P utf8" "sys_inv C P (db, Some db_it)"
  shows "\<exists>db' removed. CompactionLocked L P db_it db keep = Inr (db', removed) \<and>
    store_inv P (C db') \<and>
    m_main (mvcc_of P (C db')) = m_main (mvcc_of P (C db)) \<and>
    m_rev (mvcc_of P (C db')) = m_rev (mvcc_of P (C db)) \<and>
    (\<forall>r u. m_hist (mvcc_of P (C db')) (r, u) \<noteq> m_hist (mvcc_of P (C db)) (r, u) \<longrightarrow>
       m_hist (mvcc_of P (C db')) (r, u) = None \<and>
       max 1 keep \<le> int (newer (mvcc_of P (C db_it)) u r) \<and>
       r \<le> m_crev (mvcc_of P (C db')))"
proof -
  let ?m = "mvcc_of P (C db)" and ?ms = "mvcc_of P (C db_it)"
  have inv: "store_inv P (C db_it)" "store_inv P (C db)" "main_mono ?ms ?m"
    using assms(2) by (simp_all add: sys_inv_def)
  obtain kvs vs db' where *: "hist_from ?ms 0 kvs" "vs = victims (max 1 keep) (fold add_record kvs [])"
    "CompactionLocked L P db_it db keep = Inr (db', int (length vs))" "removable ?m vs"
    "mvcc_of P (C db') = s_compact vs ?m \<and> layout P (C db') \<or> (\<exists>b. ldb_Write L db b = (db', False))"
    by (rule store_env.compaction_refines [OF assms(1) inv])
  have keeps: "store_inv P (C db')" by (rule store_env.compaction_keeps(1) [OF assms(1) inv *(3)])
  have mi: "mvcc_inv ?ms" using inv(1) by (simp add: store_inv_def)
  have old: "max 1 keep \<le> int (newer ?ms (fst x) (fst (snd x)))" if "x \<in> set vs" for x
    using victim_old(1) [OF mi *(1), of "max 1 keep" "fst x" "fst (snd x)" "snd (snd x)"] that *(2) by simp
  have cov: "fst (snd x) \<le> max_rev vs 0" if "x \<in> set vs" for x
    using max_rev_ge [of "fst x" "fst (snd x)" "snd (snd x)"] that by simp
  have diff: "m_hist (s_compact vs ?m) (r, u) = None \<and> max 1 keep \<le> int (newer ?ms u r) \<and>
      r \<le> m_crev (s_compact vs ?m)" if "m_hist (s_compact vs ?m) (r, u) \<noteq> m_hist ?m (r, u)" for r u
    using that old cov unfolding s_compact_sel by (auto split: if_splits simp: le_max_iff_disj)
  have "leveldb L C" using assms(1) by (simp add: store_env_def leveldb_readable_def)
  with *(5) consider "mvcc_of P (C db') = s_compact vs ?m" | "C db' = C db"
    using leveldb.write_failed [of L C db] by metis
  then show ?thesis
  proof cases
    case 1
    with *(3) keeps diff show ?thesis by (simp del: mvcc_of_sel s_compact_sel(3-5))
  next
    case 2
    with *(3) keeps show ?thesis by simp
  qed
qed

theorem compaction_safe_witness:
  "\<exists>db' removed. CompactionLocked mem_leveldb ref_codec demo_db demo_db2 1 = Inr (db', removed) \<and>
     store_inv ref_codec (map_of db') \<and>
     m_main (mvcc_of ref_codec (map_of db')) = m_main (mvcc_of ref_codec (map_of demo_db2))"
proof -
  have "sys_inv map_of ref_codec (demo_db2, Some demo_db)"
    using mem_env.steps_keep [OF demo_steps(3)] demo_inv by (simp add: sys_inv_def)
  from compaction_safe [OF mem_env.store_env_axioms this, of 1] show ?thesis by blast
qed

text \<open>
  (C22) With no command in between, and when LevelDB accepts the write, compaction removes exactly
  the records with at least the given number of newer ones: each key keeps its newest records.
\<close>

theorem compaction_exact:
  assumes "store_env L C P utf8" "store_inv P (C db)" "\<And>b. snd (ldb_Write L db b)"
    and "\<And>u. int (hist_count (mvcc_of P (C db)) u) < 2 ^ 31"
    and "CompactionLocked L P db db keep = Inr (db', removed)"
  shows "m_hist (mvcc_of P (C db')) (r, u) =
    (if max 1 keep \<le> int (newer (mvcc_of P (C db)) u r) then None else m_hist (mvcc_of P (C db)) (r, u))"
proof -
  let ?m = "mvcc_of P (C db)"
  obtain kvs vs db1 where *: "hist_from ?m 0 kvs" "vs = victims (max 1 keep) (fold add_record kvs [])"
    "CompactionLocked L P db db keep = Inr (db1, int (length vs))" "removable ?m vs"
    "mvcc_of P (C db1) = s_compact vs ?m \<and> layout P (C db1) \<or> (\<exists>b. ldb_Write L db b = (db1, False))"
    by (rule store_env.compaction_refines [OF assms(1,2,2) main_mono_refl])
  have m': "mvcc_of P (C db') = s_compact vs ?m"
    using *(3,5) assms(3,5) by (metis Inr_inject prod.inject snd_conv)
  have mi: "mvcc_inv ?m" using assms(2) by (simp add: store_inv_def)
  show ?thesis
  proof (cases "\<exists>x \<in> set vs. fst x = u \<and> fst (snd x) = r")
    case True
    then obtain n where "(u, r, n) \<in> set vs" by force
    with victim_old(1) [OF mi *(1) max.cobounded1] *(2) have "max 1 keep \<le> int (newer ?m u r)" by blast
    moreover have "m_hist (mvcc_of P (C db')) (r, u) = None"
      unfolding m' s_compact_sel using True by (rule if_P)
    ultimately show ?thesis by (simp del: mvcc_of_sel)
  next
    case False
    then have same: "m_hist (mvcc_of P (C db')) (r, u) = m_hist ?m (r, u)"
      unfolding m' s_compact_sel by (rule if_not_P)
    have "m_hist ?m (r, u) = None" if "max 1 keep \<le> int (newer ?m u r)"
    proof (rule ccontr)
      assume "m_hist ?m (r, u) \<noteq> None"
      then obtain kv where "m_hist ?m (r, u) = Some kv" by blast
      from victims_exact [OF mi *(1) _ assms(4) this that] *(2) False show False by fastforce
    qed
    with same show ?thesis by (simp del: mvcc_of_sel)
  qed
qed

theorem compaction_exact_witness:
  "\<exists>db' removed. CompactionLocked mem_leveldb ref_codec demo_db demo_db 2 = Inr (db', removed) \<and>
     (\<forall>r u. m_hist (mvcc_of ref_codec (map_of db')) (r, u) =
       (if 2 \<le> int (newer (mvcc_of ref_codec (map_of demo_db)) u r) then None
        else m_hist (mvcc_of ref_codec (map_of demo_db)) (r, u)))"
proof -
  have "int (hist_count (mvcc_of ref_codec (map_of demo_db)) u) < 2 ^ 31" for u
  proof -
    have "m_rev (mvcc_of ref_codec (map_of demo_db)) < 2 ^ 31" by code_simp
    then show ?thesis
      using hist_count_le [of "mvcc_of ref_codec (map_of demo_db)" u] demo_inv by (simp add: store_inv_def)
  qed
  moreover obtain db' removed where run:
    "CompactionLocked mem_leveldb ref_codec demo_db demo_db 2 = Inr (db', removed)"
    by (rule store_env.compaction_refines [OF mem_env.store_env_axioms demo_inv demo_inv main_mono_refl])
  moreover have "snd (ldb_Write mem_leveldb demo_db b)" for b
    by (simp add: mem_leveldb_def mem_Write_def)
  ultimately show ?thesis
    using compaction_exact [OF mem_env.store_env_axioms demo_inv _ _ run] by simp
qed

text \<open>
  (C6) Resuming a watch is complete.  The iterator is opened at one state and the anchor is read
  at a later one, with commands and compactions in between.  Either the method answers COMPACTED
  because the requested revision is below the anchor, or its events carry every revision from
  the requested one to the current one, in order and without a gap, cut at the limit.
\<close>

theorem replay_complete:
  assumes "store_env L C P utf8" "sys_inv C P (db_it, pin)"
    and "(store_step L C P utf8)\<^sup>*\<^sup>* (db_it, pin) (db, pin')"
    and "cur \<le> CurrentRevisionLocked L db_it" "0 < mx" "mx < 2 ^ 31"
  shows "ReplayEventsLocked L P db_it db frm cur [] mx = Inr (False, [], COMPACTED) \<and>
      max 0 frm < CompactRevLocked L db \<or>
    (\<exists>out. ReplayEventsLocked L P db_it db frm cur [] mx = Inr (True, out, OK) \<and>
      map ev_revision out = take (nat mx) [max 0 frm + 1..cur])"
proof -
  let ?mi = "mvcc_of P (C db_it)" and ?m = "mvcc_of P (C db)"
  note env = assms(1)
  note reads = store_env.CurrentRevision_refines [OF env] store_env.CompactRev_refines [OF env]
  have inv: "store_inv P (C db_it)" "mvcc_inv ?mi" using assms(2) by (simp_all add: sys_inv_def store_inv_def)
  have cur: "cur \<le> m_rev ?mi" using assms(4) by (simp add: reads)
  have grow: "m_crev ?mi \<le> m_crev ?m"
    using store_env.steps_keep [OF env assms(3,2)] by (simp add: grows_def)
  show ?thesis
  proof (rule store_env.replay_cases [OF env inv(1) assms(5,6) cur, of db frm "[]"])
    fix kvs assume h: "hist_from ?mi (max 0 frm + 1) kvs"
      and run: "ReplayEventsLocked L P db_it db frm cur [] mx = Inr (True, replay_spec [] cur mx kvs, OK)"
      and "m_crev ?m \<le> max 0 frm"
    with grow have "m_crev ?mi \<le> max 0 frm" by linarith
    from hist_from_revisions [OF inv(2) h this cur]
    have "map ev_revision (replay_spec [] cur mx kvs) = take (nat mx) [max 0 frm + 1..cur]"
      by (simp add: replay_spec_def replay_match_def comp_def flip: take_map)
    with run show ?thesis by blast
  qed (auto simp: reads)
qed

theorem replay_complete_witness:
  "map_sum id (\<lambda>(ok, out, code). (ok, map ev_revision out, code))
     (ReplayEventsLocked mem_leveldb ref_codec demo_db demo_db3 2 4 [] 100) = Inr (True, [3, 4], OK)"
proof -
  have "sys_inv map_of ref_codec (demo_db, Some demo_db)" using demo_inv by (simp add: sys_inv_def)
  moreover have "4 \<le> CurrentRevisionLocked mem_leveldb demo_db"
    "CompactRevLocked mem_leveldb demo_db3 = 2" by code_simp+
  ultimately show ?thesis
    using replay_complete [OF mem_env.store_env_axioms _ demo_steps(2), of 4 100 2]
    by (auto simp: upto.simps)
qed

text \<open>
  (C23) The events of a resumed watch are exact: below the limit an event is returned if and only
  if it is that of a history record of the watched key (of any key, for the empty key) between
  the requested and the current revision, and the events are in revision order.
\<close>

theorem replay_exact:
  assumes "store_env L C P utf8" "store_inv P (C db_it)" "mx < 2 ^ 31"
    and "cur \<le> CurrentRevisionLocked L db_it"
    and "ReplayEventsLocked L P db_it db frm cur key mx = Inr (True, out, OK)" "length out < nat mx"
  shows "sorted_wrt (<) (map ev_revision out) \<and>
    (ev \<in> set out \<longleftrightarrow> (\<exists>r u kv. max 0 frm < r \<and> r \<le> cur \<and> (key = [] \<or> u = key) \<and>
      m_hist (mvcc_of P (C db_it)) (r, u) = Some kv \<and> ev = s_event kv))"
proof -
  let ?mi = "mvcc_of P (C db_it)"
  note env = assms(1)
  have mi: "mvcc_inv ?mi" using assms(2) by (simp add: store_inv_def)
  have mx: "0 < mx" using assms(6) by linarith
  have cur: "cur \<le> m_rev ?mi" using assms(4) by (simp add: store_env.CurrentRevision_refines [OF env])
  show ?thesis
  proof (rule store_env.replay_cases [OF env assms(2) mx assms(3) cur, of db frm key])
    fix kvs assume h: "hist_from ?mi (max 0 frm + 1) kvs"
      and "ReplayEventsLocked L P db_it db frm cur key mx = Inr (True, replay_spec key cur mx kvs, OK)"
    then have out: "out = map s_event (filter (\<lambda>kv. kv_revision kv \<le> cur \<and> replay_match key kv) kvs)"
      using assms(5,6) by (simp add: replay_spec_def)
    have "sorted_wrt (<) (map ev_revision out)"
      using sorted_wrt_filter [OF hist_from_sorted [OF h]] by (simp add: out sorted_wrt_map)
    moreover have "ev \<in> set out \<longleftrightarrow> (\<exists>r u kv. max 0 frm < r \<and> r \<le> cur \<and> (key = [] \<or> u = key) \<and>
        m_hist ?mi (r, u) = Some kv \<and> ev = s_event kv)"
      unfolding out set_map image_iff using replay_selects [OF mi h, of _ cur key] by blast
    ultimately show ?thesis by (rule conjI)
  qed (use assms(5) in fastforce)+
qed

theorem replay_exact_witness:
  "\<exists>out. ReplayEventsLocked mem_leveldb ref_codec demo_db demo_db 1 4 ''a'' 100 = Inr (True, out, OK) \<and>
     sorted_wrt (<) (map ev_revision out) \<and> map ev_revision out = [2, 4]"
proof -
  have run: "map_sum id (\<lambda>(ok, out, code). (ok, map ev_revision out, code))
      (ReplayEventsLocked mem_leveldb ref_codec demo_db demo_db 1 4 ''a'' 100) = Inr (True, [2, 4], OK)"
    by code_simp
  then obtain out where out: "ReplayEventsLocked mem_leveldb ref_codec demo_db demo_db 1 4 ''a'' 100 = Inr (True, out, OK)"
      "map ev_revision out = [2, 4]"
    by (cases "ReplayEventsLocked mem_leveldb ref_codec demo_db demo_db 1 4 ''a'' 100") auto
  have "length out < nat 100" using arg_cong [OF out(2), of length] by simp
  moreover have "4 \<le> CurrentRevisionLocked mem_leveldb demo_db" "(100 :: int) < 2 ^ 31" by code_simp+
  ultimately have "sorted_wrt (<) (map ev_revision out)"
    by (intro replay_exact [THEN conjunct1, OF mem_env.store_env_axioms demo_inv _ _ out(1)])
  with out show ?thesis by (intro exI [of _ out] conjI)
qed

end
