(* ===== verification/History.thy ===== *)
theory History
  imports StoreOps
begin

text \<open>
  The loops over the current records "k/" and over the published versions "cfg/" of
  src/src/store/store.cpp (GetHistory and the two loops of ExportSnapshot): on a well-formed
  database they visit the records of the abstract store, and GetHistory returns exactly the
  published versions of its key, oldest first.
\<close>

section \<open>Scanning a family of keys\<close>

definition family_entry :: "codec \<Rightarrow> (KV \<Rightarrow> bytes) \<Rightarrow> bytes \<times> bytes \<Rightarrow> KV \<Rightarrow> bool" where
  "family_entry P f e kv \<longleftrightarrow> fst e = f kv \<and> parse_kv P (snd e) = Some kv"

definition cfg_key :: "KV \<Rightarrow> bytes" where
  "cfg_key kv = ConfigKey (kv_key kv) (kv_version kv)"

definition main_key :: "KV \<Rightarrow> bytes" where
  "main_key kv = MainKey (kv_key kv)"

lemma snapshot_kvs_eq: "list_all2 (family_entry P f) es kvs \<Longrightarrow> snapshot_kvs P es = kvs"
proof (induction rule: list_all2_induct)
  case (Cons e es kv kvs)
  then show ?case by (cases e) (simp add: family_entry_def)
qed simp

lemma GetHistory_loop_eq:
  "list_all2 (family_entry P f) es kvs \<Longrightarrow>
    GetHistory_loop P key es = filter (\<lambda>kv. kv_key kv = key \<and> \<not> kv_deleted kv) kvs"
proof (induction rule: list_all2_induct)
  case (Cons e es kv kvs)
  then show ?case by (cases e) (simp add: family_entry_def)
qed simp

context store_env
begin

lemma family_scan:
  assumes fam: "\<And>k raw. C db k = Some raw \<Longrightarrow> prefix p k \<Longrightarrow> \<exists>kv. parse_kv P raw = Some kv \<and> k = f kv"
  obtains kvs where "list_all2 (family_entry P f) (scan L db p p) kvs"
    "sorted_wrt (\<lambda>a b. f a < f b) kvs"
    "\<forall>kv. kv \<in> set kvs \<longleftrightarrow> prefix p (f kv) \<and> kv_at P (C db) (f kv) = Some kv"
proof -
  let ?es = "scan L db p p"
  define kvs where "kvs = map (\<lambda>e. the (parse_kv P (snd e))) ?es"
  have entry: "family_entry P f e (the (parse_kv P (snd e)))" if "e \<in> set ?es" for e
    using that scan_prefix_iff [of "fst e" "snd e" db p] fam by (fastforce simp: family_entry_def)
  have all2: "list_all2 (family_entry P f) ?es kvs"
    using entry by (simp add: kvs_def list_all2_conv_all_nth)
  have "sorted_wrt (\<lambda>x y. fst x < fst y) ?es"
    using scan_sorted [of db p p] unfolding keys_sorted_def sorted_wrt_map .
  then have "sorted_wrt (\<lambda>a b. f a < f b) kvs"
    unfolding kvs_def sorted_wrt_map
    by (rule sorted_wrt_mono_rel [rotated]) (use entry in \<open>auto simp: family_entry_def\<close>)
  moreover have "kv \<in> set kvs \<longleftrightarrow> prefix p (f kv) \<and> kv_at P (C db) (f kv) = Some kv" for kv
  proof
    assume "kv \<in> set kvs"
    then obtain e where e: "e \<in> set ?es" "kv = the (parse_kv P (snd e))" by (auto simp: kvs_def)
    moreover have "C db (fst e) = Some (snd e)" "prefix p (fst e)"
      using e(1) scan_prefix_iff [of "fst e" "snd e" db p] by simp_all
    ultimately show "prefix p (f kv) \<and> kv_at P (C db) (f kv) = Some kv"
      using entry [OF e(1)] by (simp add: family_entry_def kv_at_def)
  next
    assume kv: "prefix p (f kv) \<and> kv_at P (C db) (f kv) = Some kv"
    then obtain raw where raw: "C db (f kv) = Some raw" "parse_kv P raw = Some kv"
      by (auto simp: kv_at_def split: option.splits)
    then have "(f kv, raw) \<in> set ?es" using kv scan_prefix_iff by blast
    with raw(2) show "kv \<in> set kvs" unfolding kvs_def by force
  qed
  ultimately show thesis using all2 that by blast
qed

lemma cfg_family:
  assumes inv: "store_inv P (C db)" and c: "C db k = Some raw" "prefix ''cfg/'' k"
  shows "\<exists>kv. parse_kv P raw = Some kv \<and> k = cfg_key kv"
proof -
  have "key_ok P k raw" using inv c(1) by (simp add: store_inv_def layout_def)
  then obtain u v kv where k: "k = ConfigKey u v" "nn64 v" "parse_kv P raw = Some kv"
    using c(2) by (auto simp: key_ok_def)
  then have "m_cfg (mvcc_of P (C db)) (u, v) = Some kv" using c(1) by (simp add: kv_at_def)
  then have "kv_key kv = u" "kv_version kv = v"
    using cfg_okD(1,2) mvcc_invD(8) inv unfolding store_inv_def by blast+
  with k show ?thesis by (auto simp: cfg_key_def)
qed

lemma main_family:
  assumes inv: "store_inv P (C db)" and c: "C db k = Some raw" "prefix ''k/'' k"
  shows "\<exists>kv. parse_kv P raw = Some kv \<and> k = main_key kv"
proof -
  have "key_ok P k raw" using inv c(1) by (simp add: store_inv_def layout_def)
  then obtain u kv where k: "k = MainKey u" "parse_kv P raw = Some kv"
    using c(2) by (auto simp: key_ok_def)
  then have "m_main (mvcc_of P (C db)) u = Some kv" using c(1) by (simp add: kv_at_def)
  then have "kv_key kv = u"
    using main_okD(1) mvcc_invD(4) inv unfolding store_inv_def by blast
  with k show ?thesis by (auto simp: main_key_def)
qed

lemma cfg_stored:
  assumes inv: "store_inv P (C db)"
  shows "kv_at P (C db) (cfg_key kv) = Some kv \<longleftrightarrow>
    m_cfg (mvcc_of P (C db)) (kv_key kv, kv_version kv) = Some kv"
proof
  assume "m_cfg (mvcc_of P (C db)) (kv_key kv, kv_version kv) = Some kv"
  then show "kv_at P (C db) (cfg_key kv) = Some kv" by (simp add: cfg_key_def split: if_splits)
next
  assume a: "kv_at P (C db) (cfg_key kv) = Some kv"
  then obtain raw where raw: "C db (cfg_key kv) = Some raw" "parse_kv P raw = Some kv"
    by (auto simp: kv_at_def split: option.splits)
  have "key_ok P (cfg_key kv) raw" using inv raw(1) by (simp add: store_inv_def layout_def)
  then obtain u v where k: "cfg_key kv = ConfigKey u v" "nn64 v"
    using raw(2) by (auto simp: key_ok_def cfg_key_def)
  then have m: "m_cfg (mvcc_of P (C db)) (u, v) = Some kv" using raw by (simp add: kv_at_def)
  then have "kv_key kv = u" "kv_version kv = v"
    using cfg_okD(1,2) mvcc_invD(8) inv unfolding store_inv_def by blast+
  with m show "m_cfg (mvcc_of P (C db)) (kv_key kv, kv_version kv) = Some kv" by simp
qed

text \<open>GetHistory: the published versions of the key, in increasing version order.\<close>

lemma history_refines:
  assumes inv: "store_inv P (C db)"
  shows "sorted_wrt (\<lambda>a b. kv_version a < kv_version b) (GetHistoryLocked L P db key) \<and>
    (kv \<in> set (GetHistoryLocked L P db key) \<longleftrightarrow>
      (\<exists>v. m_cfg (mvcc_of P (C db)) (key, v) = Some kv))"
proof -
  let ?p = "''cfg/'' @ key @ ''/''" and ?m = "mvcc_of P (C db)"
  have fam: "\<exists>kv. parse_kv P raw = Some kv \<and> k = cfg_key kv" if "C db k = Some raw" "prefix ?p k" for k raw
    using cfg_family [OF inv that(1) append_prefixD [OF that(2)]] .
  obtain kvs where kvs: "list_all2 (family_entry P cfg_key) (scan L db ?p ?p) kvs"
      "sorted_wrt (\<lambda>a b. cfg_key a < cfg_key b) kvs"
      "\<forall>kv. kv \<in> set kvs \<longleftrightarrow> prefix ?p (cfg_key kv) \<and> kv_at P (C db) (cfg_key kv) = Some kv"
    by (rule family_scan [of db ?p cfg_key, OF fam])
  have eq: "GetHistoryLocked L P db key = filter (\<lambda>kv. kv_key kv = key \<and> \<not> kv_deleted kv) kvs"
    unfolding GetHistoryLocked_def Let_def by (rule GetHistory_loop_eq [OF kvs(1)])
  have stored: "kv \<in> set kvs \<longleftrightarrow> m_cfg ?m (kv_key kv, kv_version kv) = Some kv" if "kv_key kv = key" for kv
  proof -
    have "prefix ?p (cfg_key kv)" using that by (simp add: cfg_key_def ConfigKey_def)
    then show ?thesis using kvs(3) cfg_stored [OF inv] by simp
  qed
  have ver: "nn64 (kv_version kv)" if "kv \<in> set kvs" "kv_key kv = key" for kv
    using stored that by (auto split: if_splits)
  have cfg: "cfg_ok ?m" using mvcc_invD(8) inv by (simp add: store_inv_def)
  have "kv \<in> set (GetHistoryLocked L P db key) \<longleftrightarrow> (\<exists>v. m_cfg ?m (key, v) = Some kv)"
    using stored cfg_okD(1,2,4) [OF cfg] unfolding eq set_filter mem_Collect_eq by metis
  moreover have "sorted_wrt (\<lambda>a b. kv_version a < kv_version b) (GetHistoryLocked L P db key)"
    unfolding eq using sorted_wrt_filter [OF kvs(2), of "\<lambda>kv. kv_key kv = key \<and> \<not> kv_deleted kv"]
    by (rule sorted_wrt_mono_rel [rotated]) (use ver in \<open>auto simp: cfg_key_def ConfigKey_less\<close>)
  ultimately show ?thesis by blast
qed

end

section \<open>Properties\<close>

text \<open>
  GetHistory returns the published versions of its key that are still indexed, each once
  and in increasing version order, and nothing of another key, even of one whose name extends
  the key by a slash.
\<close>

lemma get_history_exact:
  assumes "store_env L C P utf8" "store_inv P (C db)"
  shows "sorted_wrt (\<lambda>a b. kv_version a < kv_version b) (GetHistoryLocked L P db key) \<and>
    (kv \<in> set (GetHistoryLocked L P db key) \<longleftrightarrow>
      (\<exists>v. m_cfg (mvcc_of P (C db)) (key, v) = Some kv))"
  by (rule store_env.history_refines [OF assms])

definition demo_history_db :: mem_db where
  "demo_history_db = fst (apply_log mem_leveldb ref_codec []
     [Cmd_publish ''app'' ''1'', Cmd_publish ''app/db'' ''2'', Cmd_publish ''app'' ''3''])"

end
