(* ===== verification/Snapshot.thy ===== *)
theory Snapshot
  imports History
begin

text \<open>
  ExportSnapshot and LoadSnapshot of src/src/store/store.cpp.  A snapshot holds the revision, the
  current records and the published versions; the history is dropped, and loading sets the
  compaction anchor to the revision, so that a watch cannot resume below it.  Loading into a
  fresh directory restores exactly that.
\<close>

section \<open>The abstract snapshot\<close>

definition s_snapshot :: "mvcc \<Rightarrow> mvcc" where
  "s_snapshot m = \<lparr>m_rev = m_rev m, m_crev = m_rev m, m_main = m_main m,
     m_hist = (\<lambda>(r, k). case m_main m k of None \<Rightarrow> None
        | Some kv \<Rightarrow> if kv_revision kv = r then Some kv else None),
     m_cfg = m_cfg m\<rparr>"

lemma s_snapshot_sel [simp]:
  "m_rev (s_snapshot m) = m_rev m" "m_crev (s_snapshot m) = m_rev m"
  "m_main (s_snapshot m) = m_main m" "m_cfg (s_snapshot m) = m_cfg m"
  by (simp_all add: s_snapshot_def)

lemma snapshot_hist:
  "m_hist (s_snapshot m) (r, k) = Some kv \<longleftrightarrow> m_main m k = Some kv \<and> kv_revision kv = r"
  by (auto simp: s_snapshot_def split: option.splits if_splits)

lemma mvcc_inv_snapshot:
  assumes "mvcc_inv m"
  shows "mvcc_inv (s_snapshot m)"
proof -
  note D = mvcc_invD [OF assms]
  note main = main_okD [OF D(4)]
  have "main_ok (s_snapshot m)"
    using main unfolding main_ok_def s_snapshot_sel snapshot_hist by blast
  moreover have "hist_ok (s_snapshot m)"
    unfolding hist_ok_def s_snapshot_sel snapshot_hist using main by blast
  moreover have "hist_unique (s_snapshot m)"
  proof -
    have "k = k'" if "m_hist (s_snapshot m) (r, k) = Some kv" "m_hist (s_snapshot m) (r, k') = Some kv'" for r k k' kv kv'
    proof -
      have "m_hist m (r, k) \<noteq> None" "m_hist m (r, k') \<noteq> None"
        using that main(6) unfolding snapshot_hist by force+
      with D(6) show ?thesis unfolding hist_unique_def by blast
    qed
    then show ?thesis unfolding hist_unique_def not_None_eq by blast
  qed
  moreover have "hist_dense (s_snapshot m)" by (simp add: hist_dense_def)
  moreover have "cfg_ok (s_snapshot m)"
    using D(8) unfolding cfg_ok_def s_snapshot_sel by blast
  ultimately show ?thesis using D(3) by (simp add: mvcc_inv_def)
qed

text \<open>Indices built from the lists of a snapshot.\<close>

lemma snapshot_indices:
  assumes "mvcc_inv m" "\<And>kv. kv \<in> set ks \<longleftrightarrow> m_main m (kv_key kv) = Some kv"
    and "\<And>kv. kv \<in> set cs \<longleftrightarrow> m_cfg m (kv_key kv, kv_version kv) = Some kv"
  shows "map_of (map (\<lambda>kv. (kv_key kv, kv)) (List.rev ks)) = m_main m"
    and "map_of (map (\<lambda>kv. ((kv_revision kv, kv_key kv), kv)) (List.rev ks)) = m_hist (s_snapshot m)"
    and "map_of (map (\<lambda>kv. ((kv_key kv, kv_version kv), kv)) (List.rev cs)) = m_cfg m"
proof -
  have inj: "inj_on kv_key (set (List.rev ks))"
    "inj_on (\<lambda>kv. (kv_revision kv, kv_key kv)) (set (List.rev ks))"
    "inj_on (\<lambda>kv. (kv_key kv, kv_version kv)) (set (List.rev cs))"
    using assms(2,3) by (auto simp: inj_on_def)
  note main = main_okD(1) [OF mvcc_invD(4) [OF assms(1)]] and cfg = cfg_okD(1,2) [OF mvcc_invD(8) [OF assms(1)]]
  show "map_of (map (\<lambda>kv. (kv_key kv, kv)) (List.rev ks)) = m_main m"
    using assms(2) main by (intro map_eqI_Some) (auto simp: map_of_index [OF inj(1)])
  show "map_of (map (\<lambda>kv. ((kv_revision kv, kv_key kv), kv)) (List.rev ks)) = m_hist (s_snapshot m)"
  proof (rule map_eqI_Some)
    fix k :: "int \<times> string" and x
    obtain r u where k: "k = (r, u)" by (cases k)
    show "map_of (map (\<lambda>kv. ((kv_revision kv, kv_key kv), kv)) (List.rev ks)) k = Some x \<longleftrightarrow>
        m_hist (s_snapshot m) k = Some x"
      using assms(2) main unfolding k snapshot_hist map_of_index [OF inj(2)] by auto
  qed
  show "map_of (map (\<lambda>kv. ((kv_key kv, kv_version kv), kv)) (List.rev cs)) = m_cfg m"
  proof (rule map_eqI_Some)
    fix k :: "string \<times> int" and x
    obtain u v where k: "k = (u, v)" by (cases k)
    show "map_of (map (\<lambda>kv. ((kv_key kv, kv_version kv), kv)) (List.rev cs)) k = Some x \<longleftrightarrow>
        m_cfg m k = Some x"
      using assms(3) cfg unfolding k map_of_index [OF inj(3)] by auto
  qed
qed

section \<open>Exporting\<close>

context store_env
begin

lemma iter_first:
  "(case ldb_Iter L db s of [] \<Rightarrow> 0 | (k, v) # _ \<Rightarrow> if k = s then g v else 0) =
    (case C db s of None \<Rightarrow> (0 :: int) | Some v \<Rightarrow> g v)"
proof (cases "ldb_Iter L db s")
  case Nil
  then show ?thesis using iter_iff [of s _ db s] by (auto split: option.split)
next
  case (Cons e es)
  obtain k v where e: "e = (k, v)" by (cases e)
  have kv: "C db k = Some v" "s \<le> k" using iter_iff [of k v db s] Cons e by simp_all
  have "k = s" if "C db s = Some w" for w
  proof -
    have "(s, w) \<in> set (ldb_Iter L db s)" using that by (simp add: iter_iff)
    then have "k \<le> s" using iter_sorted [of db s] Cons e by auto
    with kv(2) show ?thesis by simp
  qed
  with kv e Cons show ?thesis by (auto split: option.split)
qed

lemma export_refines:
  assumes inv: "store_inv P (C db)"
  shows "sd_revision (ExportSnapshot L P db) = m_rev (mvcc_of P (C db)) \<and>
    (\<forall>kv. kv \<in> set (sd_kvs (ExportSnapshot L P db)) \<longleftrightarrow>
      m_main (mvcc_of P (C db)) (kv_key kv) = Some kv) \<and>
    distinct (map kv_key (sd_kvs (ExportSnapshot L P db))) \<and>
    (\<forall>kv. kv \<in> set (sd_cfg_kvs (ExportSnapshot L P db)) \<longleftrightarrow>
      m_cfg (mvcc_of P (C db)) (kv_key kv, kv_version kv) = Some kv)"
proof -
  obtain ks where ks: "list_all2 (family_entry P main_key) (scan L db ''k/'' ''k/'') ks"
      "sorted_wrt (\<lambda>a b. main_key a < main_key b) ks"
      "\<forall>kv. kv \<in> set ks \<longleftrightarrow> prefix ''k/'' (main_key kv) \<and> kv_at P (C db) (main_key kv) = Some kv"
    by (rule family_scan [of db "''k/''" main_key, OF main_family [OF inv]])
  obtain cs where cs: "list_all2 (family_entry P cfg_key) (scan L db ''cfg/'' ''cfg/'') cs"
      "sorted_wrt (\<lambda>a b. cfg_key a < cfg_key b) cs"
      "\<forall>kv. kv \<in> set cs \<longleftrightarrow> prefix ''cfg/'' (cfg_key kv) \<and> kv_at P (C db) (cfg_key kv) = Some kv"
    by (rule family_scan [of db "''cfg/''" cfg_key, OF cfg_family [OF inv]])
  have "sorted_wrt (<) (map main_key ks)" using ks(2) by (simp add: sorted_wrt_map)
  then have "distinct (map main_key ks)" by (simp add: strict_sorted_iff)
  then have "distinct (map kv_key ks)"
    by (auto simp: distinct_map inj_on_def main_key_def)
  moreover have "prefix ''cfg/'' (cfg_key kv)" "prefix ''k/'' (main_key kv)" for kv
    by (simp_all add: cfg_key_def main_key_def)
  ultimately show ?thesis
    using ks(3) cs(3) cfg_stored [OF inv]
    by (simp add: ExportSnapshot_def snapshot_kvs_eq [OF ks(1)] snapshot_kvs_eq [OF cs(1)]
        iter_first MainKey_def [of "[]"] meta_at_def del: mvcc_of_sel(5))
      (simp add: main_key_def)
qed

section \<open>Loading\<close>

lemma load_kvs_refines:
  "\<lbrakk>layout P c; \<forall>kv \<in> set kvs. kv_fits utf8 kv \<and> nn64 (kv_revision kv)\<rbrakk> \<Longrightarrow>
    layout P (apply_batch (LoadSnapshot_kvs P kvs) c) \<and>
    mvcc_of P (apply_batch (LoadSnapshot_kvs P kvs) c) = (mvcc_of P c)\<lparr>
      m_main := m_main (mvcc_of P c) ++ map_of (map (\<lambda>kv. (kv_key kv, kv)) (List.rev kvs)),
      m_hist := m_hist (mvcc_of P c) ++ map_of (map (\<lambda>kv. ((kv_revision kv, kv_key kv), kv)) (List.rev kvs))\<rparr>"
proof (induction kvs arbitrary: c)
  case (Cons kv kvs)
  define c' where "c' = c(MainKey (kv_key kv) \<mapsto> ser_kv P kv, VersionKey (kv_revision kv) (kv_key kv) \<mapsto> ser_kv P kv)"
  have fits: "kv_fits utf8 kv" "nn64 (kv_revision kv)" using Cons.prems(2) by simp_all
  note ps = parse_ser [OF fits(1)]
  have "layout P c'" using Cons.prems(1) fits(2) by (simp add: c'_def layout_put key_ok_intros ps)
  moreover have "mvcc_of P c' = (mvcc_of P c)\<lparr>m_main := (m_main (mvcc_of P c))(kv_key kv \<mapsto> kv),
      m_hist := (m_hist (mvcc_of P c))((kv_revision kv, kv_key kv) \<mapsto> kv)\<rparr>"
    using fits(2) by (simp add: c'_def mvcc_of_updates ps)
  moreover have "apply_batch (LoadSnapshot_kvs P (kv # kvs)) c = apply_batch (LoadSnapshot_kvs P kvs) c'"
    by (simp add: c'_def)
  ultimately show ?case
    using Cons.IH [of c'] Cons.prems(2) by (simp del: mvcc_of_sel LoadSnapshot_kvs.simps fun_upd_apply)
qed simp

lemma load_cfg_refines:
  "\<lbrakk>layout P c; \<forall>kv \<in> set kvs. kv_fits utf8 kv \<and> nn64 (kv_version kv)\<rbrakk> \<Longrightarrow>
    layout P (apply_batch (LoadSnapshot_cfg P kvs) c) \<and>
    mvcc_of P (apply_batch (LoadSnapshot_cfg P kvs) c) = (mvcc_of P c)\<lparr>
      m_cfg := m_cfg (mvcc_of P c) ++ map_of (map (\<lambda>kv. ((kv_key kv, kv_version kv), kv)) (List.rev kvs))\<rparr>"
proof (induction kvs arbitrary: c)
  case (Cons kv kvs)
  define c' where "c' = c(ConfigKey (kv_key kv) (kv_version kv) \<mapsto> ser_kv P kv)"
  have fits: "kv_fits utf8 kv" "nn64 (kv_version kv)" using Cons.prems(2) by simp_all
  note ps = parse_ser [OF fits(1)]
  have "layout P c'" using Cons.prems(1) fits(2) by (simp add: c'_def layout_put key_ok_intros ps)
  moreover have "mvcc_of P c' = (mvcc_of P c)\<lparr>m_cfg := (m_cfg (mvcc_of P c))((kv_key kv, kv_version kv) \<mapsto> kv)\<rparr>"
    using fits(2) by (simp add: c'_def mvcc_of_updates ps)
  moreover have "apply_batch (LoadSnapshot_cfg P (kv # kvs)) c = apply_batch (LoadSnapshot_cfg P kvs) c'"
    by (simp add: c'_def)
  ultimately show ?case
    using Cons.IH [of c'] Cons.prems(2) by (simp del: mvcc_of_sel LoadSnapshot_cfg.simps fun_upd_apply)
qed simp

lemma stored_fits:
  assumes "kv_at P c k = Some kv"
  shows "kv_fits utf8 kv"
  using assms parse_fits by (auto simp: kv_at_def split: option.splits)

text \<open>An exported snapshot written into an empty database.\<close>

lemma exported_fits:
  assumes inv: "store_inv P (C db)"
  shows "\<forall>kv \<in> set (sd_kvs (ExportSnapshot L P db)). kv_fits utf8 kv \<and> nn64 (kv_revision kv)"
    and "\<forall>kv \<in> set (sd_cfg_kvs (ExportSnapshot L P db)). kv_fits utf8 kv \<and> nn64 (kv_version kv)"
proof -
  let ?m = "mvcc_of P (C db)"
  note ex = export_refines [OF inv]
  have nn: "nn64 (m_rev ?m)" using store_inv_rev [OF inv] by simp
  have mi: "mvcc_inv ?m" using inv by (simp add: store_inv_def)
  show "\<forall>kv \<in> set (sd_kvs (ExportSnapshot L P db)). kv_fits utf8 kv \<and> nn64 (kv_revision kv)"
  proof
    fix kv assume "kv \<in> set (sd_kvs (ExportSnapshot L P db))"
    then have kv: "m_main ?m (kv_key kv) = Some kv" using ex by blast
    from main_okD(4,5) [OF mvcc_invD(4) [OF mi] kv] nn have "nn64 (kv_revision kv)"
      unfolding nn64_def by linarith
    with kv stored_fits show "kv_fits utf8 kv \<and> nn64 (kv_revision kv)" by auto
  qed
  show "\<forall>kv \<in> set (sd_cfg_kvs (ExportSnapshot L P db)). kv_fits utf8 kv \<and> nn64 (kv_version kv)"
  proof
    fix kv assume "kv \<in> set (sd_cfg_kvs (ExportSnapshot L P db))"
    then have "m_cfg ?m (kv_key kv, kv_version kv) = Some kv" using ex by blast
    then show "kv_fits utf8 kv \<and> nn64 (kv_version kv)" using stored_fits by (auto split: if_splits)
  qed
qed

lemma load_export_refines:
  assumes inv: "store_inv P (C db)"
  shows "mvcc_of P (apply_batch (LoadSnapshot_batch P (ExportSnapshot L P db)) Map.empty) =
      s_snapshot (mvcc_of P (C db))"
    and "layout P (apply_batch (LoadSnapshot_batch P (ExportSnapshot L P db)) Map.empty)"
proof -
  let ?m = "mvcc_of P (C db)"
  define d where "d = ExportSnapshot L P db"
  have mi: "mvcc_inv ?m" using inv by (simp add: store_inv_def)
  note D = mvcc_invD [OF mi]
  have nn: "nn64 (m_rev ?m)" using store_inv_rev [OF inv] by simp
  have ex: "sd_revision d = m_rev ?m" "\<And>kv. kv \<in> set (sd_kvs d) \<longleftrightarrow> m_main ?m (kv_key kv) = Some kv"
    "\<And>kv. kv \<in> set (sd_cfg_kvs d) \<longleftrightarrow> m_cfg ?m (kv_key kv, kv_version kv) = Some kv"
    using export_refines [OF inv] unfolding d_def by blast+
  define c1 where "c1 = apply_batch (LoadSnapshot_kvs P (sd_kvs d)) Map.empty"
  define c2 where "c2 = apply_batch (LoadSnapshot_cfg P (sd_cfg_kvs d)) c1"
  note fits = exported_fits [OF inv, folded d_def]
  have e1: "layout P c1" "mvcc_of P c1 = mvcc_empty\<lparr>
      m_main := map_of (map (\<lambda>kv. (kv_key kv, kv)) (List.rev (sd_kvs d))),
      m_hist := map_of (map (\<lambda>kv. ((kv_revision kv, kv_key kv), kv)) (List.rev (sd_kvs d)))\<rparr>"
    using load_kvs_refines [OF _ fits(1), of Map.empty]
    by (simp_all add: c1_def layout_def mvcc_empty_def)
  have e2: "layout P c2" "mvcc_of P c2 = (mvcc_of P c1)\<lparr>
      m_cfg := map_of (map (\<lambda>kv. ((kv_key kv, kv_version kv), kv)) (List.rev (sd_cfg_kvs d)))\<rparr>"
    using load_cfg_refines [OF e1(1) fits(2)] e1(2) by (simp_all add: c2_def mvcc_empty_def del: mvcc_of_sel)
  note idx = snapshot_indices [OF mi, of "sd_kvs d" "sd_cfg_kvs d", OF ex(2,3)]
  have c2: "mvcc_of P c2 = (s_snapshot ?m)\<lparr>m_rev := 0, m_crev := 0\<rparr>"
    unfolding e2(2) e1(2) idx by (simp add: s_snapshot_def mvcc_empty_def)
  have b: "apply_batch (LoadSnapshot_batch P d) Map.empty = (if m_rev ?m > 0 then
      c2(RevisionMetaKey \<mapsto> EncodeUint64 (u64 (m_rev ?m)), CompactRevKey \<mapsto> EncodeUint64 (u64 (m_rev ?m))) else c2)"
    by (simp add: LoadSnapshot_batch_def apply_batch_append c1_def c2_def ex(1))
  have z: "m_rev ?m = 0" if "\<not> m_rev ?m > 0" using that D(3) by linarith
  have "mvcc_of P (apply_batch (LoadSnapshot_batch P d) Map.empty) = s_snapshot ?m"
    unfolding b using nn z
    by (simp add: mvcc_of_put_rev mvcc_of_put_crev c2 del: mvcc_of_sel)
  moreover have "layout P (apply_batch (LoadSnapshot_batch P d) Map.empty)"
    unfolding b using e2(1) by (simp add: layout_put key_ok_intros)
  ultimately show "mvcc_of P (apply_batch (LoadSnapshot_batch P (ExportSnapshot L P db)) Map.empty) = s_snapshot ?m"
    "layout P (apply_batch (LoadSnapshot_batch P (ExportSnapshot L P db)) Map.empty)"
    by (simp_all only: d_def)
qed

end

section \<open>The file system\<close>

text \<open>
  What LoadSnapshot relies on: a directory that remove_all cleared and create_directories made
  again opens as an empty database.  The reference disk keeps one database per directory.
\<close>

locale fresh_disk =
  fixes D :: "('fs, 'db) disk" and C :: "'db \<Rightarrow> contents"
  assumes open_fresh: "fs_remove_all D fs dir = (fs1, True) \<Longrightarrow>
    fs_create_directories D fs1 dir = Some fs2 \<Longrightarrow> ldb_Open D fs2 dir = Inr db \<Longrightarrow> C db = Map.empty"

type_synonym mem_fs = "(string \<times> mem_db) list"

definition mem_disk :: "(mem_fs, mem_db) disk" where
  "mem_disk = \<lparr>fs_create_directories = (\<lambda>fs dir. Some fs),
     fs_remove_all = (\<lambda>fs dir. (filter (\<lambda>e. fst e \<noteq> dir) fs, True)),
     ldb_Open = (\<lambda>fs dir. case map_of fs dir of None \<Rightarrow> Inr [] | Some db \<Rightarrow> Inr db)\<rparr>"

interpretation mem_fs: fresh_disk mem_disk map_of
proof
  fix fs fs1 fs2 :: mem_fs and dir db
  assume "fs_remove_all mem_disk fs dir = (fs1, True)" "fs_create_directories mem_disk fs1 dir = Some fs2"
    "ldb_Open mem_disk fs2 dir = Inr db"
  moreover have "map_of (filter (\<lambda>e. fst e \<noteq> dir) fs) dir = None" by (auto simp: map_of_eq_None_iff)
  ultimately show "map_of db = Map.empty" by (auto simp: mem_disk_def)
qed

section \<open>Restoring a snapshot\<close>

context store_env
begin

lemma load_restores:
  assumes "fresh_disk D C" "store_inv P (C db)"
    and "snd (fs_remove_all D fs (st_data_dir st))"
    and "LoadSnapshot L D P fs st (ExportSnapshot L P db) = Opened (st', True)"
  shows "\<exists>db'. st_db st' = Some db' \<and> store_inv P (C db') \<and>
    mvcc_of P (C db') = s_snapshot (mvcc_of P (C db))"
proof -
  let ?b = "LoadSnapshot_batch P (ExportSnapshot L P db)"
  obtain fs1 where rm: "fs_remove_all D fs (st_data_dir st) = (fs1, True)"
    using assms(3) by (metis prod.collapse)
  then obtain fs2 db0 db' where opened: "fs_create_directories D fs1 (st_data_dir st) = Some fs2"
      "ldb_Open D fs2 (st_data_dir st) = Inr db0" "ldb_Write L db0 ?b = (db', True)" "st_db st' = Some db'"
    using assms(4) by (auto simp: LoadSnapshot_def OpenLocked_def Let_def split: option.splits sum.splits prod.splits)
  have "C db' = apply_batch ?b Map.empty"
    using write_ok [OF opened(3)] fresh_disk.open_fresh [OF assms(1) rm opened(1,2)] by simp
  moreover have "mvcc_inv (s_snapshot (mvcc_of P (C db)))"
    using assms(2) by (simp add: store_inv_def mvcc_inv_snapshot)
  ultimately show ?thesis
    using load_export_refines [OF assms(2)] opened(4) by (simp add: store_inv_def)
qed

end

section \<open>Properties\<close>

text \<open>
  (C24) Snapshot round trip.  A snapshot exported from one store and loaded by another into a
  directory that could be cleared restores the revision, every current record and every
  published version; the history is cut to the current records and the compaction anchor is the
  snapshot's revision; the database is well formed.
\<close>

theorem snapshot_roundtrip:
  assumes "store_env L C P utf8" "fresh_disk D C" "store_inv P (C db)"
    and "snd (fs_remove_all D fs (st_data_dir st))"
    and "LoadSnapshot L D P fs st (ExportSnapshot L P db) = Opened (st', True)"
  shows "\<exists>db'. st_db st' = Some db' \<and> store_inv P (C db') \<and>
    mvcc_of P (C db') = s_snapshot (mvcc_of P (C db))"
  by (rule store_env.load_restores [OF assms])

theorem snapshot_roundtrip_witness:
  "\<exists>st' db'. LoadSnapshot mem_leveldb mem_disk ref_codec [(''/data'', [(''k/old'', ''x'')])]
       \<lparr>st_db = None, st_data_dir = ''/data''\<rparr> (ExportSnapshot mem_leveldb ref_codec demo_history_db) = Opened (st', True) \<and>
     st_db st' = Some db' \<and>
     mvcc_of ref_codec (map_of db') = s_snapshot (mvcc_of ref_codec (map_of demo_history_db))"
proof -
  let ?load = "LoadSnapshot mem_leveldb mem_disk ref_codec [(''/data'', [(''k/old'', ''x'')])]
       \<lparr>st_db = None, st_data_dir = ''/data''\<rparr> (ExportSnapshot mem_leveldb ref_codec demo_history_db)"
  obtain st' where load: "?load = Opened (st', True)"
    by (simp add: LoadSnapshot_def OpenLocked_def mem_disk_def mem_leveldb_def mem_Write_def Let_def)
  have "store_inv ref_codec (map_of demo_history_db)"
    unfolding demo_history_db_def by (rule mem_log_inv) simp_all
  moreover have "snd (fs_remove_all mem_disk [(''/data'', [(''k/old'', ''x'')])] (st_data_dir \<lparr>st_db = None, st_data_dir = ''/data''\<rparr>))"
    by (simp add: mem_disk_def)
  ultimately show ?thesis
    using snapshot_roundtrip [OF mem_env.store_env_axioms mem_fs.fresh_disk_axioms _ _ load] load by blast
qed

end
