(* ===== verification/Replicas.thy ===== *)
theory Replicas
  imports StoreSystem Snapshot
begin

text \<open>
  Replicas.  Raft gives every replica the same log; each compacts on its own schedule, and a late
  one starts from a snapshot.  Replicas whose current records and revision agree answer every
  command alike and keep agreeing, whatever their histories are; a rollback to a named version
  needs the version indices to agree as well, which compaction on one node alone breaks.
\<close>

section \<open>Agreement\<close>

definition agree_cfg :: "mvcc \<Rightarrow> mvcc \<Rightarrow> bool" where
  "agree_cfg m m' \<longleftrightarrow> agree m m' \<and> m_cfg m = m_cfg m'"

lemma batch_from_cfg: "m_cfg (fst (s_batch_from m0 m kvs)) = m_cfg m"
  by (induction m0 m kvs rule: s_batch_from.induct) (simp_all add: Let_def case_prod_beta)

lemma agree_cfg_get: "agree_cfg m m' \<Longrightarrow> s_get_config m k n = s_get_config m' k n"
  by (simp add: agree_cfg_def agree_reads s_get_config_def)

lemma agree_cfg_publish:
  assumes "agree_cfg m m'"
  shows "agree_cfg (fst (s_publish m k v)) (fst (s_publish m' k v)) \<and>
    snd (s_publish m k v) = snd (s_publish m' k v)"
proof -
  have ag: "agree m m'" "m_cfg m = m_cfg m'" using assms by (simp_all add: agree_cfg_def)
  then show ?thesis
    using agree_reads [OF ag(1)] by (simp add: agree_cfg_def s_publish_def Let_def agree_write agree_index)
qed

lemma agree_cfg_apply:
  assumes "agree_cfg m m'"
  shows "agree_cfg (fst (s_apply m cmd)) (fst (s_apply m' cmd)) \<and> snd (s_apply m cmd) = snd (s_apply m' cmd)"
proof (cases "index_free cmd \<and> (\<forall>k v n. cmd \<noteq> Cmd_publish k v \<and> cmd \<noteq> Cmd_rollback k n)")
  case True
  have ag: "agree m m'" using assms by (simp add: agree_cfg_def)
  have "m_cfg (fst (s_apply m cmd)) = m_cfg m \<and> m_cfg (fst (s_apply m' cmd)) = m_cfg m'"
    using True by (cases cmd) (simp_all add: s_put_def s_delete_def s_batch_def Let_def case_prod_beta batch_from_cfg)
  with True assms agree_apply [OF ag] show ?thesis by (simp add: agree_cfg_def)
next
  case False
  then consider k v where "cmd = Cmd_publish k v" | k n where "cmd = Cmd_rollback k n"
    by (cases cmd) auto
  then show ?thesis
    using assms agree_cfg_publish [OF assms] agree_cfg_get [OF assms]
    by cases (simp_all add: case_prod_beta Let_def split: option.split)
qed

lemma agree_cfg_run:
  "agree_cfg m m' \<Longrightarrow> agree_cfg (fst (s_run m cmds)) (fst (s_run m' cmds)) \<and> snd (s_run m cmds) = snd (s_run m' cmds)"
proof (induction cmds arbitrary: m m')
  case (Cons c cmds)
  then show ?case
    using Cons.IH agree_cfg_apply [OF Cons.prems, of c] unfolding s_run_Cons by simp
qed simp

section \<open>Properties\<close>



definition published_db :: mem_db where
  "published_db = fst (apply_log mem_leveldb ref_codec [] [Cmd_publish ''a'' ''1'', Cmd_publish ''a'' ''2''])"

definition compacted_db :: mem_db where
  "compacted_db = (case CompactionLocked mem_leveldb ref_codec published_db published_db 1 of
     Inl e \<Rightarrow> [] | Inr (db, n) \<Rightarrow> db)"


end
