(* ===== verification/WatchHub.thy ===== *)
theory WatchHub
  imports Replay "HOL-Library.Signed_Division"
begin

text \<open>
  src/src/watch/watch_hub.cpp: the watchers' registry and the long poll.

  The hub keeps weak pointers to the waiters; the threads blocked in Watch own them.  Waiters are
  objects with an identity: \<open>wh_objs\<close> holds the live ones, \<open>wh_waiters\<close> the registered identities
  (the vector of weak_ptr), and \<open>lock()\<close> is a lookup.

  Watch runs concurrently with the state machine and with Broadcast, so it is a machine of
  steps: each step is what the method does between two points where other threads can change
  the store or the hub.  What the environment decides (the clock, the cancellation callback,
  whether the timed wait timed out) comes with the step.
\<close>

section \<open>Waiters and the hub\<close>

record Waiter =
  w_key_filter :: string
  w_events :: "WatchEvent list"
  w_overflow :: bool

record WatchHub =
  wh_waiters :: "nat list"
  wh_objs :: "nat \<rightharpoonup> Waiter"
  wh_max :: nat

definition kMaxWatchEvents :: nat where
  "kMaxWatchEvents = 1024"

definition Matches :: "Waiter \<Rightarrow> WatchEvent \<Rightarrow> bool" where
  "Matches w e \<longleftrightarrow> w_key_filter w = [] \<or> ev_key e = w_key_filter w"

definition WatchHub_init :: "nat \<Rightarrow> WatchHub" where
  "WatchHub_init max_events_per_waiter = \<lparr>wh_waiters = [], wh_objs = Map.empty,
     wh_max = (if max_events_per_waiter > 0 then max_events_per_waiter else kMaxWatchEvents)\<rparr>"

definition Register :: "WatchHub \<Rightarrow> nat \<Rightarrow> WatchHub" where
  "Register hub w = hub\<lparr>wh_waiters := wh_waiters hub @ [w]\<rparr>"

text \<open>An entry goes when its weak pointer still locks to the waiter.\<close>

definition Unregister :: "WatchHub \<Rightarrow> nat \<Rightarrow> WatchHub" where
  "Unregister hub w = hub\<lparr>wh_waiters := filter (\<lambda>it. \<not> (wh_objs hub it \<noteq> None \<and> it = w)) (wh_waiters hub)\<rparr>"

fun deliver :: "nat \<Rightarrow> Waiter \<Rightarrow> WatchEvent list \<Rightarrow> Waiter" where
  "deliver max_events sp [] = sp"
| "deliver max_events sp (e # events) =
    (if \<not> Matches sp e then deliver max_events sp events
     else if length (w_events sp) \<ge> max_events then sp\<lparr>w_overflow := True, w_events := []\<rparr>
     else deliver max_events (sp\<lparr>w_events := w_events sp @ [e]\<rparr>) events)"

text \<open>One entry of the copied list of weak pointers.\<close>

definition Broadcast_one :: "WatchEvent list \<Rightarrow> nat \<Rightarrow> WatchHub \<Rightarrow> WatchHub" where
  "Broadcast_one events w hub =
    (case wh_objs hub w of
       None \<Rightarrow> hub
     | Some sp \<Rightarrow> hub\<lparr>wh_objs := (wh_objs hub)(w \<mapsto> deliver (wh_max hub) sp events)\<rparr>)"

definition Broadcast :: "WatchHub \<Rightarrow> WatchEvent list \<Rightarrow> WatchHub" where
  "Broadcast hub events =
    (if events = [] then hub else fold (Broadcast_one events) (wh_waiters hub) hub)"

section \<open>Time\<close>

record timespec =
  tv_sec :: int
  tv_nsec :: int

definition FromEpochUs :: "int \<Rightarrow> timespec" where
  "FromEpochUs us = \<lparr>tv_sec = us sdiv 1000000, tv_nsec = (us smod 1000000) * 1000\<rparr>"

definition TimespecLess :: "timespec \<Rightarrow> timespec \<Rightarrow> bool" where
  "TimespecLess a b \<longleftrightarrow> tv_sec a < tv_sec b \<or> (tv_sec a = tv_sec b \<and> tv_nsec a < tv_nsec b)"

section \<open>Watch\<close>

record WatchResult =
  wr_code :: Code
  wr_message :: string
  wr_current_revision :: int
  wr_events :: "WatchEvent list"

definition WatchResult_init :: WatchResult where
  "WatchResult_init = \<lparr>wr_code = OK, wr_message = [], wr_current_revision = 0, wr_events = []\<rparr>"

text \<open>
  What one step sees: the epoch time in microseconds, the answer of the cancellation callback,
  the time the given microseconds from now, and whether the timed wait ended with ETIMEDOUT.
\<close>

record watch_obs =
  o_now :: int
  o_canceled :: bool
  o_from_now :: "int \<Rightarrow> timespec"
  o_timed_out :: bool

text \<open>The arguments of the call, as clamped at its start, and the identity of its waiter.\<close>

record watch_args =
  wa_key :: string
  wa_from :: int
  wa_timeout_ms :: int
  wa_server_deadline_us :: int
  wa_waiter :: nat

definition watch_args_init :: "string \<Rightarrow> int \<Rightarrow> int \<Rightarrow> int \<Rightarrow> nat \<Rightarrow> watch_args" where
  "watch_args_init key from_revision timeout_ms server_deadline_us w =
    \<lparr>wa_key = key, wa_from = (if from_revision < 0 then 0 else from_revision),
     wa_timeout_ms = max 1 (min timeout_ms 60000), wa_server_deadline_us = server_deadline_us,
     wa_waiter = w\<rparr>"

text \<open>
  Where the call is: before the quick check, in the catch-up loop with its deadline, about to
  register, about to read the current revision, about to open the iterator (with the revision
  read), about to read the anchor (with the iterator), about to compute the deadline, waiting,
  about to unregister, about to look at the waiter, about to read the revision for an answer
  without events (after an overflow or not), returned, or left by an exception.
\<close>

datatype 'db watch_pc =
    W_quick
  | W_catchup int
  | W_register
  | W_current
  | W_iter int
  | W_replay int 'db
  | W_deadline
  | W_wait timespec
  | W_unregister
  | W_collect
  | W_last bool
  | W_return bool WatchResult
  | W_throw cxx_exn

text \<open>The waiter goes out of scope: its weak pointers no longer lock.\<close>

definition drop_waiter :: "WatchHub \<Rightarrow> nat \<Rightarrow> WatchHub" where
  "drop_waiter hub w = hub\<lparr>wh_objs := (wh_objs hub)(w := None)\<rparr>"

definition compacted_message :: string where
  "compacted_message = ''requested revision has been compacted, resume from current_revision''"

fun Watch_step ::
  "'db leveldb \<Rightarrow> codec \<Rightarrow> watch_args \<Rightarrow> watch_obs \<Rightarrow> 'db \<Rightarrow> WatchHub \<Rightarrow> 'db watch_pc \<Rightarrow>
    WatchHub \<times> 'db watch_pc" where
  "Watch_step L P a obs db hub W_quick =
    (hub, if wa_from a > 0 \<and> CompactRevLocked L db > wa_from a
          then W_return False (WatchResult_init\<lparr>wr_code := COMPACTED, wr_message := compacted_message,
                 wr_current_revision := CurrentRevisionLocked L db\<rparr>)
          else if wa_from a > 0 then
            W_catchup (if wa_server_deadline_us a > 0 \<and> wa_server_deadline_us a < o_now obs + 5000000
                       then wa_server_deadline_us a else o_now obs + 5000000)
          else W_register)"
| "Watch_step L P a obs db hub (W_catchup deadline_us) =
    (hub, if CurrentRevisionLocked L db < wa_from a then
            (if o_canceled obs then W_return True WatchResult_init
             else if o_now obs \<ge> deadline_us then
               W_return False (WatchResult_init\<lparr>wr_code := INTERNAL,
                 wr_message := ''local node behind requested revision, retry'',
                 wr_current_revision := CurrentRevisionLocked L db\<rparr>)
             else W_catchup deadline_us)
          else W_register)"
| "Watch_step L P a obs db hub W_register =
    (Register (hub\<lparr>wh_objs := (wh_objs hub)(wa_waiter a \<mapsto>
         \<lparr>w_key_filter = wa_key a, w_events = [], w_overflow = False\<rparr>)\<rparr>) (wa_waiter a),
     if wa_from a > 0 then W_current else W_deadline)"
| "Watch_step L P a obs db hub W_current = (hub, W_iter (CurrentRevisionLocked L db))"
| "Watch_step L P a obs db hub (W_iter cur) = (hub, W_replay cur db)"
| "Watch_step L P a obs db hub (W_replay cur db_it) =
    (case ReplayEventsLocked L P db_it db (wa_from a) cur (wa_key a) (i32 (int (wh_max hub))) of
       Inl e \<Rightarrow> (hub, W_throw e)
     | Inr (True, replay, rcode) \<Rightarrow>
         if replay \<noteq> [] then
           (drop_waiter (Unregister hub (wa_waiter a)) (wa_waiter a),
            W_return True (WatchResult_init\<lparr>wr_events := replay,
              wr_current_revision := ev_revision (last replay)\<rparr>))
         else (hub, W_deadline)
     | Inr (False, replay, rcode) \<Rightarrow>
         if rcode = COMPACTED then
           (drop_waiter (Unregister hub (wa_waiter a)) (wa_waiter a),
            W_return False (WatchResult_init\<lparr>wr_code := COMPACTED, wr_message := compacted_message,
              wr_current_revision := CurrentRevisionLocked L db\<rparr>))
         else (hub, W_deadline))"
| "Watch_step L P a obs db hub W_deadline =
    (hub, W_wait (let deadline = o_from_now obs (wa_timeout_ms a * 1000)
                  in if wa_server_deadline_us a > 0 \<and> TimespecLess (FromEpochUs (wa_server_deadline_us a)) deadline
                     then FromEpochUs (wa_server_deadline_us a) else deadline))"
| "Watch_step L P a obs db hub (W_wait deadline) =
    (hub, case wh_objs hub (wa_waiter a) of
            None \<Rightarrow> W_unregister
          | Some w \<Rightarrow>
              if w_events w = [] \<and> \<not> w_overflow w then
                (if o_canceled obs \<or> o_timed_out obs then W_unregister else W_wait deadline)
              else W_unregister)"
| "Watch_step L P a obs db hub W_unregister = (Unregister hub (wa_waiter a), W_collect)"
| "Watch_step L P a obs db hub W_collect =
    (case wh_objs hub (wa_waiter a) of
       None \<Rightarrow> (hub, W_last False)
     | Some w \<Rightarrow>
         if w_overflow w then (hub, W_last True)
         else if w_events w \<noteq> [] then
           (drop_waiter hub (wa_waiter a),
            W_return True (WatchResult_init\<lparr>wr_events := w_events w,
              wr_current_revision := ev_revision (last (w_events w))\<rparr>))
         else (hub, W_last False))"
| "Watch_step L P a obs db hub (W_last overflow) =
    (drop_waiter hub (wa_waiter a),
     if overflow then
       W_return False (WatchResult_init\<lparr>wr_code := INTERNAL,
         wr_message := ''watch buffer overflow (slow consumer), reconnect with current_revision'',
         wr_current_revision := CurrentRevisionLocked L db\<rparr>)
     else W_return True (WatchResult_init\<lparr>wr_current_revision := CurrentRevisionLocked L db\<rparr>))"
| "Watch_step L P a obs db hub (W_return r out) = (hub, W_return r out)"
| "Watch_step L P a obs db hub (W_throw e) = (hub, W_throw e)"

section \<open>Delivery\<close>

text \<open>A delivery that does not overflow appends the matching events, in order.\<close>

definition key_match :: "string \<Rightarrow> WatchEvent \<Rightarrow> bool" where
  "key_match key e \<longleftrightarrow> key = [] \<or> ev_key e = key"

lemma Matches_eq: "Matches w e \<longleftrightarrow> key_match (w_key_filter w) e"
  by (auto simp: Matches_def key_match_def)

lemma deliver_filter [simp]: "w_key_filter (deliver n w es) = w_key_filter w"
  by (induction n w es rule: deliver.induct) simp_all

lemma deliver_overflow_sticky: "w_overflow w \<Longrightarrow> w_overflow (deliver n w es)"
  by (induction n w es rule: deliver.induct) simp_all

lemma deliver_events:
  "\<not> w_overflow (deliver n w es) \<Longrightarrow>
    w_events (deliver n w es) = w_events w @ filter (key_match (w_key_filter w)) es"
proof (induction n w es rule: deliver.induct)
  case (2 n sp e events)
  then show ?case by (auto simp: Matches_eq split: if_splits)
qed simp

text \<open>The buffer never exceeds its limit.\<close>

lemma deliver_bound: "length (w_events w) \<le> n \<Longrightarrow> length (w_events (deliver n w es)) \<le> n"
  by (induction n w es rule: deliver.induct) auto

lemma hub_simps [simp]:
  "wh_max (Register hub w) = wh_max hub" "wh_objs (Register hub w) = wh_objs hub"
  "wh_waiters (Register hub w) = wh_waiters hub @ [w]"
  "wh_max (Unregister hub w) = wh_max hub" "wh_objs (Unregister hub w) = wh_objs hub"
  "wh_max (drop_waiter hub w) = wh_max hub" "wh_waiters (drop_waiter hub w) = wh_waiters hub"
  "wh_max (Broadcast_one es i hub) = wh_max hub"
  "wh_waiters (Broadcast_one es i hub) = wh_waiters hub"
  by (simp_all add: Register_def Unregister_def drop_waiter_def Broadcast_one_def split: option.split)

lemma Unregister_waiters: "set (wh_waiters (Unregister hub w)) \<subseteq> set (wh_waiters hub)"
  "wh_objs hub w \<noteq> None \<Longrightarrow> w \<notin> set (wh_waiters (Unregister hub w))"
  "distinct (wh_waiters hub) \<Longrightarrow> distinct (wh_waiters (Unregister hub w))"
  by (auto simp: Unregister_def)

lemma Broadcast_one_objs:
  "wh_objs (Broadcast_one es i hub) w =
    (if w = i then map_option (\<lambda>sp. deliver (wh_max hub) sp es) (wh_objs hub w) else wh_objs hub w)"
  by (simp add: Broadcast_one_def split: option.split)

end
