(* ===== verification/CmdCodec.thy ===== *)
theory CmdCodec
  imports StoreOps
begin

text \<open>
  RaftCmd on the wire.  The log carries serialised commands (src/src/raft/raft_node.cpp writes
  them, src/src/raft/state_machine.cpp parses them); the generated serialisation code is the
  parameter \<open>cmd_codec\<close> with the round trip that protobuf documents, and a reference codec
  shows that the laws can hold.
\<close>

section \<open>The interface\<close>

text \<open>SerializeToZeroCopyStream and ParseFromZeroCopyStream.\<close>

record cmd_codec =
  ser_cmd :: "RaftCmd \<Rightarrow> bytes"
  parse_cmd :: "bytes \<Rightarrow> RaftCmd option"

locale cmd_protobuf =
  fixes Q :: cmd_codec and utf8 :: "string \<Rightarrow> bool"
  assumes parse_ser_cmd: "cmd_fits utf8 cmd \<Longrightarrow> parse_cmd Q (ser_cmd Q cmd) = Some cmd"
    and parse_cmd_fits: "parse_cmd Q raw = Some cmd \<Longrightarrow> cmd_fits utf8 cmd"

section \<open>A reference codec\<close>

text \<open>A tag, then the strings in the marked form of \<open>mark_bytes\<close>.\<close>

fun ref_ser_puts :: "(string \<times> string) list \<Rightarrow> bytes" where
  "ref_ser_puts [] = []"
| "ref_ser_puts ((k, v) # kvs) = mark_bytes k @ mark_bytes v @ ref_ser_puts kvs"

fun ref_parse_puts :: "nat \<Rightarrow> bytes \<Rightarrow> (string \<times> string) list option" where
  "ref_parse_puts n [] = Some []"
| "ref_parse_puts 0 raw = None"
| "ref_parse_puts (Suc n) raw =
    (case unmark_bytes raw of None \<Rightarrow> None | Some (k, r1) \<Rightarrow>
      (case unmark_bytes r1 of None \<Rightarrow> None | Some (v, r2) \<Rightarrow>
        map_option ((#) (k, v)) (ref_parse_puts n r2)))"

fun ref_ser_cmd :: "RaftCmd \<Rightarrow> bytes" where
  "ref_ser_cmd (Cmd_put k v) = CHR 0x01 # mark_bytes k @ mark_bytes v"
| "ref_ser_cmd (Cmd_delete k) = CHR 0x02 # mark_bytes k"
| "ref_ser_cmd (Cmd_cas k e v) = CHR 0x03 # mark_bytes k @ mark_bytes e @ mark_bytes v"
| "ref_ser_cmd (Cmd_publish k v) = CHR 0x04 # mark_bytes k @ mark_bytes v"
| "ref_ser_cmd (Cmd_rollback k n) = CHR 0x05 # mark_bytes k @ EncodeUint64 (u64 n)"
| "ref_ser_cmd (Cmd_batch_put kvs) = CHR 0x06 # ref_ser_puts kvs"
| "ref_ser_cmd Cmd_not_set = []"

definition unmark2 :: "(string \<Rightarrow> string \<Rightarrow> RaftCmd) \<Rightarrow> bytes \<Rightarrow> RaftCmd option" where
  "unmark2 f raw = (case unmark_bytes raw of None \<Rightarrow> None | Some (a, r) \<Rightarrow>
     (case unmark_bytes r of None \<Rightarrow> None | Some (b, _) \<Rightarrow> Some (f a b)))"

definition ref_parse_cmd :: "bytes \<Rightarrow> RaftCmd option" where
  "ref_parse_cmd raw =
    (case raw of
       [] \<Rightarrow> Some Cmd_not_set
     | t # r \<Rightarrow>
         if t = CHR 0x01 then unmark2 Cmd_put r
         else if t = CHR 0x02 then map_option (\<lambda>(k, _). Cmd_delete k) (unmark_bytes r)
         else if t = CHR 0x03 then
           (case unmark_bytes r of None \<Rightarrow> None | Some (k, r1) \<Rightarrow> unmark2 (Cmd_cas k) r1)
         else if t = CHR 0x04 then unmark2 Cmd_publish r
         else if t = CHR 0x05 then
           map_option (\<lambda>(k, r1). Cmd_rollback k (s64 (DecodeUint64 r1))) (unmark_bytes r)
         else if t = CHR 0x06 then map_option Cmd_batch_put (ref_parse_puts (length r) r)
         else None)"

definition ref_cmd_codec :: cmd_codec where
  "ref_cmd_codec = \<lparr>ser_cmd = ref_ser_cmd, parse_cmd = ref_parse_cmd\<rparr>"

lemma unmark_mark_end: "unmark_bytes (mark_bytes s) = Some (s, [])"
  using unmark_mark_bytes [of s "[]"] by simp

lemma mark_bytes_nonempty [simp]: "mark_bytes s \<noteq> []"
  by (cases s) simp_all

lemma ref_parse_ser_puts:
  "length (ref_ser_puts kvs) \<le> n \<Longrightarrow> ref_parse_puts n (ref_ser_puts kvs) = Some kvs"
proof (induction kvs arbitrary: n rule: ref_ser_puts.induct)
  case (2 k v kvs)
  have "length (mark_bytes k) > 0" by simp
  with "2.prems" have "length (ref_ser_puts kvs) < n" by (simp del: length_greater_0_conv)
  then obtain m where n: "n = Suc m" "length (ref_ser_puts kvs) \<le> m" by (cases n) auto
  obtain x xs where raw: "ref_ser_puts ((k, v) # kvs) = x # xs"
    by (cases "mark_bytes k") auto
  have "unmark_bytes (x # xs) = Some (k, mark_bytes v @ ref_ser_puts kvs)"
    unfolding raw [symmetric] by (simp add: unmark_mark_bytes)
  then have "ref_parse_puts (Suc m) (x # xs) = Some ((k, v) # kvs)"
    using "2.IH" [OF n(2)] by (simp add: unmark_mark_bytes)
  then show ?case by (simp only: n raw)
qed simp

interpretation ref_cmd_pb: cmd_protobuf ref_cmd_codec "\<lambda>_. True"
proof
  show "parse_cmd ref_cmd_codec (ser_cmd ref_cmd_codec cmd) = Some cmd" if "cmd_fits (\<lambda>_. True) cmd" for cmd
    using that
    by (cases cmd) (simp_all add: ref_cmd_codec_def ref_parse_cmd_def unmark2_def unmark_mark_bytes
        unmark_mark_end ref_parse_ser_puts s64_u64)
  show "cmd_fits (\<lambda>_. True) cmd" if "parse_cmd ref_cmd_codec raw = Some cmd" for raw cmd
    using that by (cases cmd) (auto simp: ref_cmd_codec_def ref_parse_cmd_def unmark2_def i64_s64
        split: list.splits if_splits option.splits)
qed

end
