(* ===== verification/StateMachine.thy ===== *)
theory StateMachine
  imports Replicas WatchHub CmdCodec
begin

text \<open>
  src/src/raft/state_machine.h and state_machine.cpp: the state machine that braft drives.
  braft is a third-party library: a batch of committed entries is a list, each with the bytes of
  the log entry and, on the node that proposed it, the closure to run; a snapshot writer and
  reader are the record \<open>snapshot_files\<close>.  Closures live in a heap of their own (\<open>nat \<Rightarrow> closure\<close>),
  since the state machine writes through pointers that the waiting request owns.
\<close>

section \<open>Closures\<close>

text \<open>What the sources use of butil::Status: ok(), set_error and error_str().\<close>

datatype butil_status = Status_ok | Status_error int string

fun error_str :: "butil_status \<Rightarrow> string" where
  "error_str Status_ok = ''OK''"
| "error_str (Status_error code msg) = msg"

text \<open>
  A closure: its status, the ApplyResult that out_ of an ApplyClosure points to (None for a closure
  of another class, where the dynamic_cast fails), and the flag of its WaitState.
\<close>

record closure =
  cl_status :: butil_status
  cl_out :: "ApplyResult option"
  cl_done :: bool

type_synonym closures = "nat \<Rightarrow> closure"

definition ApplyClosure_init :: "ApplyResult \<Rightarrow> closure" where
  "ApplyClosure_init out = \<lparr>cl_status = Status_ok, cl_out = Some out, cl_done = False\<rparr>"

definition Finish :: "ApplyResult \<Rightarrow> closure \<Rightarrow> closure" where
  "Finish result c = c\<lparr>cl_out := Some result\<rparr>"

definition Run :: "closure \<Rightarrow> closure" where
  "Run c = (case cl_out c of
     None \<Rightarrow> c
   | Some out \<Rightarrow>
       (if cl_status c \<noteq> Status_ok \<and> ar_code out = OK
        then c\<lparr>cl_out := Some (out\<lparr>ar_code := INTERNAL, ar_message := error_str (cl_status c)\<rparr>), cl_done := True\<rparr>
        else c\<lparr>cl_done := True\<rparr>))"

text \<open>WaitFor returns once the flag is set.\<close>

definition WaitFor :: "closure \<Rightarrow> ApplyResult option" where
  "WaitFor c = (if cl_done c then cl_out c else None)"

section \<open>The state machine\<close>

record 'db ConfigraftStateMachine =
  sm_store :: 'db
  sm_hub :: "WatchHub option"
  sm_leader_term :: int

definition StateMachine_init :: "'db \<Rightarrow> WatchHub option \<Rightarrow> 'db ConfigraftStateMachine" where
  "StateMachine_init store hub = \<lparr>sm_store = store, sm_hub = hub, sm_leader_term = -1\<rparr>"

record log_entry =
  le_data :: bytes
  le_done :: "nat option"

abbreviation EINVAL :: int where "EINVAL \<equiv> 22"
abbreviation EIO :: int where "EIO \<equiv> 5"

definition set_error :: "int \<Rightarrow> string \<Rightarrow> closure \<Rightarrow> closure" where
  "set_error code msg c = c\<lparr>cl_status := Status_error code msg\<rparr>"

definition report :: "ApplyResult \<Rightarrow> closure \<Rightarrow> closure" where
  "report result c0 =
    (let c = (if cl_out c0 \<noteq> None then Finish result c0 else c0)
     in if ar_code result \<noteq> OK \<and> cl_status c = Status_ok
        then set_error EIO (if ar_message result = [] then ''store apply failed'' else ar_message result) c
        else c)"

definition broadcast_result :: "ApplyResult \<Rightarrow> WatchHub option \<Rightarrow> WatchHub option" where
  "broadcast_result result hubp =
    (case hubp of
       None \<Rightarrow> None
     | Some hub \<Rightarrow> if ar_events result \<noteq> [] then Some (Broadcast hub (ar_events result)) else Some hub)"

text \<open>One turn of the loop: the closure guard has its closure run whatever happens.\<close>

definition on_apply_entry ::
  "'db leveldb \<Rightarrow> codec \<Rightarrow> cmd_codec \<Rightarrow> log_entry \<Rightarrow> 'db ConfigraftStateMachine \<Rightarrow> closures \<Rightarrow>
    'db ConfigraftStateMachine \<times> closures" where
  "on_apply_entry L P Q e sm cls =
    (case parse_cmd Q (le_data e) of
       None \<Rightarrow>
         (sm, case le_done e of
                None \<Rightarrow> cls
              | Some d \<Rightarrow> cls(d := set_error EINVAL ''bad raft cmd'' (cls d)))
     | Some cmd \<Rightarrow>
         (let (db, result) = ApplyCmdToStore L P (sm_store sm) cmd ApplyResult_init
          in (sm\<lparr>sm_store := db, sm_hub := broadcast_result result (sm_hub sm)\<rparr>,
              case le_done e of
                None \<Rightarrow> cls
              | Some d \<Rightarrow> cls(d := report result (cls d)))))"

text \<open>The batch; the last component lists the closures handed over to run asynchronously.\<close>

fun on_apply ::
  "'db leveldb \<Rightarrow> codec \<Rightarrow> cmd_codec \<Rightarrow> log_entry list \<Rightarrow> 'db ConfigraftStateMachine \<Rightarrow> closures \<Rightarrow>
    'db ConfigraftStateMachine \<times> closures \<times> nat list" where
  "on_apply L P Q [] sm cls = (sm, cls, [])"
| "on_apply L P Q (e # es) sm cls =
    (let (sm1, cls1) = on_apply_entry L P Q e sm cls;
         (sm2, cls2, runs) = on_apply L P Q es sm1 cls1
     in (sm2, cls2, (case le_done e of None \<Rightarrow> runs | Some d \<Rightarrow> d # runs)))"

definition on_leader_start :: "int \<Rightarrow> 'db ConfigraftStateMachine \<Rightarrow> 'db ConfigraftStateMachine" where
  "on_leader_start term sm = sm\<lparr>sm_leader_term := term\<rparr>"

definition on_leader_stop :: "'db ConfigraftStateMachine \<Rightarrow> 'db ConfigraftStateMachine" where
  "on_leader_stop sm = sm\<lparr>sm_leader_term := -1\<rparr>"

definition is_leader :: "'db ConfigraftStateMachine \<Rightarrow> bool" where
  "is_leader sm \<longleftrightarrow> sm_leader_term sm > 0"

section \<open>Snapshots\<close>

text \<open>
  ProtoBufFile(path).save and load, SnapshotWriter::add_file and SnapshotReader::get_file_meta (with
  the directory of the writer or reader), each with whether it returned 0.
\<close>

record 'sn snapshot_files =
  sf_save :: "'sn \<Rightarrow> string \<Rightarrow> SnapshotData \<Rightarrow> 'sn \<times> bool"
  sf_add_file :: "'sn \<Rightarrow> string \<Rightarrow> string \<Rightarrow> 'sn \<times> bool"
  sf_get_file_meta :: "'sn \<Rightarrow> string \<Rightarrow> string \<Rightarrow> bool"
  sf_load :: "'sn \<Rightarrow> string \<Rightarrow> SnapshotData option"

text \<open>
  on_snapshot_save only starts a thread with its arguments, the directory of the writer and the
  closure; the third member, the pointer to the state machine's own store, is read through when
  save_snapshot runs.
\<close>

record SnapshotArg =
  sa_writer :: string
  sa_done :: nat

definition on_snapshot_save :: "string \<Rightarrow> nat \<Rightarrow> SnapshotArg list \<Rightarrow> SnapshotArg list" where
  "on_snapshot_save writer_path done threads = threads @ [\<lparr>sa_writer = writer_path, sa_done = done\<rparr>]"

text \<open>The thread: the files, and the status left in the closure, which then runs.\<close>

definition save_snapshot ::
  "'db leveldb \<Rightarrow> codec \<Rightarrow> 'sn snapshot_files \<Rightarrow> 'sn \<Rightarrow> string \<Rightarrow> 'db \<Rightarrow> 'sn \<times> butil_status" where
  "save_snapshot L P F sn writer_path store =
    (let path = writer_path @ ''/data'';
         data = ExportSnapshot L P store;
         (sn1, saved) = sf_save F sn path data
     in if \<not> saved then (sn1, Status_error EIO ''fail to save snapshot file'')
        else
          let (sn2, added) = sf_add_file F sn1 writer_path ''data''
          in if \<not> added then (sn2, Status_error EIO ''fail to add snapshot file'')
             else (sn2, Status_ok))"

text \<open>The store afterwards and the result, or the exception of create_directories.\<close>

definition on_snapshot_load ::
  "'db leveldb \<Rightarrow> codec \<Rightarrow> ('fs, 'db) disk \<Rightarrow> 'sn snapshot_files \<Rightarrow> 'fs \<Rightarrow> 'sn \<Rightarrow> string \<Rightarrow>
    'db Store \<Rightarrow> ('db Store \<times> int) open_result" where
  "on_snapshot_load L P D F fs sn reader_path store =
    (if \<not> sf_get_file_meta F sn reader_path ''data'' then Opened (store, -1)
     else (case sf_load F sn (reader_path @ ''/data'') of
         None \<Rightarrow> Opened (store, -1)
       | Some data \<Rightarrow>
           (case LoadSnapshot L D P fs store data of
              Open_throws \<Rightarrow> Open_throws
            | Open_failed err \<Rightarrow> Opened (store, -1)
            | Opened (store', ok) \<Rightarrow> Opened (store', if ok then 0 else -1))))"

section \<open>The loop over a batch\<close>

definition entry_cmds :: "cmd_codec \<Rightarrow> log_entry list \<Rightarrow> RaftCmd list" where
  "entry_cmds Q es = List.map_filter (\<lambda>e. parse_cmd Q (le_data e)) es"

definition dones :: "log_entry list \<Rightarrow> nat list" where
  "dones es = List.map_filter le_done es"

text \<open>What the proposer of an entry is to be told when the entry meets the store \<open>db\<close>.\<close>

definition bad_cmd_result :: ApplyResult where
  "bad_cmd_result = ApplyResult_init\<lparr>ar_code := INTERNAL, ar_message := ''bad raft cmd''\<rparr>"

definition entry_result :: "'db leveldb \<Rightarrow> codec \<Rightarrow> cmd_codec \<Rightarrow> 'db \<Rightarrow> log_entry \<Rightarrow> ApplyResult" where
  "entry_result L P Q db e =
    (case parse_cmd Q (le_data e) of
       None \<Rightarrow> bad_cmd_result
     | Some cmd \<Rightarrow> snd (ApplyCmdToStore L P db cmd ApplyResult_init))"

lemma entry_cmds_simps [simp]:
  "entry_cmds Q [] = []"
  "entry_cmds Q (e # es) = (case parse_cmd Q (le_data e) of None \<Rightarrow> entry_cmds Q es
     | Some cmd \<Rightarrow> cmd # entry_cmds Q es)"
  by (simp_all add: entry_cmds_def map_filter_simps split: option.split)

lemma dones_simps [simp]:
  "dones [] = []" "dones (e # es) = (case le_done e of None \<Rightarrow> dones es | Some d \<Rightarrow> d # dones es)"
  by (simp_all add: dones_def map_filter_simps split: option.split)

lemma dones_append [simp]: "dones (xs @ ys) = dones xs @ dones ys"
  by (induction xs) (simp_all split: option.split)

lemma on_apply_append:
  "on_apply L P Q (xs @ ys) sm cls =
    (let (sm1, cls1, r1) = on_apply L P Q xs sm cls;
         (sm2, cls2, r2) = on_apply L P Q ys sm1 cls1
     in (sm2, cls2, r1 @ r2))"
  by (induction xs arbitrary: sm cls) (simp_all add: Let_def case_prod_beta split: option.split)

text \<open>Closures of other entries are left alone.\<close>

lemma on_apply_entry_frame: "le_done e \<noteq> Some d \<Longrightarrow> snd (on_apply_entry L P Q e sm cls) d = cls d"
  by (auto simp: on_apply_entry_def case_prod_beta Let_def split: option.split)

lemma on_apply_frame: "d \<notin> set (dones es) \<Longrightarrow> fst (snd (on_apply L P Q es sm cls)) d = cls d"
proof (induction es arbitrary: sm cls)
  case (Cons e es)
  then have "le_done e \<noteq> Some d" "d \<notin> set (dones es)" by (auto split: option.splits)
  with Cons.IH show ?case by (simp add: case_prod_beta Let_def on_apply_entry_frame)
qed simp

text \<open>The store follows the log of the commands that parse; every closure is handed over once.\<close>

lemma on_apply_entry_sm:
  "sm_store (fst (on_apply_entry L P Q e sm cls)) =
     (case parse_cmd Q (le_data e) of None \<Rightarrow> sm_store sm
      | Some cmd \<Rightarrow> fst (ApplyCmdToStore L P (sm_store sm) cmd ApplyResult_init))"
  "sm_leader_term (fst (on_apply_entry L P Q e sm cls)) = sm_leader_term sm"
  by (simp_all add: on_apply_entry_def case_prod_beta Let_def split: option.split)

lemma on_apply_store:
  "sm_store (fst (on_apply L P Q es sm cls)) = fst (apply_log L P (sm_store sm) (entry_cmds Q es))"
  "sm_leader_term (fst (on_apply L P Q es sm cls)) = sm_leader_term sm"
  "snd (snd (on_apply L P Q es sm cls)) = dones es"
  by (induction es arbitrary: sm cls)
    (simp_all add: case_prod_beta Let_def on_apply_entry_sm split: option.split)

text \<open>The events of every command are broadcast, in the order of the log.\<close>

lemma broadcast_result_eq:
  "broadcast_result r hub = map_option (\<lambda>h. Broadcast h (ar_events r)) hub"
  by (simp add: broadcast_result_def Broadcast_def split: option.split)

lemma on_apply_hub:
  "sm_hub (fst (on_apply L P Q es sm cls)) = map_option
     (\<lambda>h. foldl (\<lambda>h r. Broadcast h (ar_events r)) h (snd (apply_log L P (sm_store sm) (entry_cmds Q es))))
     (sm_hub sm)"
proof (induction es arbitrary: sm cls)
  case (Cons e es)
  then show ?case
    by (cases "parse_cmd Q (le_data e)")
      (simp_all add: case_prod_beta Let_def on_apply_entry_def broadcast_result_eq comp_def
        option.map_comp)
qed (simp add: option.map_ident)

text \<open>A closure of the request that proposed an entry, after the entry was applied and it ran.\<close>

lemma report_runs:
  assumes "c = ApplyClosure_init ApplyResult_init"
  shows "WaitFor (Run (report r c)) = Some r"
    and "WaitFor (Run (set_error EINVAL ''bad raft cmd'' c)) = Some bad_cmd_result"
  using assms
  by (simp_all add: ApplyClosure_init_def report_def Finish_def set_error_def Run_def WaitFor_def
      bad_cmd_result_def Let_def ApplyResult_init_def)

lemma on_apply_entry_closure:
  assumes "le_done e = Some d" "cls d = ApplyClosure_init ApplyResult_init"
  shows "WaitFor (Run (snd (on_apply_entry L P Q e sm cls) d)) = Some (entry_result L P Q (sm_store sm) e)"
  using assms report_runs [OF assms(2)]
  by (simp add: on_apply_entry_def entry_result_def case_prod_beta Let_def split: option.split)

lemma on_apply_closure:
  assumes "es = xs @ e # ys" "le_done e = Some d" "d \<notin> set (dones xs)" "d \<notin> set (dones ys)"
    and "cls d = ApplyClosure_init ApplyResult_init"
  shows "WaitFor (Run (fst (snd (on_apply L P Q es sm cls)) d)) = Some (entry_result L P Q
     (fst (apply_log L P (sm_store sm) (entry_cmds Q xs))) e)"
proof -
  obtain sm1 cls1 r1 where xs: "on_apply L P Q xs sm cls = (sm1, cls1, r1)" by (metis prod_cases3)
  obtain sm2 cls2 where e: "on_apply_entry L P Q e sm1 cls1 = (sm2, cls2)" by fastforce
  have "cls1 d = cls d" using on_apply_frame [OF assms(3), of L P Q sm cls] xs by simp
  then have "WaitFor (Run (cls2 d)) = Some (entry_result L P Q (sm_store sm1) e)"
    using on_apply_entry_closure [OF assms(2), of cls1 L P Q sm1] assms(5) e by simp
  moreover have "fst (snd (on_apply L P Q es sm cls)) d = cls2 d"
    using on_apply_frame [OF assms(4), of L P Q sm2 cls2] xs e
    by (simp add: assms(1) on_apply_append case_prod_beta Let_def)
  moreover have "sm_store sm1 = fst (apply_log L P (sm_store sm) (entry_cmds Q xs))"
    using on_apply_store(1) [of L P Q xs sm cls] xs by simp
  ultimately show ?thesis by simp
qed

section \<open>Properties\<close>

text \<open>
  (C11) The state machine applies a batch of committed entries as the log it is: whatever bytes
  the entries hold, the store ends where applying the commands that parse ends, their events are
  broadcast in log order, and every closure is handed over to run exactly once.  The
  request that proposed an entry gets the result of its own command on the store that the entries
  before it left, or INTERNAL with the message bad raft cmd if its bytes do not parse.
\<close>

theorem on_apply_results:
  assumes "es = xs @ e # ys" "le_done e = Some d" "d \<notin> set (dones xs)" "d \<notin> set (dones ys)"
    and "cls d = ApplyClosure_init ApplyResult_init"
    and "on_apply L P Q es sm cls = (sm', cls', runs)"
  shows "WaitFor (Run (cls' d)) = Some (entry_result L P Q
       (fst (apply_log L P (sm_store sm) (entry_cmds Q xs))) e) \<and>
     sm_store sm' = fst (apply_log L P (sm_store sm) (entry_cmds Q es)) \<and>
     sm_hub sm' = map_option (\<lambda>h. foldl (\<lambda>h r. Broadcast h (ar_events r)) h
       (snd (apply_log L P (sm_store sm) (entry_cmds Q es)))) (sm_hub sm) \<and>
     runs = dones es"
  using on_apply_closure [OF assms(1-4), of cls L P Q sm] assms(5) on_apply_store [of L P Q es sm cls]
    on_apply_hub [of L P Q es sm cls] assms(6) by simp

theorem on_apply_results_witness:
  "let es = [\<lparr>le_data = ref_ser_cmd (Cmd_put ''a'' ''1''), le_done = None\<rparr>,
             \<lparr>le_data = [CHR 0xFF], le_done = Some 1\<rparr>,
             \<lparr>le_data = ref_ser_cmd (Cmd_cas ''a'' ''1'' ''2''), le_done = Some 0\<rparr>];
       (sm', cls', runs) = on_apply mem_leveldb ref_codec ref_cmd_codec es
         (StateMachine_init [] None) (\<lambda>_. ApplyClosure_init ApplyResult_init)
   in runs = [1, 0] \<and> map_option ar_code (WaitFor (Run (cls' 0))) = Some OK \<and>
      map_option ar_code (WaitFor (Run (cls' 1))) = Some INTERNAL"
proof -
  let ?e0 = "\<lparr>le_data = ref_ser_cmd (Cmd_put ''a'' ''1''), le_done = None\<rparr>"
  let ?e1 = "\<lparr>le_data = [CHR 0xFF], le_done = Some 1\<rparr>"
  let ?e2 = "\<lparr>le_data = ref_ser_cmd (Cmd_cas ''a'' ''1'' ''2''), le_done = Some 0\<rparr>"
  let ?cls = "\<lambda>_. ApplyClosure_init ApplyResult_init"
  obtain sm' cls' runs where run: "on_apply mem_leveldb ref_codec ref_cmd_codec [?e0, ?e1, ?e2]
      (StateMachine_init [] None) ?cls = (sm', cls', runs)" by (metis prod_cases3)
  have "ar_code (entry_result mem_leveldb ref_codec ref_cmd_codec (fst (apply_log mem_leveldb ref_codec []
      (entry_cmds ref_cmd_codec [?e0, ?e1]))) ?e2) = OK"
    "ar_code (entry_result mem_leveldb ref_codec ref_cmd_codec (fst (apply_log mem_leveldb ref_codec []
      (entry_cmds ref_cmd_codec [?e0]))) ?e1) = INTERNAL"
    by code_simp+
  moreover have "sm_store (StateMachine_init [] None) = ([] :: mem_db)" by (simp add: StateMachine_init_def)
  ultimately show ?thesis
    using on_apply_results [OF _ _ _ _ _ run, of "[?e0, ?e1]" ?e2 "[]" 0]
      on_apply_results [OF _ _ _ _ _ run, of "[?e0]" ?e1 "[?e2]" 1] run
    by (simp add: Let_def)
qed

end
