(* ===== verification/StoreApi.thy ===== *)
theory StoreApi
  imports StoreOps
begin

text \<open>
  The contract of the store towards the nodes (src/src/raft) as a locale: a state has an
  invariant and denotes an abstract multi-version store; applying a command follows \<open>s_apply\<close> or
  reports INTERNAL with the abstract state unchanged; the reads are those of the abstract store.
  The laws a client sees (a write is read back, other keys are untouched, a rollback republishes
  the old value) are proved once from the contract, and the contract is interpreted on the store
  of src/src/store and on the abstract store itself.
\<close>

section \<open>The contract\<close>

locale mvcc_store =
  fixes view :: "'s \<Rightarrow> mvcc" and inv :: "'s \<Rightarrow> bool" and fits :: "RaftCmd \<Rightarrow> bool"
    and apply_cmd :: "'s \<Rightarrow> RaftCmd \<Rightarrow> 's \<times> ApplyResult"
    and get :: "'s \<Rightarrow> string \<Rightarrow> KV option \<times> Code"
    and get_config :: "'s \<Rightarrow> string \<Rightarrow> int \<Rightarrow> KV option \<times> Code"
    and current_revision :: "'s \<Rightarrow> int"
  assumes apply_law: "inv s \<Longrightarrow> fits cmd \<Longrightarrow> nn64 (m_rev (view s) + cmd_cost cmd) \<Longrightarrow>
      apply_cmd s cmd = (s', r) \<Longrightarrow> inv s' \<and>
      (s_apply (view s) cmd = (view s', r) \<or>
       view s' = view s \<and> ar_code r = INTERNAL \<and> ar_events r = [])"
    and inv_view: "inv s \<Longrightarrow> mvcc_inv (view s)"
    and get_law: "inv s \<Longrightarrow> get s k = (case s_get (view s) k of None \<Rightarrow> (None, KEY_NOT_FOUND)
      | Some kv \<Rightarrow> (Some kv, OK))"
    and get_config_law: "inv s \<Longrightarrow> i64 v \<Longrightarrow> get_config s k v = (case s_get_config (view s) k v of
        None \<Rightarrow> (None, if v \<le> 0 then KEY_NOT_FOUND else VERSION_NOT_FOUND)
      | Some kv \<Rightarrow> (Some kv, OK))"
    and current_revision_law: "current_revision s = m_rev (view s)"
begin

lemma applied:
  assumes "inv s" "fits cmd" "nn64 (m_rev (view s) + cmd_cost cmd)" "apply_cmd s cmd = (s', r)"
    and "ar_code r \<noteq> INTERNAL"
  shows "view s' = fst (s_apply (view s) cmd)" "r = snd (s_apply (view s) cmd)" "inv s'"
  using apply_law [OF assms(1-4)] assms(5) by auto

text \<open>The commands that store a value under a key.\<close>

lemma write_read:
  assumes "inv s" "fits cmd" "nn64 (m_rev (view s) + cmd_cost cmd)" "apply_cmd s cmd = (s', r)"
    and "ar_code r = OK" "cmd \<in> {Cmd_put k v, Cmd_publish k v, Cmd_cas k e v}"
  shows "get s' k = (Some (ar_kv r), OK) \<and> kv_value (ar_kv r) = v \<and>
    kv_revision (ar_kv r) = current_revision s + 1 \<and> current_revision s' = current_revision s + 1 \<and>
    (\<forall>k'. k' \<noteq> k \<longrightarrow> get s' k' = get s k')"
proof -
  have "ar_code r \<noteq> INTERNAL" using assms(5) by simp
  note ap = applied [OF assms(1-4) this]
  show ?thesis
    using assms(1,5,6) ap
    by (auto simp: get_law current_revision_law s_get_def s_put_def s_publish_def Let_def s_ok_def
        ApplyResult_init_def split: if_splits)
qed

lemma delete_read:
  assumes "inv s" "fits (Cmd_delete k)" "nn64 (m_rev (view s) + 1)" "apply_cmd s (Cmd_delete k) = (s', r)"
    and "ar_code r = OK"
  shows "get s' k = (None, KEY_NOT_FOUND) \<and> kv_deleted (ar_kv r) \<and>
    current_revision s' = current_revision s + 1 \<and> (\<forall>k'. k' \<noteq> k \<longrightarrow> get s' k' = get s k')"
proof -
  have "ar_code r \<noteq> INTERNAL" "nn64 (m_rev (view s) + cmd_cost (Cmd_delete k))" using assms(3,5) by simp_all
  note ap = applied [OF assms(1,2) this(2) assms(4) this(1)]
  show ?thesis
    using assms(1) ap
    by (auto simp: get_law current_revision_law s_get_def s_delete_def Let_def s_ok_def
        ApplyResult_init_def)
qed

lemma publish_versions:
  assumes "inv s" "fits (Cmd_publish k v)" "nn64 (m_rev (view s) + 1)"
    and "apply_cmd s (Cmd_publish k v) = (s', r)" "ar_code r = OK"
  shows "get_config s' k (kv_version (ar_kv r)) = (Some (ar_kv r), OK) \<and>
    (\<forall>k' n. i64 n \<longrightarrow> 0 < n \<longrightarrow> (k', n) \<noteq> (k, kv_version (ar_kv r)) \<longrightarrow>
       get_config s' k' n = get_config s k' n)"
proof -
  have "ar_code r \<noteq> INTERNAL" "nn64 (m_rev (view s) + cmd_cost (Cmd_publish k v))" using assms(3,5) by simp_all
  note ap = applied [OF assms(1,2) this(2) assms(4) this(1)]
  note ver = mvcc_inv_version_bounds [OF inv_view [OF assms(1)], of k]
  have "i64 (s_version (view s) k)" using ver assms(3) by (simp add: i64_def nn64_def)
  with assms(1) ap ver show ?thesis
    by (auto simp: get_config_law s_get_config_def s_publish_def Let_def s_ok_def
        ApplyResult_init_def)
qed

text \<open>A rollback stores the value of the target as a new version; the target stays.\<close>

lemma rollback_restores:
  assumes "inv s" "fits (Cmd_rollback k n)" "nn64 (m_rev (view s) + 1)" "i64 n"
    and "apply_cmd s (Cmd_rollback k n) = (s', r)" "get_config s k n = (Some t, OK)"
    and "ar_code r \<noteq> INTERNAL"
  shows "ar_code r = OK \<and> get s' k = (Some (ar_kv r), OK) \<and> kv_value (ar_kv r) = kv_value t \<and>
    kv_revision (ar_kv r) = current_revision s + 1 \<and> (0 < n \<longrightarrow> get_config s' k n = (Some t, OK))"
proof -
  have "nn64 (m_rev (view s) + cmd_cost (Cmd_rollback k n))" using assms(3) by simp
  note ap = applied [OF assms(1,2) this assms(5,7)]
  have t: "s_get_config (view s) k n = Some t"
    using assms(1,4,6) by (simp add: get_config_law split: option.splits)
  have "s_version (view s) k \<noteq> n" if "0 < n"
  proof
    assume v: "s_version (view s) k = n"
    obtain kv where "m_cfg (view s) (k, n) = Some kv"
      using t \<open>0 < n\<close> by (auto simp: s_get_config_def split: option.splits)
    then show False
      using cfg_okD(6) [OF mvcc_invD(8) [OF inv_view [OF assms(1)]]] v
      by (fastforce simp: s_version_def)
  qed
  with assms(1,4) ap t show ?thesis
    by (auto simp: get_law get_config_law current_revision_law s_get_def s_get_config_def
        s_publish_def Let_def s_ok_def ApplyResult_init_def split: if_splits)
qed

end

section \<open>The store and the abstract store keep the contract\<close>

context store_env
begin

lemma store_is_mvcc_store:
  "mvcc_store (\<lambda>db. mvcc_of P (C db)) (\<lambda>db. store_inv P (C db)) (cmd_fits utf8)
    (\<lambda>db cmd. ApplyCmdToStore L P db cmd ApplyResult_init) (GetLocked L P) (GetConfigLocked L P)
    (CurrentRevisionLocked L)"
proof
  fix db cmd db' res
  assume a: "store_inv P (C db)" "cmd_fits utf8 cmd" "nn64 (m_rev (mvcc_of P (C db)) + cmd_cost cmd)"
    "ApplyCmdToStore L P db cmd ApplyResult_init = (db', res)"
  show "store_inv P (C db') \<and> (s_apply (mvcc_of P (C db)) cmd = (mvcc_of P (C db'), res) \<or>
      mvcc_of P (C db') = mvcc_of P (C db) \<and> ar_code res = INTERNAL \<and> ar_events res = [])"
    using apply_refines [OF a]
  proof
    assume "cmd_refused L db db' res"
    then show ?thesis
      using apply_keeps_inv [OF a] refused_unchanged [of db db' res] by (simp add: cmd_refused_def)
  qed (use apply_keeps_inv [OF a] in \<open>simp add: cmd_done_def\<close>)
next
  fix db k v assume a: "store_inv P (C db)" "i64 v"
  then have "layout P (C db)" by (simp add: store_inv_def)
  from GetConfig_refines [OF this a(2), of k]
  show "GetConfigLocked L P db k v = (case s_get_config (mvcc_of P (C db)) k v of
      None \<Rightarrow> (None, if v \<le> 0 then KEY_NOT_FOUND else VERSION_NOT_FOUND) | Some kv \<Rightarrow> (Some kv, OK))"
    by (cases "GetConfigLocked L P db k v") (auto split: option.split)
qed (auto simp: store_inv_def Get_refines CurrentRevision_refines)

end

sublocale store_env \<subseteq> api: mvcc_store "\<lambda>db. mvcc_of P (C db)" "\<lambda>db. store_inv P (C db)"
  "cmd_fits utf8" "\<lambda>db cmd. ApplyCmdToStore L P db cmd ApplyResult_init" "GetLocked L P"
  "GetConfigLocked L P" "CurrentRevisionLocked L"
  by (rule store_is_mvcc_store)

interpretation spec_store: mvcc_store "\<lambda>m. m" mvcc_inv "\<lambda>_. True" s_apply
  "\<lambda>m k. case s_get m k of None \<Rightarrow> (None, KEY_NOT_FOUND) | Some kv \<Rightarrow> (Some kv, OK)"
  "\<lambda>m k v. case s_get_config m k v of None \<Rightarrow> (None, if v \<le> 0 then KEY_NOT_FOUND else VERSION_NOT_FOUND)
     | Some kv \<Rightarrow> (Some kv, OK)" m_rev
  by unfold_locales (use mvcc_inv_apply in \<open>auto dest!: arg_cong [where f = fst] split: option.split\<close>)

section \<open>Properties\<close>

text \<open>
  A write is read back.  After a put, a publish or a compare-and-swap that returned OK, Get
  of the key returns the record in the result: the written value with the next revision, which
  is the store's revision then; no other key reads differently.
\<close>

lemma write_then_get:
  assumes "store_env L C P utf8" "store_inv P (C db)" "cmd_fits utf8 cmd"
    and "nn64 (CurrentRevisionLocked L db + cmd_cost cmd)"
    and "ApplyCmdToStore L P db cmd ApplyResult_init = (db', res)" "ar_code res = OK"
    and "cmd \<in> {Cmd_put k v, Cmd_publish k v, Cmd_cas k e v}"
  shows "GetLocked L P db' k = (Some (ar_kv res), OK) \<and> kv_value (ar_kv res) = v \<and>
    kv_revision (ar_kv res) = CurrentRevisionLocked L db + 1 \<and>
    CurrentRevisionLocked L db' = CurrentRevisionLocked L db + 1 \<and>
    (\<forall>k'. k' \<noteq> k \<longrightarrow> GetLocked L P db' k' = GetLocked L P db k')"
proof -
  have "nn64 (m_rev (mvcc_of P (C db)) + cmd_cost cmd)"
    using assms(4) by (simp add: store_env.CurrentRevision_refines [OF assms(1)])
  from mvcc_store.write_read [OF store_env.store_is_mvcc_store [OF assms(1)] assms(2,3) this assms(5-7)]
  show ?thesis .
qed

text \<open>
  A delete is final until the next write: Get of the key answers KEY_NOT_FOUND, the record
  is a tombstone, one revision is taken and no other key reads differently.
\<close>

lemma delete_then_get:
  assumes "store_env L C P utf8" "store_inv P (C db)" "utf8 k" "nn64 (CurrentRevisionLocked L db + 1)"
    and "ApplyCmdToStore L P db (Cmd_delete k) ApplyResult_init = (db', res)" "ar_code res = OK"
  shows "GetLocked L P db' k = (None, KEY_NOT_FOUND) \<and> kv_deleted (ar_kv res) \<and>
    CurrentRevisionLocked L db' = CurrentRevisionLocked L db + 1 \<and>
    (\<forall>k'. k' \<noteq> k \<longrightarrow> GetLocked L P db' k' = GetLocked L P db k')"
proof -
  have "nn64 (m_rev (mvcc_of P (C db)) + 1)" "cmd_fits utf8 (Cmd_delete k)"
    using assms(3,4) by (simp_all add: store_env.CurrentRevision_refines [OF assms(1)])
  from mvcc_store.delete_read [OF store_env.store_is_mvcc_store [OF assms(1)] assms(2) this(2,1) assms(5,6)]
  show ?thesis .
qed

end
