(* ===== verification/LocalNode.thy ===== *)
theory LocalNode
  imports StateMachine StoreApi
begin

text \<open>
  src/src/raft/node.h and local_node.cpp: the interface the services call (ConfigNode) and its
  single-node implementation.  ConfigNode is an abstract class; its virtual methods are the
  record \<open>ConfigNode\<close> over the state of a node.  LocalNode applies commands to its own store under
  a mutex, so its methods are functions of the store and the hub; Watch is the machine of
  \<open>WatchHub\<close>, and here only which machine is started.
\<close>

section \<open>Results\<close>

record GetResult =
  gr_code :: Code
  gr_message :: string
  gr_kv :: KV
  gr_kvs :: "KV list"
  gr_leader_id :: string

definition GetResult_init :: GetResult where
  "GetResult_init = \<lparr>gr_code = OK, gr_message = [], gr_kv = KV_default, gr_kvs = [], gr_leader_id = []\<rparr>"

record ConfigResult =
  cr_code :: Code
  cr_message :: string
  cr_kv :: KV
  cr_history :: "KV list"

definition ConfigResult_init :: ConfigResult where
  "ConfigResult_init = \<lparr>cr_code = OK, cr_message = [], cr_kv = KV_default, cr_history = []\<rparr>"

record ConfChangeResult =
  cc_code :: Code
  cc_message :: string

definition ConfChangeResult_init :: ConfChangeResult where
  "ConfChangeResult_init = \<lparr>cc_code = OK, cc_message = []\<rparr>"

text \<open>
  The virtual methods that answer a request and return: the out parameter of a call is its last
  argument, and a method that changes the node returns the node.
\<close>

record 'n ConfigNode =
  cn_Apply :: "'n \<Rightarrow> RaftCmd \<Rightarrow> ApplyResult \<Rightarrow> 'n \<times> ApplyResult"
  cn_Get :: "'n \<Rightarrow> string \<Rightarrow> bool \<Rightarrow> GetResult \<Rightarrow> GetResult"
  cn_GetConfig :: "'n \<Rightarrow> string \<Rightarrow> int \<Rightarrow> ConfigResult \<Rightarrow> ConfigResult"
  cn_AddPeer :: "'n \<Rightarrow> string \<Rightarrow> ConfChangeResult \<Rightarrow> ConfChangeResult"
  cn_RemovePeer :: "'n \<Rightarrow> string \<Rightarrow> ConfChangeResult \<Rightarrow> ConfChangeResult"
  cn_IsLeader :: "'n \<Rightarrow> bool"
  cn_LeaderId :: "'n \<Rightarrow> string"
  cn_Role :: "'n \<Rightarrow> string"
  cn_Term :: "'n \<Rightarrow> int"
  cn_CommitIndex :: "'n \<Rightarrow> int"
  cn_AppliedIndex :: "'n \<Rightarrow> int"
  cn_Peers :: "'n \<Rightarrow> string list"
  cn_CurrentRevision :: "'n \<Rightarrow> int"

section \<open>The single node\<close>

record 'db LocalNode =
  ln_store :: 'db
  ln_hub :: "WatchHub option"

definition LocalNode_Apply ::
  "'db leveldb \<Rightarrow> codec \<Rightarrow> 'db LocalNode \<Rightarrow> RaftCmd \<Rightarrow> ApplyResult \<Rightarrow> 'db LocalNode \<times> ApplyResult" where
  "LocalNode_Apply L P n cmd out =
    (let (db, out') = ApplyCmdToStore L P (ln_store n) cmd out
     in (n\<lparr>ln_store := db, ln_hub := broadcast_result out' (ln_hub n)\<rparr>, out'))"

text \<open>Either an answer at once, or the long poll of the hub, at its first step.\<close>

definition LocalNode_Watch :: "'db LocalNode \<Rightarrow> WatchResult \<Rightarrow> WatchResult + 'db watch_pc" where
  "LocalNode_Watch n out =
    (case ln_hub n of
       Some hub \<Rightarrow> Inr W_quick
     | None \<Rightarrow> Inl (out\<lparr>wr_code := INTERNAL, wr_message := ''watch hub unavailable''\<rparr>))"

text \<open>The reads of the store's answers, as LocalNode and RaftNode both make them.\<close>

definition answer_get :: "KV option \<times> Code \<Rightarrow> GetResult \<Rightarrow> GetResult" where
  "answer_get r out =
    (case r of
       (None, code) \<Rightarrow> out\<lparr>gr_code := code, gr_message := ''key not found''\<rparr>
     | (Some kv, code) \<Rightarrow> out\<lparr>gr_code := OK, gr_kv := kv\<rparr>)"

definition answer_config :: "KV option \<times> Code \<Rightarrow> KV list \<Rightarrow> ConfigResult \<Rightarrow> ConfigResult" where
  "answer_config r history out =
    (case r of
       (None, code) \<Rightarrow> out\<lparr>cr_code := code, cr_message :=
           if code = VERSION_NOT_FOUND then ''version not found'' else ''key not found''\<rparr>
     | (Some kv, code) \<Rightarrow> out\<lparr>cr_code := OK, cr_kv := kv, cr_history := history\<rparr>)"

definition LocalNode_Get ::
  "'db leveldb \<Rightarrow> codec \<Rightarrow> 'db LocalNode \<Rightarrow> string \<Rightarrow> bool \<Rightarrow> GetResult \<Rightarrow> GetResult" where
  "LocalNode_Get L P n key serializable out = answer_get (GetLocked L P (ln_store n) key) out"

text \<open>The history is read after the record: \<open>db2\<close> is the store then.\<close>

definition LocalNode_GetConfig ::
  "'db leveldb \<Rightarrow> codec \<Rightarrow> 'db LocalNode \<Rightarrow> 'db \<Rightarrow> string \<Rightarrow> int \<Rightarrow> ConfigResult \<Rightarrow> ConfigResult" where
  "LocalNode_GetConfig L P n db2 key version out =
    answer_config (GetConfigLocked L P (ln_store n) key version)
      (cr_history out @ GetHistoryLocked L P db2 key) out"

definition LocalNode_CurrentRevision :: "'db leveldb \<Rightarrow> 'db LocalNode \<Rightarrow> int" where
  "LocalNode_CurrentRevision L n = CurrentRevisionLocked L (ln_store n)"

text \<open>\<open>db_it\<close> is the store when the iterator was opened.\<close>

definition LocalNode_Compaction ::
  "'db leveldb \<Rightarrow> codec \<Rightarrow> 'db \<Rightarrow> 'db LocalNode \<Rightarrow> int \<Rightarrow> cxx_exn + 'db LocalNode \<times> int" where
  "LocalNode_Compaction L P db_it n keep_versions =
    (case CompactionLocked L P db_it (ln_store n) keep_versions of
       Inl e \<Rightarrow> Inl e
     | Inr (db, removed) \<Rightarrow> Inr (n\<lparr>ln_store := db\<rparr>, removed))"

definition LocalNode_AddPeer :: "'db LocalNode \<Rightarrow> string \<Rightarrow> ConfChangeResult \<Rightarrow> ConfChangeResult" where
  "LocalNode_AddPeer n peer out =
    out\<lparr>cc_code := INTERNAL, cc_message := ''single-node mode does not support membership change''\<rparr>"

definition LocalNode_RemovePeer :: "'db LocalNode \<Rightarrow> string \<Rightarrow> ConfChangeResult \<Rightarrow> ConfChangeResult" where
  "LocalNode_RemovePeer n peer out =
    out\<lparr>cc_code := INTERNAL, cc_message := ''single-node mode does not support membership change''\<rparr>"

definition LocalNode_class :: "'db leveldb \<Rightarrow> codec \<Rightarrow> 'db LocalNode ConfigNode" where
  "LocalNode_class L P = \<lparr>cn_Apply = LocalNode_Apply L P, cn_Get = LocalNode_Get L P,
     cn_GetConfig = (\<lambda>n. LocalNode_GetConfig L P n (ln_store n)), cn_AddPeer = LocalNode_AddPeer,
     cn_RemovePeer = LocalNode_RemovePeer, cn_IsLeader = (\<lambda>_. True), cn_LeaderId = (\<lambda>_. []),
     cn_Role = (\<lambda>_. ''leader''), cn_Term = (\<lambda>_. 0), cn_CommitIndex = (\<lambda>_. 0),
     cn_AppliedIndex = (\<lambda>_. 0), cn_Peers = (\<lambda>_. []),
     cn_CurrentRevision = LocalNode_CurrentRevision L\<rparr>"

section \<open>The single node against the replicated one\<close>

fun LocalNode_log ::
  "'db leveldb \<Rightarrow> codec \<Rightarrow> 'db LocalNode \<Rightarrow> RaftCmd list \<Rightarrow> 'db LocalNode \<times> ApplyResult list" where
  "LocalNode_log L P n [] = (n, [])"
| "LocalNode_log L P n (cmd # cmds) =
    (let (n1, r) = LocalNode_Apply L P n cmd ApplyResult_init;
         (n2, rs) = LocalNode_log L P n1 cmds
     in (n2, r # rs))"

lemma LocalNode_log_eq:
  "ln_store (fst (LocalNode_log L P n cmds)) = fst (apply_log L P (ln_store n) cmds)"
  "snd (LocalNode_log L P n cmds) = snd (apply_log L P (ln_store n) cmds)"
  "ln_hub (fst (LocalNode_log L P n cmds)) = map_option
     (\<lambda>h. foldl (\<lambda>h r. Broadcast h (ar_events r)) h (snd (apply_log L P (ln_store n) cmds))) (ln_hub n)"
  by (induction cmds arbitrary: n)
    (simp_all add: LocalNode_Apply_def case_prod_beta Let_def broadcast_result_eq comp_def
      option.map_comp option.map_ident)

lemma apply_log_nth:
  "i < length cmds \<Longrightarrow> snd (apply_log L P db cmds) ! i =
    snd (ApplyCmdToStore L P (fst (apply_log L P db (take i cmds))) (cmds ! i) ApplyResult_init)"
proof (induction cmds arbitrary: db i)
  case (Cons c cmds)
  then show ?case by (cases i) (simp_all add: case_prod_beta Let_def)
qed simp

lemma length_apply_log [simp]: "length (snd (apply_log L P db cmds)) = length cmds"
  by (induction cmds arbitrary: db) (simp_all add: case_prod_beta Let_def)

text \<open>The commands as log entries of a node that proposed them all, the i-th with closure i.\<close>

definition proposals :: "cmd_codec \<Rightarrow> nat \<Rightarrow> RaftCmd list \<Rightarrow> log_entry list" where
  "proposals Q i cmds = map (\<lambda>(j, cmd). \<lparr>le_data = ser_cmd Q cmd, le_done = Some j\<rparr>) (enumerate i cmds)"

lemma proposals_simps [simp]:
  "proposals Q i [] = []"
  "proposals Q i (c # cs) = \<lparr>le_data = ser_cmd Q c, le_done = Some i\<rparr> # proposals Q (Suc i) cs"
  by (simp_all add: proposals_def)

lemma proposals_append:
  "proposals Q i (xs @ ys) = proposals Q i xs @ proposals Q (i + length xs) ys"
  by (induction xs arbitrary: i) simp_all

lemma dones_proposals: "dones (proposals Q i cmds) = [i..<i + length cmds]"
proof (induction cmds arbitrary: i)
  case (Cons c cs)
  have "[i..<i + length (c # cs)] = i # [Suc i..<Suc i + length cs]" by (simp add: upt_rec)
  with Cons show ?case by simp
qed simp

context cmd_protobuf
begin

lemma entry_cmds_proposals:
  "\<forall>cmd \<in> set cmds. cmd_fits utf8 cmd \<Longrightarrow> entry_cmds Q (proposals Q i cmds) = cmds"
  by (induction cmds arbitrary: i) (simp_all add: parse_ser_cmd)

lemma proposal_result:
  assumes "\<forall>cmd \<in> set cmds. cmd_fits utf8 cmd" "i < length cmds" "cls i = ApplyClosure_init ApplyResult_init"
  shows "WaitFor (Run (fst (snd (on_apply L P Q (proposals Q 0 cmds) sm cls)) i)) =
    Some (snd (apply_log L P (sm_store sm) cmds) ! i)"
proof -
  let ?e = "\<lparr>le_data = ser_cmd Q (cmds ! i), le_done = Some i\<rparr>"
  have "proposals Q 0 cmds = proposals Q 0 (take i cmds @ cmds ! i # drop (Suc i) cmds)"
    using id_take_nth_drop [OF assms(2)] by (rule arg_cong)
  also have "\<dots> = proposals Q 0 (take i cmds) @ ?e # proposals Q (Suc i) (drop (Suc i) cmds)"
    using assms(2) by (simp add: proposals_append)
  finally have split: "proposals Q 0 cmds = proposals Q 0 (take i cmds) @ ?e # proposals Q (Suc i) (drop (Suc i) cmds)" .
  note closure = on_apply_closure [OF split, of i cls L P Q sm]
  have "\<forall>cmd \<in> set (take i cmds). cmd_fits utf8 cmd" using assms(1) set_take_subset [of i cmds] by auto
  then have "entry_cmds Q (proposals Q 0 (take i cmds)) = take i cmds" by (rule entry_cmds_proposals)
  with closure
  have "WaitFor (Run (fst (snd (on_apply L P Q (proposals Q 0 cmds) sm cls)) i)) =
      Some (entry_result L P Q (fst (apply_log L P (sm_store sm) (take i cmds))) ?e)"
    using assms(2,3) by (simp add: dones_proposals)
  moreover have "cmd_fits utf8 (cmds ! i)" using assms(1,2) by simp
  ultimately show ?thesis
    using apply_log_nth [OF assms(2), of L P "sm_store sm"]
    by (simp add: entry_result_def parse_ser_cmd)
qed

end

section \<open>Properties\<close>

text \<open>
  (C19) Single-node mode and cluster mode do the same.  Commands given to a LocalNode one after
  the other leave the store and the hub as a state machine leaves them that is handed the same
  commands as committed log entries, and each caller gets the result that the caller of the
  cluster gets from its closure.
\<close>

theorem local_node_is_state_machine:
  assumes "cmd_protobuf Q utf8" "\<forall>cmd \<in> set cmds. cmd_fits utf8 cmd"
    and "ln_store n = sm_store sm" "ln_hub n = sm_hub sm"
    and "\<forall>i < length cmds. cls i = ApplyClosure_init ApplyResult_init"
    and "LocalNode_log L P n cmds = (n', rs)"
    and "on_apply L P Q (proposals Q 0 cmds) sm cls = (sm', cls', runs)"
  shows "ln_store n' = sm_store sm' \<and> ln_hub n' = sm_hub sm' \<and> runs = [0..<length cmds] \<and>
    map Some rs = map (\<lambda>i. WaitFor (Run (cls' i))) [0..<length cmds]"
proof -
  note es = cmd_protobuf.entry_cmds_proposals [OF assms(1,2), of 0]
  have "map Some rs = map (\<lambda>i. WaitFor (Run (cls' i))) [0..<length cmds]"
  proof (rule nth_equalityI)
    show "length (map Some rs) = length (map (\<lambda>i. WaitFor (Run (cls' i))) [0..<length cmds])"
      using assms(6) LocalNode_log_eq(2) [of L P n cmds] by simp
    fix i assume "i < length (map Some rs)"
    then have i: "i < length cmds" using assms(6) LocalNode_log_eq(2) [of L P n cmds] by simp
    with cmd_protobuf.proposal_result [OF assms(1,2) i, of cls L P sm] assms(3,5,6,7)
      LocalNode_log_eq(2) [of L P n cmds]
    show "map Some rs ! i = map (\<lambda>i. WaitFor (Run (cls' i))) [0..<length cmds] ! i" by simp
  qed
  then show ?thesis
    using assms(3-7) LocalNode_log_eq [of L P n cmds] es dones_proposals [of Q 0 cmds]
      on_apply_store [of L P Q "proposals Q 0 cmds" sm cls] on_apply_hub [of L P Q "proposals Q 0 cmds" sm cls]
    by simp
qed

theorem local_node_is_state_machine_witness:
  "\<exists>n' rs sm' cls' runs.
     LocalNode_log mem_leveldb ref_codec \<lparr>ln_store = [], ln_hub = None\<rparr> [Cmd_put ''a'' ''1'', Cmd_delete ''b''] = (n', rs) \<and>
     on_apply mem_leveldb ref_codec ref_cmd_codec (proposals ref_cmd_codec 0 [Cmd_put ''a'' ''1'', Cmd_delete ''b''])
       (StateMachine_init [] None) (\<lambda>_. ApplyClosure_init ApplyResult_init) = (sm', cls', runs) \<and>
     ln_store n' = sm_store sm' \<and> runs = [0, 1] \<and>
     map Some rs = [WaitFor (Run (cls' 0)), WaitFor (Run (cls' 1))]"
proof -
  let ?cmds = "[Cmd_put ''a'' ''1'', Cmd_delete ''b'']"
  let ?n = "\<lparr>ln_store = [], ln_hub = None\<rparr> :: mem_db LocalNode"
  obtain n' rs where l: "LocalNode_log mem_leveldb ref_codec ?n ?cmds = (n', rs)" by fastforce
  obtain sm' cls' runs where s: "on_apply mem_leveldb ref_codec ref_cmd_codec (proposals ref_cmd_codec 0 ?cmds)
      (StateMachine_init [] None) (\<lambda>_. ApplyClosure_init ApplyResult_init) = (sm', cls', runs)"
    by (metis prod_cases3)
  have r: "ln_store n' = sm_store sm'" "runs = [0, 1]"
      "map Some rs = [WaitFor (Run (cls' 0)), WaitFor (Run (cls' 1))]"
    using local_node_is_state_machine [OF ref_cmd_pb.cmd_protobuf_axioms _ _ _ _ l s]
    by (simp_all add: StateMachine_init_def)
  show ?thesis
    by (rule exI [of _ n'], rule exI [of _ rs], rule exI [of _ sm'], rule exI [of _ cls'], rule exI [of _ runs])
      (intro conjI l s r)
qed

end
