(* ===== verification/CppString.thy ===== *)
theory CppString
  imports CStdlib "HOL-Library.Sublist"
begin

text \<open>
  More of std::string, for the nodes and the services: std::to_string, c_str() as a C function
  reads it, find with a string, rfind and find_last_of with a character, and compare of a suffix.  A position is a natural
  number, std::string::npos is None.
\<close>

section \<open>std::to_string\<close>

fun dec_digits :: "nat \<Rightarrow> string" where
  "dec_digits n = (if n < 10 then [hex_digit n] else dec_digits (n div 10) @ [hex_digit (n mod 10)])"

declare dec_digits.simps [simp del]

definition to_string :: "int \<Rightarrow> string" where
  "to_string i = (if i < 0 then CHR ''-'' # dec_digits (nat (- i)) else dec_digits (nat i))"

section \<open>C strings\<close>

text \<open>What a C function sees of a std::string: the bytes before the first NUL.\<close>

definition c_str :: "string \<Rightarrow> string" where
  "c_str s = takeWhile (\<lambda>c. c \<noteq> CHR 0x00) s"

section \<open>Searching\<close>

fun find_str :: "string \<Rightarrow> string \<Rightarrow> nat option" where
  "find_str p [] = (if p = [] then Some 0 else None)"
| "find_str p (c # cs) = (if prefix p (c # cs) then Some 0 else map_option Suc (find_str p cs))"

fun rfind_char :: "char \<Rightarrow> string \<Rightarrow> nat option" where
  "rfind_char c [] = None"
| "rfind_char c (x # xs) =
    (case rfind_char c xs of Some i \<Rightarrow> Some (Suc i) | None \<Rightarrow> if x = c then Some 0 else None)"

definition ends_with :: "string \<Rightarrow> string \<Rightarrow> bool" where
  "ends_with s suf \<longleftrightarrow> length s \<ge> length suf \<and> drop (length s - length suf) s = suf"

lemma find_str_None: "find_str p s = None \<longleftrightarrow> \<not> sublist p s"
  by (induction s) (simp_all add: sublist_Cons_right)

lemma find_str_Some: "find_str p s = Some i \<Longrightarrow> \<exists>r. s = take i s @ p @ r"
proof (induction s arbitrary: i)
  case (Cons c cs)
  then show ?case by (auto simp: prefix_def split: if_splits)
qed (auto split: if_splits)

lemma find_str_le: "find_str p s = Some i \<Longrightarrow> i + length p \<le> length s"
proof (induction s arbitrary: i)
  case (Cons c cs)
  show ?case
  proof (cases "prefix p (c # cs)")
    case True
    with Cons.prems show ?thesis using prefix_length_le [of p "c # cs"] by simp
  next
    case False
    with Cons.prems obtain j where "find_str p cs = Some j" "i = Suc j" by auto
    with Cons.IH [of j] show ?thesis by simp
  qed
qed (simp split: if_splits)

lemma rfind_char_None: "rfind_char c s = None \<longleftrightarrow> c \<notin> set s"
  by (induction s) (auto split: option.splits)

lemma rfind_char_Some:
  "rfind_char c s = Some i \<longleftrightarrow> i < length s \<and> s ! i = c \<and> c \<notin> set (drop (Suc i) s)"
proof (induction s arbitrary: i)
  case (Cons x xs)
  show ?case
  proof (cases i)
    case 0
    then show ?thesis using rfind_char_None [of c xs] by (cases "rfind_char c xs") auto
  next
    case (Suc j)
    with Cons.IH [of j] show ?thesis by (auto split: option.splits)
  qed
qed simp

lemma rfind_char_append:
  assumes "c \<notin> set p"
  shows "rfind_char c (s @ c # p) = Some (length s)"
  using assms by (simp add: rfind_char_Some)

lemma ends_with_eq: "ends_with s suf \<longleftrightarrow> suffix suf s"
proof
  assume "ends_with s suf"
  then show "suffix suf s" unfolding ends_with_def by (metis suffix_drop)
qed (auto simp: ends_with_def suffix_def)

lemma dec_digits_value: "digits_value 10 0 (dec_digits n) = n"
proof (induction n rule: dec_digits.induct)
  case (1 n)
  then show ?case by (simp add: dec_digits.simps [of n] digits_value_append)
qed

end
