(* ===== verification/Rest.thy ===== *)
theory Rest
  imports LocalNode CppString "HOL-Library.AList"
begin

text \<open>
  src/src/server/rest_util.h: what the services share.  brpc's Controller and HTTP messages are
  third-party: a request is the record of what the services read of it, a response collects what
  they set.  Header and query lookups are functions of the request.
\<close>

section \<open>HTTP messages\<close>

datatype HttpMethod = HTTP_METHOD_GET | HTTP_METHOD_POST | HTTP_METHOD_DELETE | HTTP_METHOD_OPTIONS
  | HTTP_METHOD_OTHER string

record http_request =
  rq_method :: HttpMethod
  rq_unresolved_path :: string
  rq_GetHeader :: "string \<Rightarrow> string option"
  rq_GetQuery :: "string \<Rightarrow> string option"
  rq_body :: string

record http_response =
  rs_headers :: "(string \<times> string) list"
  rs_status_code :: int
  rs_content_type :: string
  rs_attachment :: string

definition http_response_init :: http_response where
  "http_response_init = \<lparr>rs_headers = [], rs_status_code = 200, rs_content_type = [], rs_attachment = []\<rparr>"

definition SetHeader :: "string \<Rightarrow> string \<Rightarrow> http_response \<Rightarrow> http_response" where
  "SetHeader k v rs = rs\<lparr>rs_headers := AList.update k v (rs_headers rs)\<rparr>"

section \<open>The helpers\<close>

definition ResolveKey :: "http_request \<Rightarrow> string \<Rightarrow> string" where
  "ResolveKey rq req_key = (if rq_unresolved_path rq \<noteq> [] then rq_unresolved_path rq else req_key)"

text \<open>The part of a host string before the last colon.\<close>

definition strip_port :: "string \<Rightarrow> string" where
  "strip_port s = (case rfind_char (CHR '':'') s of None \<Rightarrow> s | Some i \<Rightarrow> take i s)"

definition IsAllowedOrigin :: "string \<Rightarrow> string \<Rightarrow> bool" where
  "IsAllowedOrigin origin request_host =
    (if origin = [] \<or> request_host = [] then False
     else case find_str ''://'' origin of
       None \<Rightarrow> False
     | Some scheme_end \<Rightarrow>
         (let origin_host = strip_port (drop (scheme_end + 3) origin);
              target_host = strip_port request_host
          in origin_host = target_host))"

text \<open>The response with the CORS headers, and whether the request was a preflight.\<close>

definition HandleCorsPreflight :: "http_request \<Rightarrow> http_response \<Rightarrow> http_response \<times> bool" where
  "HandleCorsPreflight rq rs0 =
    (let rs1 = (case (rq_GetHeader rq ''Origin'', rq_GetHeader rq ''Host'') of
             (Some origin, Some host) \<Rightarrow>
               if IsAllowedOrigin origin host
               then SetHeader ''Vary'' ''Origin'' (SetHeader ''Access-Control-Allow-Origin'' origin rs0)
               else rs0
           | _ \<Rightarrow> rs0);
         rs2 = SetHeader ''Access-Control-Allow-Headers'' ''Content-Type''
           (SetHeader ''Access-Control-Allow-Methods'' ''GET,POST,DELETE,OPTIONS'' rs1)
     in if rq_method rq = HTTP_METHOD_OPTIONS then (rs2\<lparr>rs_status_code := 200\<rparr>, True) else (rs2, False))"

definition IsValidKey :: "string \<Rightarrow> bool" where
  "IsValidKey key \<longleftrightarrow> key \<noteq> []"

definition QueryInt64 :: "http_request \<Rightarrow> string \<Rightarrow> int \<Rightarrow> int" where
  "QueryInt64 rq name dflt =
    (case rq_GetQuery rq name of
       None \<Rightarrow> dflt
     | Some v \<Rightarrow> if v = [] then dflt else (case strtoll (c_str v) 10 of (conv, fits, n) \<Rightarrow> n))"

text \<open>KVResponse; a field of message type may be absent.\<close>

record KVResponse =
  kr_code :: Code
  kr_message :: string
  kr_kv :: "KV option"
  kr_kvs :: "KV list"

definition KVResponse_init :: KVResponse where
  "KVResponse_init = \<lparr>kr_code = OK, kr_message = [], kr_kv = None, kr_kvs = []\<rparr>"

text \<open>ByteSizeLong is the length of the serialised record.\<close>

definition FillResponse :: "codec \<Rightarrow> ApplyResult \<Rightarrow> KVResponse \<Rightarrow> KVResponse" where
  "FillResponse P r resp0 =
    (let resp = resp0\<lparr>kr_code := ar_code r, kr_message := ar_message r\<rparr>
     in if ar_code r = OK then
          resp\<lparr>kr_kv := (if length (ser_kv P (ar_kv r)) > 0 then Some (ar_kv r) else kr_kv resp),
               kr_kvs := kr_kvs resp @ ar_kvs r\<rparr>
        else if ar_code r = NOT_LEADER \<and> ar_leader_id r \<noteq> [] then
          resp\<lparr>kr_message := ''not leader, leader='' @ ar_leader_id r\<rparr>
        else resp)"

section \<open>Origins\<close>

lemma strip_port_simps:
  "CHR '':'' \<notin> set h \<Longrightarrow> strip_port h = h"
  "CHR '':'' \<notin> set p \<Longrightarrow> strip_port (h @ CHR '':'' # p) = h"
  by (simp_all add: strip_port_def rfind_char_append rfind_char_None [THEN iffD2])

text \<open>A host with an optional port.\<close>

definition authority :: "string \<Rightarrow> string option \<Rightarrow> string" where
  "authority h p = (case p of None \<Rightarrow> h | Some p \<Rightarrow> h @ CHR '':'' # p)"

lemma strip_port_authority:
  assumes "CHR '':'' \<notin> set h" "\<And>x. p = Some x \<Longrightarrow> CHR '':'' \<notin> set x"
  shows "strip_port (authority h p) = h"
  using assms by (simp add: authority_def strip_port_simps split: option.split)

lemma find_scheme:
  assumes "CHR '':'' \<notin> set scheme"
  shows "find_str ''://'' (scheme @ ''://'' @ rest) = Some (length scheme)"
  using assms by (induction scheme) auto

section \<open>Properties\<close>

text \<open>
  The origin check compares hosts.  For a scheme and hosts without a colon, with any ports
  or none, an origin is allowed exactly when its host is the host the request names: ports and
  schemes do not matter.
\<close>

lemma allowed_origin_same_host:
  assumes "CHR '':'' \<notin> set scheme" "CHR '':'' \<notin> set h" "CHR '':'' \<notin> set h'" "h' \<noteq> []"
    and "\<And>x. p = Some x \<Longrightarrow> CHR '':'' \<notin> set x" "\<And>x. p' = Some x \<Longrightarrow> CHR '':'' \<notin> set x"
  shows "IsAllowedOrigin (scheme @ ''://'' @ authority h p) (authority h' p') \<longleftrightarrow> h = h'"
proof -
  have "authority h' p' \<noteq> []" using assms(4) by (auto simp: authority_def split: option.split)
  moreover have "strip_port (authority h p) = h" "strip_port (authority h' p') = h'"
    using strip_port_authority assms by blast+
  ultimately show ?thesis
    using find_scheme [OF assms(1), of "authority h p"] by (simp add: IsAllowedOrigin_def)
qed

text \<open>
  Bracketed IPv6 hosts defeat the origin check.  Without a port the last colon is inside the
  brackets, so the last group of the address is dropped as if it were a port: two different
  hosts compare equal, and the same host with and without a port compares unequal.
\<close>

lemma allowed_origin_ipv6:
  "IsAllowedOrigin ''http://[fe80::1]'' ''[fe80::2]'' \<and>
   \<not> IsAllowedOrigin ''http://[fe80::1]'' ''[fe80::1]:8002''"
  by code_simp

end
