(* ===== verification/KvService.thy ===== *)
theory KvService
  imports Rest
begin

text \<open>
  src/src/server/kv_service_impl.cpp: the key-value service, over any ConfigNode \<open>N\<close> in the state
  \<open>n\<close>.  A handler returns the node afterwards and the response.  json2pb is third-party: the
  record \<open>json2pb\<close> says, for a body, whether it converts and what the request message holds after
  the call; the handlers look at the message only.
\<close>

section \<open>Requests\<close>

record PutRequest =
  pr_key :: string
  pr_value :: string

record GetRequest =
  gq_key :: string
  gq_serializable :: bool

record DeleteRequest =
  dr_key :: string

record BatchPutRequest =
  br_entries :: "PutRequest list"

record CompareAndSwapRequest =
  casr_key :: string
  casr_expect :: string
  casr_value :: string

record json2pb =
  j_Put :: "string \<Rightarrow> bool \<times> PutRequest"
  j_CompareAndSwap :: "string \<Rightarrow> bool \<times> CompareAndSwapRequest"
  j_BatchPut :: "string \<Rightarrow> bool \<times> BatchPutRequest"

section \<open>The operations\<close>

definition DoPut ::
  "codec \<Rightarrow> 'n ConfigNode \<Rightarrow> 'n \<Rightarrow> string \<Rightarrow> string \<Rightarrow> KVResponse \<Rightarrow> 'n \<times> KVResponse" where
  "DoPut P N n key val resp =
    (if \<not> IsValidKey key then (n, resp\<lparr>kr_code := INVALID_ARGUMENT, kr_message := ''empty key''\<rparr>)
     else
       let (n', result) = cn_Apply N n (Cmd_put key val) ApplyResult_init
       in (n', FillResponse P result resp))"

definition DoGet :: "'n ConfigNode \<Rightarrow> 'n \<Rightarrow> string \<Rightarrow> bool \<Rightarrow> KVResponse \<Rightarrow> KVResponse" where
  "DoGet N n key serializable resp0 =
    (let result = cn_Get N n key serializable GetResult_init;
         resp1 = resp0\<lparr>kr_code := gr_code result, kr_message := gr_message result\<rparr>;
         resp2 = (if gr_code result = NOT_LEADER \<and> gr_leader_id result \<noteq> []
           then resp1\<lparr>kr_message := ''not leader, leader='' @ gr_leader_id result\<rparr> else resp1)
     in if gr_code result = OK then resp2\<lparr>kr_kv := Some (gr_kv result)\<rparr> else resp2)"

definition DoDelete :: "codec \<Rightarrow> 'n ConfigNode \<Rightarrow> 'n \<Rightarrow> string \<Rightarrow> KVResponse \<Rightarrow> 'n \<times> KVResponse" where
  "DoDelete P N n key resp =
    (if \<not> IsValidKey key then (n, resp\<lparr>kr_code := INVALID_ARGUMENT, kr_message := ''empty key''\<rparr>)
     else
       let (n', result) = cn_Apply N n (Cmd_delete key) ApplyResult_init
       in (n', FillResponse P result resp))"

text \<open>The loop of DoBatchPut: None when it meets an entry without a key.\<close>

fun DoBatchPut_loop :: "PutRequest list \<Rightarrow> (string \<times> string) list \<Rightarrow> (string \<times> string) list option" where
  "DoBatchPut_loop [] puts = Some puts"
| "DoBatchPut_loop (e # es) puts =
    (if \<not> IsValidKey (pr_key e) then None
     else DoBatchPut_loop es (puts @ [(pr_key e, pr_value e)]))"

definition DoBatchPut ::
  "codec \<Rightarrow> 'n ConfigNode \<Rightarrow> 'n \<Rightarrow> BatchPutRequest \<Rightarrow> KVResponse \<Rightarrow> 'n \<times> KVResponse" where
  "DoBatchPut P N n request resp =
    (case DoBatchPut_loop (br_entries request) [] of
       None \<Rightarrow> (n, resp\<lparr>kr_code := INVALID_ARGUMENT, kr_message := ''batch contains empty key''\<rparr>)
     | Some puts \<Rightarrow>
         let (n', result) = cn_Apply N n (Cmd_batch_put puts) ApplyResult_init
         in (n', FillResponse P result resp))"

definition DoCAS ::
  "codec \<Rightarrow> 'n ConfigNode \<Rightarrow> 'n \<Rightarrow> string \<Rightarrow> string \<Rightarrow> string \<Rightarrow> KVResponse \<Rightarrow> 'n \<times> KVResponse" where
  "DoCAS P N n key expect val resp =
    (if \<not> IsValidKey key then (n, resp\<lparr>kr_code := INVALID_ARGUMENT, kr_message := ''empty key''\<rparr>)
     else
       let (n', result) = cn_Apply N n (Cmd_cas key expect val) ApplyResult_init
       in (n', FillResponse P result resp))"

section \<open>gRPC\<close>

definition KV_Put ::
  "codec \<Rightarrow> 'n ConfigNode \<Rightarrow> 'n \<Rightarrow> http_request \<Rightarrow> PutRequest \<Rightarrow> KVResponse \<Rightarrow> 'n \<times> KVResponse" where
  "KV_Put P N n cntl request response =
    DoPut P N n (ResolveKey cntl (pr_key request)) (pr_value request) response"

definition KV_Get :: "'n ConfigNode \<Rightarrow> 'n \<Rightarrow> http_request \<Rightarrow> GetRequest \<Rightarrow> KVResponse \<Rightarrow> KVResponse" where
  "KV_Get N n cntl request response =
    DoGet N n (ResolveKey cntl (gq_key request)) (gq_serializable request) response"

definition KV_Delete ::
  "codec \<Rightarrow> 'n ConfigNode \<Rightarrow> 'n \<Rightarrow> http_request \<Rightarrow> DeleteRequest \<Rightarrow> KVResponse \<Rightarrow> 'n \<times> KVResponse" where
  "KV_Delete P N n cntl request response =
    DoDelete P N n (ResolveKey cntl (dr_key request)) response"

definition KV_BatchPut ::
  "codec \<Rightarrow> 'n ConfigNode \<Rightarrow> 'n \<Rightarrow> BatchPutRequest \<Rightarrow> KVResponse \<Rightarrow> 'n \<times> KVResponse" where
  "KV_BatchPut P N n request response = DoBatchPut P N n request response"

definition KV_CompareAndSwap ::
  "codec \<Rightarrow> 'n ConfigNode \<Rightarrow> 'n \<Rightarrow> http_request \<Rightarrow> CompareAndSwapRequest \<Rightarrow> KVResponse \<Rightarrow> 'n \<times> KVResponse" where
  "KV_CompareAndSwap P N n cntl request response =
    DoCAS P N n (ResolveKey cntl (casr_key request)) (casr_expect request) (casr_value request) response"

section \<open>REST\<close>

definition KV_Rest ::
  "codec \<Rightarrow> json2pb \<Rightarrow> 'n ConfigNode \<Rightarrow> 'n \<Rightarrow> http_request \<Rightarrow> http_response \<Rightarrow> KVResponse \<Rightarrow>
    'n \<times> http_response \<times> KVResponse" where
  "KV_Rest P J N n rq rs0 response =
    (let (rs, preflight) = HandleCorsPreflight rq rs0;
         path = rq_unresolved_path rq
     in if preflight then (n, rs, response)
        else if rq_method rq = HTTP_METHOD_GET then
          let serializable = (case rq_GetQuery rq ''serializable'' of None \<Rightarrow> False | Some s \<Rightarrow> s = ''true'')
          in (n, rs, DoGet N n path serializable response)
        else if rq_method rq = HTTP_METHOD_DELETE then
          let (n', resp) = DoDelete P N n path response in (n', rs, resp)
        else if rq_method rq \<noteq> HTTP_METHOD_POST then
          (n, rs, response\<lparr>kr_code := INTERNAL, kr_message := ''unsupported http method''\<rparr>)
        else if ends_with path ''/cas'' then
          let key = take (length path - 4) path;
              req = snd (j_CompareAndSwap J (rq_body rq));
              (n', resp) = DoCAS P N n key (casr_expect req) (casr_value req) response
          in (n', rs, resp)
        else if path = ''batch'' then
          let (n', resp) = DoBatchPut P N n (snd (j_BatchPut J (rq_body rq))) response in (n', rs, resp)
        else
          let (n', resp) = DoPut P N n path (pr_value (snd (j_Put J (rq_body rq)))) response in (n', rs, resp))"

text \<open>
  A REST request is one of the remote calls, with the key from the path: the handlers of the two
  interfaces are the same operations.
\<close>

definition rpc_cntl :: http_request where
  "rpc_cntl = \<lparr>rq_method = HTTP_METHOD_POST, rq_unresolved_path = [], rq_GetHeader = Map.empty,
     rq_GetQuery = Map.empty, rq_body = []\<rparr>"

lemma ResolveKey_rpc [simp]: "ResolveKey rpc_cntl key = key"
  by (simp add: ResolveKey_def rpc_cntl_def)

lemma kv_operations_are_rpcs:
  "\<exists>req. DoGet N n k b resp0 = KV_Get N n rpc_cntl req resp0"
  "\<exists>req. DoPut P N n k v resp0 = KV_Put P N n rpc_cntl req resp0"
  "\<exists>req. DoDelete P N n k resp0 = KV_Delete P N n rpc_cntl req resp0"
  "\<exists>req. DoCAS P N n k e v resp0 = KV_CompareAndSwap P N n rpc_cntl req resp0"
proof -
  show "\<exists>req. DoGet N n k b resp0 = KV_Get N n rpc_cntl req resp0"
    by (rule exI [of _ "\<lparr>gq_key = k, gq_serializable = b\<rparr>"]) (simp add: KV_Get_def)
  show "\<exists>req. DoPut P N n k v resp0 = KV_Put P N n rpc_cntl req resp0"
    by (rule exI [of _ "\<lparr>pr_key = k, pr_value = v\<rparr>"]) (simp add: KV_Put_def)
  show "\<exists>req. DoDelete P N n k resp0 = KV_Delete P N n rpc_cntl req resp0"
    by (rule exI [of _ "\<lparr>dr_key = k\<rparr>"]) (simp add: KV_Delete_def)
  show "\<exists>req. DoCAS P N n k e v resp0 = KV_CompareAndSwap P N n rpc_cntl req resp0"
    by (rule exI [of _ "\<lparr>casr_key = k, casr_expect = e, casr_value = v\<rparr>"]) (simp add: KV_CompareAndSwap_def)
qed

lemma kv_rest_is_rpc:
  assumes "KV_Rest P J N n rq rs resp0 = (n', rs', resp)" "rq_method rq \<in> {HTTP_METHOD_GET, HTTP_METHOD_POST, HTTP_METHOD_DELETE}"
  shows "(\<exists>req. n' = n \<and> resp = KV_Get N n rpc_cntl req resp0) \<or> (\<exists>req. (n', resp) = KV_Put P N n rpc_cntl req resp0) \<or>
    (\<exists>req. (n', resp) = KV_Delete P N n rpc_cntl req resp0) \<or> (\<exists>req. (n', resp) = KV_BatchPut P N n req resp0) \<or>
    (\<exists>req. (n', resp) = KV_CompareAndSwap P N n rpc_cntl req resp0)"
proof -
  note get = kv_operations_are_rpcs(1) [of N n _ _ resp0] and put = kv_operations_are_rpcs(2) [of P N n _ _ resp0]
    and del = kv_operations_are_rpcs(3) [of P N n _ resp0] and cas = kv_operations_are_rpcs(4) [of P N n _ _ _ resp0]
  let ?path = "rq_unresolved_path rq"
  consider "rq_method rq = HTTP_METHOD_GET" | "rq_method rq = HTTP_METHOD_DELETE"
    | "rq_method rq = HTTP_METHOD_POST" "ends_with ?path ''/cas''"
    | "rq_method rq = HTTP_METHOD_POST" "\<not> ends_with ?path ''/cas''" "?path = ''batch''"
    | "rq_method rq = HTTP_METHOD_POST" "\<not> ends_with ?path ''/cas''" "?path \<noteq> ''batch''" using assms(2) by blast
  then show ?thesis
  proof cases
    case 1
    then have "n' = n" "\<exists>b. resp = DoGet N n ?path b resp0"
      using assms(1) by (auto simp: KV_Rest_def HandleCorsPreflight_def Let_def)
    then show ?thesis using get by metis
  next
    case 2
    then have "(n', resp) = DoDelete P N n ?path resp0"
      using assms(1) by (simp add: KV_Rest_def HandleCorsPreflight_def Let_def split: prod.splits)
    then show ?thesis using del by metis
  next
    case 3
    then have "\<exists>k e v. (n', resp) = DoCAS P N n k e v resp0"
      using assms(1) by (simp add: KV_Rest_def HandleCorsPreflight_def Let_def split: prod.splits) metis
    then show ?thesis using cas by metis
  next
    case 4
    then have "\<exists>req. (n', resp) = KV_BatchPut P N n req resp0"
      using assms(1) by (simp add: KV_Rest_def HandleCorsPreflight_def Let_def KV_BatchPut_def split: prod.splits) metis
    then show ?thesis by blast
  next
    case 5
    then have "\<exists>v. (n', resp) = DoPut P N n ?path v resp0"
      using assms(1) by (simp add: KV_Rest_def HandleCorsPreflight_def Let_def split: prod.splits) metis
    then show ?thesis using put by metis
  qed
qed

section \<open>What reaches the node\<close>

text \<open>The keys of a command.\<close>

fun cmd_keys :: "RaftCmd \<Rightarrow> string list" where
  "cmd_keys (Cmd_put k v) = [k]"
| "cmd_keys (Cmd_delete k) = [k]"
| "cmd_keys (Cmd_cas k e v) = [k]"
| "cmd_keys (Cmd_publish k v) = [k]"
| "cmd_keys (Cmd_rollback k n) = [k]"
| "cmd_keys (Cmd_batch_put kvs) = map fst kvs"
| "cmd_keys Cmd_not_set = []"

text \<open>
  A handler either leaves the node alone or makes one Apply call, with a command all of whose
  keys are non-empty, and answers with its result.
\<close>

definition one_command ::
  "codec \<Rightarrow> 'n ConfigNode \<Rightarrow> 'n \<Rightarrow> KVResponse \<Rightarrow> 'n \<Rightarrow> KVResponse \<Rightarrow> bool" where
  "one_command P N n resp0 n' resp \<longleftrightarrow> n' = n \<or>
    (\<exists>cmd. [] \<notin> set (cmd_keys cmd) \<and> n' = fst (cn_Apply N n cmd ApplyResult_init) \<and>
       resp = FillResponse P (snd (cn_Apply N n cmd ApplyResult_init)) resp0)"

lemma one_command_unchanged [intro]: "one_command P N n resp0 n resp"
  by (simp add: one_command_def)

lemma one_commandI:
  "[] \<notin> set (cmd_keys cmd) \<Longrightarrow> cn_Apply N n cmd ApplyResult_init = (n', r) \<Longrightarrow>
    one_command P N n resp0 n' (FillResponse P r resp0)"
  unfolding one_command_def by (metis fst_conv snd_conv)

lemma DoBatchPut_loop_eq:
  "DoBatchPut_loop es puts = (if \<forall>e \<in> set es. pr_key e \<noteq> []
     then Some (puts @ map (\<lambda>e. (pr_key e, pr_value e)) es) else None)"
  by (induction es arbitrary: puts) (auto simp: IsValidKey_def)

lemma kv_operations_one_command:
  "DoPut P N n key val resp0 = (n', resp) \<Longrightarrow> one_command P N n resp0 n' resp"
  "DoDelete P N n key resp0 = (n', resp) \<Longrightarrow> one_command P N n resp0 n' resp"
  "DoCAS P N n key expect val resp0 = (n', resp) \<Longrightarrow> one_command P N n resp0 n' resp"
  "DoBatchPut P N n request resp0 = (n', resp) \<Longrightarrow> one_command P N n resp0 n' resp"
  by (auto simp: DoPut_def DoDelete_def DoCAS_def DoBatchPut_def DoBatchPut_loop_eq IsValidKey_def
      split: if_splits prod.splits intro!: one_commandI) metis

end
