(* ===== verification/NodeContract.thy ===== *)
theory NodeContract
  imports KvService
begin

text \<open>
  The contract between the services (src/src/server) and a node (ConfigNode of
  src/src/raft/node.h): the node keeps the contract of the store, and its answers are those of
  \<open>answer_get\<close> and \<open>answer_config\<close>.  What a client of the key-value service sees is proved once
  from the contract; LocalNode keeps it.
\<close>

section \<open>The contract\<close>

locale config_node = mvcc_store view inv fits "\<lambda>n cmd. cn_Apply N n cmd ApplyResult_init" get get_config rev
  for N :: "'n ConfigNode" and view inv fits get get_config and rev :: "'n \<Rightarrow> int" +
  assumes get_answer: "inv n \<Longrightarrow> cn_Get N n k serializable GetResult_init = answer_get (get n k) GetResult_init"
    and config_answer: "inv n \<Longrightarrow> \<exists>h. cn_GetConfig N n k v ConfigResult_init =
      answer_config (get_config n k v) h ConfigResult_init"
    and rev_answer: "cn_CurrentRevision N n = rev n"
begin

lemma DoGet_found:
  assumes "inv n" "get n k = (Some kv, c)"
  shows "DoGet N n k serializable KVResponse_init = KVResponse_init\<lparr>kr_kv := Some kv\<rparr>"
  unfolding DoGet_def get_answer [OF assms(1)]
  using assms(2) by (simp add: answer_get_def GetResult_init_def KVResponse_init_def)

lemma DoGet_absent:
  assumes "inv n" "get n k = (None, KEY_NOT_FOUND)"
  shows "DoGet N n k serializable KVResponse_init =
    KVResponse_init\<lparr>kr_code := KEY_NOT_FOUND, kr_message := ''key not found''\<rparr>"
  unfolding DoGet_def get_answer [OF assms(1)]
  using assms(2) by (simp add: answer_get_def GetResult_init_def KVResponse_init_def)

lemma FillResponse_code [simp]: "kr_code (FillResponse P r resp) = ar_code r"
  by (simp add: FillResponse_def Let_def)

lemma put_get:
  assumes "inv n" "key \<noteq> []" "fits (Cmd_put key val)" "nn64 (rev n + 1)"
    and "DoPut P N n key val KVResponse_init = (n', resp)" "kr_code resp = OK"
  shows "inv n' \<and> (\<exists>kv. DoGet N n' key s KVResponse_init = KVResponse_init\<lparr>kr_kv := Some kv\<rparr> \<and>
    kv_value kv = val \<and> kv_revision kv = rev n + 1) \<and>
    (\<forall>k'. k' \<noteq> key \<longrightarrow> DoGet N n' k' s KVResponse_init = DoGet N n k' s KVResponse_init)"
proof -
  obtain r where ap: "cn_Apply N n (Cmd_put key val) ApplyResult_init = (n', r)" "ar_code r = OK"
    using assms(2,5,6) by (auto simp: DoPut_def IsValidKey_def split: prod.splits)
  have nn: "nn64 (m_rev (view n) + cmd_cost (Cmd_put key val))"
    using assms(4) by (simp add: current_revision_law)
  have inv': "inv n'" using apply_law [OF assms(1,3) nn ap(1)] by simp
  have wr: "get n' key = (Some (ar_kv r), OK)" "kv_value (ar_kv r) = val" "kv_revision (ar_kv r) = rev n + 1"
    "\<And>k'. k' \<noteq> key \<Longrightarrow> get n' k' = get n k'"
    using write_read [OF assms(1,3) nn ap, of key val] by simp_all
  moreover have "DoGet N n' k' s KVResponse_init = DoGet N n k' s KVResponse_init" if "k' \<noteq> key" for k'
    using wr(4) [OF that] assms(1) inv' by (simp add: DoGet_def get_answer)
  ultimately show ?thesis using DoGet_found [OF inv' wr(1)] inv' by blast
qed

lemma delete_get:
  assumes "inv n" "key \<noteq> []" "fits (Cmd_delete key)" "nn64 (rev n + 1)"
    and "DoDelete P N n key KVResponse_init = (n', resp)" "kr_code resp = OK"
  shows "DoGet N n' key s KVResponse_init =
    KVResponse_init\<lparr>kr_code := KEY_NOT_FOUND, kr_message := ''key not found''\<rparr>"
proof -
  obtain r where ap: "cn_Apply N n (Cmd_delete key) ApplyResult_init = (n', r)" "ar_code r = OK"
    using assms(2,5,6) by (auto simp: DoDelete_def IsValidKey_def split: prod.splits)
  have nn: "nn64 (m_rev (view n) + 1)" using assms(4) by (simp add: current_revision_law)
  have "inv n'" using apply_law [OF assms(1,3) _ ap(1)] nn by simp
  moreover have "get n' key = (None, KEY_NOT_FOUND)" using delete_read [OF assms(1,3) nn ap] by simp
  ultimately show ?thesis by (rule DoGet_absent)
qed

end

section \<open>LocalNode keeps the contract\<close>

context store_env
begin

lemma local_is_config_node:
  "config_node (LocalNode_class L P) (\<lambda>n. mvcc_of P (C (ln_store n)))
    (\<lambda>n. store_inv P (C (ln_store n))) (cmd_fits utf8) (\<lambda>n. GetLocked L P (ln_store n))
    (\<lambda>n. GetConfigLocked L P (ln_store n)) (LocalNode_CurrentRevision L)"
proof
  fix n :: "'db LocalNode" and cmd n' r
  assume a: "store_inv P (C (ln_store n))" "cmd_fits utf8 cmd" "nn64 (m_rev (mvcc_of P (C (ln_store n))) + cmd_cost cmd)"
    "cn_Apply (LocalNode_class L P) n cmd ApplyResult_init = (n', r)"
  then have "ApplyCmdToStore L P (ln_store n) cmd ApplyResult_init = (ln_store n', r)"
    by (auto simp: LocalNode_class_def LocalNode_Apply_def split: prod.splits)
  from api.apply_law [OF a(1-3) this]
  show "store_inv P (C (ln_store n')) \<and> (s_apply (mvcc_of P (C (ln_store n))) cmd = (mvcc_of P (C (ln_store n')), r) \<or>
      mvcc_of P (C (ln_store n')) = mvcc_of P (C (ln_store n)) \<and> ar_code r = INTERNAL \<and> ar_events r = [])" .
qed (use api.inv_view api.get_law api.get_config_law api.current_revision_law in
    \<open>auto simp: LocalNode_class_def LocalNode_Get_def LocalNode_GetConfig_def LocalNode_CurrentRevision_def\<close>)

end

sublocale store_env \<subseteq> local_node: config_node "LocalNode_class L P" "\<lambda>n. mvcc_of P (C (ln_store n))"
  "\<lambda>n. store_inv P (C (ln_store n))" "cmd_fits utf8" "\<lambda>n. GetLocked L P (ln_store n)"
  "\<lambda>n. GetConfigLocked L P (ln_store n)" "LocalNode_CurrentRevision L"
  by (rule local_is_config_node)

interpretation mem_node: config_node "LocalNode_class mem_leveldb ref_codec" "\<lambda>n. mvcc_of ref_codec (map_of (ln_store n))"
  "\<lambda>n. store_inv ref_codec (map_of (ln_store n))" "cmd_fits (\<lambda>_. True)" "\<lambda>n. GetLocked mem_leveldb ref_codec (ln_store n)"
  "\<lambda>n. GetConfigLocked mem_leveldb ref_codec (ln_store n)" "LocalNode_CurrentRevision mem_leveldb"
  by (rule store_env.local_is_config_node [OF mem_env.store_env_axioms])

section \<open>REST requests\<close>

text \<open>A POST that the router treats as a put of its path, and a GET.\<close>

definition is_put_request :: "http_request \<Rightarrow> bool" where
  "is_put_request rq \<longleftrightarrow> rq_method rq = HTTP_METHOD_POST \<and> rq_unresolved_path rq \<noteq> ''batch'' \<and>
     \<not> ends_with (rq_unresolved_path rq) ''/cas''"

lemma KV_Rest_put:
  "is_put_request rq \<Longrightarrow> KV_Rest P J N n rq rs resp =
    (let (n', resp') = DoPut P N n (rq_unresolved_path rq) (pr_value (snd (j_Put J (rq_body rq)))) resp
     in (n', fst (HandleCorsPreflight rq rs), resp'))"
  by (simp add: is_put_request_def KV_Rest_def HandleCorsPreflight_def Let_def split: option.splits)

definition get_flag :: "http_request \<Rightarrow> bool" where
  "get_flag rq = (case rq_GetQuery rq ''serializable'' of None \<Rightarrow> False | Some s \<Rightarrow> s = ''true'')"

lemma KV_Rest_get:
  "rq_method rq = HTTP_METHOD_GET \<Longrightarrow> KV_Rest P J N n rq rs resp =
    (n, fst (HandleCorsPreflight rq rs), DoGet N n (rq_unresolved_path rq) (get_flag rq) resp)"
  by (simp add: KV_Rest_def HandleCorsPreflight_def Let_def get_flag_def)

section \<open>Properties\<close>

text \<open>
  (C21) A REST put is read back.  On a single node, a POST to a key that answered OK is followed by
  a GET of the key that answers OK with the value of the request and the next revision, whatever
  the serializable flag says; GETs of other keys answer as before.
\<close>

theorem rest_put_get:
  assumes "store_env L C P utf8" "store_inv P (C (ln_store n))" "is_put_request rq"
    and "utf8 (rq_unresolved_path rq)" "utf8 (pr_value (snd (j_Put J (rq_body rq))))"
    and "nn64 (LocalNode_CurrentRevision L n + 1)"
    and "KV_Rest P J (LocalNode_class L P) n rq rs KVResponse_init = (n', rs', resp)" "kr_code resp = OK"
    and "rq_method get = HTTP_METHOD_GET"
    and "KV_Rest P J (LocalNode_class L P) n' get rs KVResponse_init = (n2, rs2, resp2)"
  shows "n2 = n' \<and> (if rq_unresolved_path get = rq_unresolved_path rq
    then \<exists>kv. resp2 = KVResponse_init\<lparr>kr_kv := Some kv\<rparr> \<and> kv_value kv = pr_value (snd (j_Put J (rq_body rq))) \<and>
      kv_revision kv = LocalNode_CurrentRevision L n + 1
    else resp2 = snd (snd (KV_Rest P J (LocalNode_class L P) n get rs KVResponse_init)))"
proof -
  let ?key = "rq_unresolved_path rq" and ?val = "pr_value (snd (j_Put J (rq_body rq)))"
  let ?N = "LocalNode_class L P"
  note node = store_env.local_is_config_node [OF assms(1)]
  have put: "DoPut P ?N n ?key ?val KVResponse_init = (n', resp)"
    using assms(7) by (auto simp: KV_Rest_put [OF assms(3)] Let_def split: prod.splits)
  have "?key \<noteq> []" using put assms(8) by (auto simp: DoPut_def IsValidKey_def)
  note pg = config_node.put_get [OF node assms(2) this _ assms(6) put assms(8)]
  have "n2 = n'" "resp2 = DoGet ?N n' (rq_unresolved_path get) (get_flag get) KVResponse_init"
    using assms(10) by (auto simp: KV_Rest_get [OF assms(9)])
  with pg [of "get_flag get"] assms(4,5) show ?thesis by (auto simp: KV_Rest_get [OF assms(9)])
qed

text \<open>A conversion that reads the whole body as the value.\<close>

definition plain_json :: json2pb where
  "plain_json = \<lparr>j_Put = (\<lambda>b. (True, \<lparr>pr_key = [], pr_value = b\<rparr>)),
     j_CompareAndSwap = (\<lambda>b. (True, \<lparr>casr_key = [], casr_expect = [], casr_value = b\<rparr>)),
     j_BatchPut = (\<lambda>b. (True, \<lparr>br_entries = []\<rparr>))\<rparr>"

definition http_req :: "HttpMethod \<Rightarrow> string \<Rightarrow> string \<Rightarrow> http_request" where
  "http_req m path body = \<lparr>rq_method = m, rq_unresolved_path = path, rq_GetHeader = Map.empty,
     rq_GetQuery = Map.empty, rq_body = body\<rparr>"

definition empty_node :: "mem_db LocalNode" where
  "empty_node = \<lparr>ln_store = [], ln_hub = None\<rparr>"

theorem rest_put_get_witness:
  "\<exists>n' rs' resp n2 rs2 resp2 kv.
     KV_Rest ref_codec plain_json (LocalNode_class mem_leveldb ref_codec) empty_node
       (http_req HTTP_METHOD_POST ''a'' ''1'') http_response_init KVResponse_init = (n', rs', resp) \<and>
     KV_Rest ref_codec plain_json (LocalNode_class mem_leveldb ref_codec) n'
       (http_req HTTP_METHOD_GET ''a'' []) http_response_init KVResponse_init = (n2, rs2, resp2) \<and>
     resp2 = KVResponse_init\<lparr>kr_kv := Some kv\<rparr> \<and> kv_value kv = ''1'' \<and> kv_revision kv = 1"
proof -
  let ?N = "LocalNode_class mem_leveldb ref_codec"
  let ?post = "http_req HTTP_METHOD_POST ''a'' ''1''" and ?get = "http_req HTTP_METHOD_GET ''a'' []"
  obtain n' rs' resp where p: "KV_Rest ref_codec plain_json ?N empty_node ?post http_response_init KVResponse_init =
      (n', rs', resp)" by (metis prod_cases3)
  obtain n2 rs2 resp2 where g: "KV_Rest ref_codec plain_json ?N n' ?get http_response_init KVResponse_init =
      (n2, rs2, resp2)" by (metis prod_cases3)
  have "kr_code (snd (snd (KV_Rest ref_codec plain_json ?N empty_node ?post http_response_init KVResponse_init))) = OK"
    by code_simp
  then have ok: "kr_code resp = OK" by (simp add: p)
  have facts: "is_put_request ?post" "nn64 (LocalNode_CurrentRevision mem_leveldb empty_node + 1)"
      "rq_method ?get = HTTP_METHOD_GET" "rq_unresolved_path ?get = rq_unresolved_path ?post"
      "LocalNode_CurrentRevision mem_leveldb empty_node = 0" "pr_value (snd (j_Put plain_json (rq_body ?post))) = ''1''"
    by code_simp+
  have "store_inv ref_codec (map_of (ln_store empty_node))" by (simp add: empty_node_def store_inv_empty)
  from rest_put_get [OF mem_env.store_env_axioms this facts(1) TrueI TrueI facts(2) p ok facts(3) g] facts(4-6)
  obtain kv where kv: "resp2 = KVResponse_init\<lparr>kr_kv := Some kv\<rparr>" "kv_value kv = ''1''" "kv_revision kv = 1" by auto
  show ?thesis
    by (rule exI [of _ n'], rule exI [of _ rs'], rule exI [of _ resp], rule exI [of _ n2], rule exI [of _ rs2],
        rule exI [of _ resp2], rule exI [of _ kv]) (intro conjI p g kv)
qed

text \<open>
  Every REST request to the key-value service makes at most one Apply call on the node, with
  a command all of whose keys are non-empty, and answers with that call's result; any other
  request leaves the node as it was.  This holds for every node and every conversion of bodies.
\<close>

lemma kv_rest_one_command:
  assumes "KV_Rest P J N n rq rs resp0 = (n', rs', resp)"
  shows "n' = n \<or> (\<exists>cmd. [] \<notin> set (cmd_keys cmd) \<and> n' = fst (cn_Apply N n cmd ApplyResult_init) \<and>
    resp = FillResponse P (snd (cn_Apply N n cmd ApplyResult_init)) resp0)"
proof -
  have "one_command P N n resp0 n' resp"
    using assms by (auto simp: KV_Rest_def Let_def intro: kv_operations_one_command split: if_splits prod.splits)
  then show ?thesis by (simp add: one_command_def)
qed

text \<open>A conversion that fails and leaves the message as it was constructed.\<close>

definition failing_json :: json2pb where
  "failing_json = \<lparr>j_Put = (\<lambda>b. (False, \<lparr>pr_key = [], pr_value = []\<rparr>)),
     j_CompareAndSwap = (\<lambda>b. (False, \<lparr>casr_key = [], casr_expect = [], casr_value = []\<rparr>)),
     j_BatchPut = (\<lambda>b. (False, \<lparr>br_entries = []\<rparr>))\<rparr>"


end
