(* ===== verification/ConfigService.thy ===== *)
theory ConfigService
  imports NodeContract
begin

text \<open>
  src/src/server/config_service_impl.cpp: publishing, reading and rolling back configuration, over
  any ConfigNode \<open>N\<close> in the state \<open>n\<close>.
\<close>

section \<open>Messages\<close>

record PublishRequest =
  pub_key :: string
  pub_value :: string

record GetConfigRequest =
  gcr_key :: string
  gcr_version :: int

record RollbackRequest =
  rbr_key :: string
  rbr_target_version :: int

record ConfigResponse =
  cfr_code :: Code
  cfr_message :: string
  cfr_kv :: "KV option"
  cfr_history :: "KV list"

definition ConfigResponse_init :: ConfigResponse where
  "ConfigResponse_init = \<lparr>cfr_code = OK, cfr_message = [], cfr_kv = None, cfr_history = []\<rparr>"

text \<open>JsonToProtoMessage: whether the body converts, and the message after the call.\<close>

record config_json =
  j_Publish :: "string \<Rightarrow> bool \<times> PublishRequest"
  j_Rollback :: "string \<Rightarrow> bool \<times> RollbackRequest"

section \<open>The operations\<close>

text \<open>What DoPublish and DoRollback do with the result of their command.\<close>

definition answer_command :: "ApplyResult \<Rightarrow> ConfigResponse \<Rightarrow> ConfigResponse" where
  "answer_command result resp0 =
    (let resp = resp0\<lparr>cfr_code := ar_code result, cfr_message := ar_message result\<rparr>
     in if ar_code result = OK then resp\<lparr>cfr_kv := Some (ar_kv result)\<rparr>
        else if ar_code result = NOT_LEADER \<and> ar_leader_id result \<noteq> [] then
          resp\<lparr>cfr_message := ''not leader, leader='' @ ar_leader_id result\<rparr>
        else resp)"

definition DoPublish ::
  "'n ConfigNode \<Rightarrow> 'n \<Rightarrow> string \<Rightarrow> string \<Rightarrow> ConfigResponse \<Rightarrow> 'n \<times> ConfigResponse" where
  "DoPublish N n key val resp =
    (if \<not> IsValidKey key then (n, resp\<lparr>cfr_code := INVALID_ARGUMENT, cfr_message := ''empty key''\<rparr>)
     else
       let (n', result) = cn_Apply N n (Cmd_publish key val) ApplyResult_init
       in (n', answer_command result resp))"

definition DoGetConfig :: "'n ConfigNode \<Rightarrow> 'n \<Rightarrow> string \<Rightarrow> int \<Rightarrow> ConfigResponse \<Rightarrow> ConfigResponse" where
  "DoGetConfig N n key version resp0 =
    (let result = cn_GetConfig N n key version ConfigResult_init;
         resp = resp0\<lparr>cfr_code := cr_code result, cfr_message := cr_message result\<rparr>
     in if cr_code result = OK
        then resp\<lparr>cfr_kv := Some (cr_kv result), cfr_history := cfr_history resp @ cr_history result\<rparr>
        else resp)"

definition DoRollback ::
  "'n ConfigNode \<Rightarrow> 'n \<Rightarrow> string \<Rightarrow> int \<Rightarrow> ConfigResponse \<Rightarrow> 'n \<times> ConfigResponse" where
  "DoRollback N n key target_version resp =
    (if \<not> IsValidKey key then (n, resp\<lparr>cfr_code := INVALID_ARGUMENT, cfr_message := ''empty key''\<rparr>)
     else
       let (n', result) = cn_Apply N n (Cmd_rollback key target_version) ApplyResult_init
       in (n', answer_command result resp))"

section \<open>gRPC\<close>

definition Config_Publish ::
  "'n ConfigNode \<Rightarrow> 'n \<Rightarrow> http_request \<Rightarrow> PublishRequest \<Rightarrow> ConfigResponse \<Rightarrow> 'n \<times> ConfigResponse" where
  "Config_Publish N n cntl request response =
    DoPublish N n (ResolveKey cntl (pub_key request)) (pub_value request) response"

definition Config_GetConfig ::
  "'n ConfigNode \<Rightarrow> 'n \<Rightarrow> http_request \<Rightarrow> GetConfigRequest \<Rightarrow> ConfigResponse \<Rightarrow> ConfigResponse" where
  "Config_GetConfig N n cntl request response =
    DoGetConfig N n (ResolveKey cntl (gcr_key request)) (gcr_version request) response"

definition Config_Rollback ::
  "'n ConfigNode \<Rightarrow> 'n \<Rightarrow> http_request \<Rightarrow> RollbackRequest \<Rightarrow> ConfigResponse \<Rightarrow> 'n \<times> ConfigResponse" where
  "Config_Rollback N n cntl request response =
    DoRollback N n (ResolveKey cntl (rbr_key request)) (rbr_target_version request) response"

section \<open>REST\<close>

definition Config_Rest ::
  "config_json \<Rightarrow> 'n ConfigNode \<Rightarrow> 'n \<Rightarrow> http_request \<Rightarrow> http_response \<Rightarrow> ConfigResponse \<Rightarrow>
    'n \<times> http_response \<times> ConfigResponse" where
  "Config_Rest J N n rq rs0 response =
    (let (rs, preflight) = HandleCorsPreflight rq rs0;
         path = rq_unresolved_path rq
     in if preflight then (n, rs, response)
        else if rq_method rq = HTTP_METHOD_GET then
          (n, rs, DoGetConfig N n path (QueryInt64 rq ''version'' 0) response)
        else if rq_method rq \<noteq> HTTP_METHOD_POST then
          (n, rs, response\<lparr>cfr_code := INTERNAL, cfr_message := ''unsupported http method''\<rparr>)
        else if ends_with path ''/rollback'' then
          let key = take (length path - 9) path;
              (n', resp) = DoRollback N n key (rbr_target_version (snd (j_Rollback J (rq_body rq)))) response
          in (n', rs, resp)
        else
          let (n', resp) = DoPublish N n path (pub_value (snd (j_Publish J (rq_body rq)))) response
          in (n', rs, resp))"

lemma config_rest_is_rpc:
  assumes "Config_Rest J N n rq rs resp0 = (n', rs', resp)" "rq_method rq \<in> {HTTP_METHOD_GET, HTTP_METHOD_POST}"
  shows "(\<exists>req. n' = n \<and> resp = Config_GetConfig N n rpc_cntl req resp0) \<or>
    (\<exists>req. (n', resp) = Config_Publish N n rpc_cntl req resp0) \<or> (\<exists>req. (n', resp) = Config_Rollback N n rpc_cntl req resp0)"
proof -
  have get: "\<exists>req. DoGetConfig N n k v resp0 = Config_GetConfig N n rpc_cntl req resp0" for k v
    by (rule exI [of _ "\<lparr>gcr_key = k, gcr_version = v\<rparr>"]) (simp add: Config_GetConfig_def)
  have pub: "\<exists>req. DoPublish N n k v resp0 = Config_Publish N n rpc_cntl req resp0" for k v
    by (rule exI [of _ "\<lparr>pub_key = k, pub_value = v\<rparr>"]) (simp add: Config_Publish_def)
  have rb: "\<exists>req. DoRollback N n k v resp0 = Config_Rollback N n rpc_cntl req resp0" for k v
    by (rule exI [of _ "\<lparr>rbr_key = k, rbr_target_version = v\<rparr>"]) (simp add: Config_Rollback_def)
  let ?path = "rq_unresolved_path rq"
  consider "rq_method rq = HTTP_METHOD_GET" | "rq_method rq = HTTP_METHOD_POST" "ends_with ?path ''/rollback''"
    | "rq_method rq = HTTP_METHOD_POST" "\<not> ends_with ?path ''/rollback''" using assms(2) by blast
  then show ?thesis
  proof cases
    case 1
    then have "n' = n" "\<exists>v. resp = DoGetConfig N n ?path v resp0"
      using assms(1) by (auto simp: Config_Rest_def HandleCorsPreflight_def Let_def)
    then show ?thesis using get by metis
  next
    case 2
    then have "\<exists>k v. (n', resp) = DoRollback N n k v resp0"
      using assms(1) by (simp add: Config_Rest_def HandleCorsPreflight_def Let_def split: prod.splits) metis
    then show ?thesis using rb by metis
  next
    case 3
    then have "\<exists>v. (n', resp) = DoPublish N n ?path v resp0"
      using assms(1) by (simp add: Config_Rest_def HandleCorsPreflight_def Let_def split: prod.splits) metis
    then show ?thesis using pub by metis
  qed
qed

section \<open>What a client sees\<close>

lemma answer_command_code [simp]: "cfr_code (answer_command r resp) = ar_code r"
  by (simp add: answer_command_def Let_def)

lemma answer_command_kv: "ar_code r = OK \<Longrightarrow> cfr_kv (answer_command r resp) = Some (ar_kv r)"
  by (simp add: answer_command_def Let_def)

context config_node
begin

lemma DoGetConfig_found:
  assumes "inv n" "get_config n k v = (Some kv, c)"
  shows "cfr_code (DoGetConfig N n k v ConfigResponse_init) = OK \<and>
    cfr_kv (DoGetConfig N n k v ConfigResponse_init) = Some kv"
proof -
  obtain h where "cn_GetConfig N n k v ConfigResult_init = answer_config (get_config n k v) h ConfigResult_init"
    using config_answer [OF assms(1)] by blast
  then show ?thesis using assms(2) by (simp add: DoGetConfig_def answer_config_def Let_def)
qed

lemma publish_read:
  assumes "inv n" "key \<noteq> []" "fits (Cmd_publish key val)" "nn64 (rev n + 1)"
    and "DoPublish N n key val ConfigResponse_init = (n', resp)" "cfr_code resp = OK"
  shows "inv n' \<and> rev n' = rev n + 1 \<and> (\<exists>kv. cfr_kv resp = Some kv \<and> kv_value kv = val \<and>
    kv_revision kv = rev n + 1 \<and> kv_version kv = s_version (view n) key \<and>
    get_config n' key (kv_version kv) = (Some kv, OK) \<and> get n' key = (Some kv, OK) \<and>
    (\<forall>k' v. i64 v \<longrightarrow> 0 < v \<longrightarrow> (k', v) \<noteq> (key, kv_version kv) \<longrightarrow> get_config n' k' v = get_config n k' v))"
proof -
  obtain r where ap: "cn_Apply N n (Cmd_publish key val) ApplyResult_init = (n', r)" "ar_code r = OK"
      "cfr_kv resp = Some (ar_kv r)"
    using assms(2,5,6) by (auto simp: DoPublish_def IsValidKey_def answer_command_kv split: prod.splits)
  have nn: "nn64 (m_rev (view n) + cmd_cost (Cmd_publish key val))" "nn64 (m_rev (view n) + 1)"
    using assms(4) by (simp_all add: current_revision_law)
  have "r = snd (s_apply (view n) (Cmd_publish key val))"
    using applied(2) [OF assms(1,3) nn(1) ap(1)] ap(2) by simp
  then have "kv_version (ar_kv r) = s_version (view n) key"
    by (simp add: s_publish_def Let_def s_ok_def s_record_def)
  then show ?thesis
    using apply_law [OF assms(1,3) nn(1) ap(1)] write_read [OF assms(1,3) nn(1) ap(1,2), of key val]
      publish_versions [OF assms(1,3) nn(2) ap(1,2)] ap(3) by simp
qed

lemma version_of_read:
  assumes "inv n" "get n key = (Some kv, OK)"
  shows "s_version (view n) key = kv_version kv + 1"
  using assms by (auto simp: get_law s_get_def s_version_def split: option.splits if_splits)

lemma rollback_read:
  assumes "inv n" "key \<noteq> []" "fits (Cmd_rollback key v)" "nn64 (rev n + 1)" "i64 v"
    and "get_config n key v = (Some t, OK)"
    and "DoRollback N n key v ConfigResponse_init = (n', resp)" "cfr_code resp \<noteq> INTERNAL"
  shows "cfr_code resp = OK \<and> inv n' \<and> (\<exists>kv. cfr_kv resp = Some kv \<and> kv_value kv = kv_value t \<and>
    kv_revision kv = rev n + 1 \<and> get n' key = (Some kv, OK))"
proof -
  obtain r where ap: "cn_Apply N n (Cmd_rollback key v) ApplyResult_init = (n', r)" "resp = answer_command r ConfigResponse_init"
    using assms(2,7) by (auto simp: DoRollback_def IsValidKey_def split: prod.splits)
  have nn: "nn64 (m_rev (view n) + cmd_cost (Cmd_rollback key v))" "nn64 (m_rev (view n) + 1)"
    using assms(4) by (simp_all add: current_revision_law)
  have "ar_code r \<noteq> INTERNAL" using assms(8) ap(2) by simp
  from rollback_restores [OF assms(1,3) nn(2) assms(5) ap(1) assms(6) this]
  show ?thesis using apply_law [OF assms(1,3) nn(1) ap(1)] ap(2) by (simp add: answer_command_kv)
qed

text \<open>Publish twice, then roll back to the first version.\<close>

lemma publish_publish_rollback:
  assumes "inv n" "key \<noteq> []" "fits (Cmd_publish key a)" "fits (Cmd_publish key b)"
    and "\<And>v. i64 v \<Longrightarrow> fits (Cmd_rollback key v)" "nn64 (rev n + 3)" "nn64 (rev n)"
    and "DoPublish N n key a ConfigResponse_init = (n1, r1)" "cfr_code r1 = OK" "cfr_kv r1 = Some kv1"
    and "DoPublish N n1 key b ConfigResponse_init = (n2, r2)" "cfr_code r2 = OK"
    and "DoRollback N n2 key (kv_version kv1) ConfigResponse_init = (n3, r3)" "cfr_code r3 \<noteq> INTERNAL"
  shows "cfr_code r3 = OK \<and> (\<exists>kv. cfr_kv r3 = Some kv \<and> kv_value kv = a \<and> kv_revision kv = rev n + 3 \<and>
    cfr_code (DoGetConfig N n3 key 0 ConfigResponse_init) = OK \<and>
    cfr_kv (DoGetConfig N n3 key 0 ConfigResponse_init) = Some kv)"
proof -
  have nn: "nn64 (rev n + 1)" "nn64 (rev n + 2)" using assms(6,7) by (simp_all add: nn64_def)
  note p1 = publish_read [OF assms(1,2,3) nn(1) assms(8,9)]
  then have n1: "inv n1" "rev n1 = rev n + 1" "kv_value kv1 = a" "kv_version kv1 = s_version (view n) key"
      "get_config n1 key (kv_version kv1) = (Some kv1, OK)" "get n1 key = (Some kv1, OK)"
    using assms(10) by auto
  have "1 \<le> kv_version kv1" "kv_version kv1 \<le> rev n + 1"
    using mvcc_inv_version_bounds [OF inv_view [OF assms(1)], of key] n1(4) by (simp_all add: current_revision_law)
  then have v1: "i64 (kv_version kv1)" "0 < kv_version kv1" using nn(1) by (simp_all add: i64_def nn64_def)
  have "nn64 (rev n1 + 1)" using nn(2) n1(2) by (simp add: add.assoc)
  from publish_read [OF n1(1) assms(2,4) this assms(11,12)] version_of_read [OF n1(1,6)]
  have n2: "inv n2" "rev n2 = rev n + 2" "get_config n2 key (kv_version kv1) = (Some kv1, OK)"
    using v1 n1(2,5) by auto
  have "nn64 (rev n2 + 1)" using assms(6) n2(2) by (simp add: add.assoc)
  from rollback_read [OF n2(1) assms(2) assms(5) [OF v1(1)] this v1(1) n2(3) assms(13,14)] n1(3) n2(2)
  obtain kv where kv: "cfr_code r3 = OK" "inv n3" "cfr_kv r3 = Some kv" "kv_value kv = a" "kv_revision kv = rev n + 3"
      "get n3 key = (Some kv, OK)" by auto
  have "get_config n3 key 0 = (Some kv, OK)"
    using kv(2,6) get_config_law [OF kv(2), of 0 key] get_law [OF kv(2), of key]
    by (simp add: s_get_config_def i64_def)
  from DoGetConfig_found [OF kv(2) this] kv show ?thesis by blast
qed

end

section \<open>Properties\<close>

text \<open>
  (C26) Publish, publish, roll back.  On a single node, after two publishes of a key that answered
  OK, a rollback to the version of the first one answers OK unless the store fails, and the latest
  configuration then is the first value, as a new version at the third revision from the start.
\<close>

theorem config_rollback_restores:
  assumes "store_env L C P utf8" "store_inv P (C (ln_store n))" "key \<noteq> []" "utf8 key" "utf8 a" "utf8 b"
    and "N = LocalNode_class L P" "nn64 (LocalNode_CurrentRevision L n + 3)"
    and "DoPublish N n key a ConfigResponse_init = (n1, r1)" "cfr_code r1 = OK" "cfr_kv r1 = Some kv1"
    and "DoPublish N n1 key b ConfigResponse_init = (n2, r2)" "cfr_code r2 = OK"
    and "DoRollback N n2 key (kv_version kv1) ConfigResponse_init = (n3, r3)" "cfr_code r3 \<noteq> INTERNAL"
  shows "cfr_code r3 = OK \<and> (\<exists>kv. cfr_kv r3 = Some kv \<and> kv_value kv = a \<and>
    kv_revision kv = LocalNode_CurrentRevision L n + 3 \<and>
    cfr_code (DoGetConfig N n3 key 0 ConfigResponse_init) = OK \<and>
    cfr_kv (DoGetConfig N n3 key 0 ConfigResponse_init) = Some kv)"
proof -
  have "nn64 (LocalNode_CurrentRevision L n)"
    using store_inv_rev [OF assms(2)] store_env.CurrentRevision_refines [OF assms(1)]
    by (simp add: LocalNode_CurrentRevision_def)
  then show ?thesis
    using config_node.publish_publish_rollback [OF store_env.local_is_config_node [OF assms(1)] assms(2,3) _ _ _
        assms(8) _ assms(9-15) [unfolded assms(7)]] assms(4-6)
    unfolding assms(7) by simp
qed

theorem config_rollback_restores_witness:
  "let N = LocalNode_class mem_leveldb ref_codec;
       (n1, r1) = DoPublish N empty_node ''a'' ''x'' ConfigResponse_init;
       (n2, r2) = DoPublish N n1 ''a'' ''y'' ConfigResponse_init;
       (n3, r3) = DoRollback N n2 ''a'' 1 ConfigResponse_init
   in \<exists>kv. cfr_kv r3 = Some kv \<and> kv_value kv = ''x'' \<and> kv_revision kv = 3 \<and>
      cfr_kv (DoGetConfig N n3 ''a'' 0 ConfigResponse_init) = Some kv"
proof -
  let ?N = "LocalNode_class mem_leveldb ref_codec"
  obtain n1 r1 where p1: "DoPublish ?N empty_node ''a'' ''x'' ConfigResponse_init = (n1, r1)" by fastforce
  obtain n2 r2 where p2: "DoPublish ?N n1 ''a'' ''y'' ConfigResponse_init = (n2, r2)" by fastforce
  obtain n3 r3 where p3: "DoRollback ?N n2 ''a'' 1 ConfigResponse_init = (n3, r3)" by fastforce
  have "let (n1, r1) = DoPublish ?N empty_node ''a'' ''x'' ConfigResponse_init;
       (n2, r2) = DoPublish ?N n1 ''a'' ''y'' ConfigResponse_init;
       (n3, r3) = DoRollback ?N n2 ''a'' 1 ConfigResponse_init
    in cfr_code r1 = OK \<and> map_option kv_version (cfr_kv r1) = Some 1 \<and> cfr_code r2 = OK \<and> cfr_code r3 \<noteq> INTERNAL"
    by code_simp
  then obtain kv1 where c: "cfr_code r1 = OK" "cfr_kv r1 = Some kv1" "kv_version kv1 = 1" "cfr_code r2 = OK" "cfr_code r3 \<noteq> INTERNAL"
    by (auto simp: p1 p2 p3)
  have e: "store_inv ref_codec (map_of (ln_store empty_node))" "LocalNode_CurrentRevision mem_leveldb empty_node = 0"
    by (simp add: empty_node_def store_inv_empty) code_simp
  have "DoRollback ?N n2 ''a'' (kv_version kv1) ConfigResponse_init = (n3, r3)" by (simp add: c(3) p3)
  from config_rollback_restores [OF mem_env.store_env_axioms e(1) _ TrueI TrueI TrueI refl _ p1 c(1,2) p2 c(4) this c(5)]
  show ?thesis by (auto simp: e(2) nn64_def p1 p2 p3)
qed

end
