(* ===== verification/AdminService.thy ===== *)
theory AdminService
  imports Rest WatchHub
begin

text \<open>
  The other services: src/src/server/watch_service_impl.cpp, admin_service_impl.cpp and
  dashboard_service_impl.cpp.  The watch service starts the long poll of \<open>WatchHub\<close> with arguments
  from the request and copies its result; \<open>deadline_us\<close> is the controller's.  What the file streams
  of the dashboard give is the parameter \<open>files\<close>.
\<close>

section \<open>Watch\<close>

record WatchRequest =
  wq_key :: string
  wq_from_revision :: int
  wq_timeout_ms :: int

record WatchResponse =
  wp_code :: Code
  wp_message :: string
  wp_current_revision :: int
  wp_events :: "WatchEvent list"

definition WatchResponse_init :: WatchResponse where
  "WatchResponse_init = \<lparr>wp_code = OK, wp_message = [], wp_current_revision = 0, wp_events = []\<rparr>"

text \<open>DoWatch before and after the call of the node: the arguments of the poll, for the waiter \<open>w\<close>, and
  the response made of its result.\<close>

definition DoWatch_call :: "string \<Rightarrow> int \<Rightarrow> int \<Rightarrow> int \<Rightarrow> nat \<Rightarrow> watch_args" where
  "DoWatch_call key from_revision timeout_ms server_deadline_us w =
    watch_args_init key from_revision timeout_ms server_deadline_us w"

definition DoWatch_answer :: "WatchResult \<Rightarrow> WatchResponse \<Rightarrow> WatchResponse" where
  "DoWatch_answer result resp = resp\<lparr>wp_code := wr_code result, wp_message := wr_message result,
     wp_current_revision := wr_current_revision result, wp_events := wp_events resp @ wr_events result\<rparr>"

definition Watch_Watch :: "int \<Rightarrow> WatchRequest \<Rightarrow> nat \<Rightarrow> watch_args" where
  "Watch_Watch deadline_us rq w =
    DoWatch_call (wq_key rq) (wq_from_revision rq) (wq_timeout_ms rq) deadline_us w"

text \<open>An answer at once, or the arguments of the poll to start.\<close>

definition Watch_Rest ::
  "int \<Rightarrow> http_request \<Rightarrow> http_response \<Rightarrow> WatchResponse \<Rightarrow> nat \<Rightarrow>
    http_response \<times> (WatchResponse + watch_args)" where
  "Watch_Rest deadline_us rq rs0 response w =
    (let (rs, preflight) = HandleCorsPreflight rq rs0
     in if preflight then (rs, Inl response)
        else if rq_method rq \<noteq> HTTP_METHOD_GET then
          (rs, Inl (response\<lparr>wp_code := INTERNAL, wp_message := ''unsupported http method, use GET''\<rparr>))
        else
          (rs, Inr (DoWatch_call (rq_unresolved_path rq) (QueryInt64 rq ''from_revision'' 0)
             (QueryInt64 rq ''timeout_ms'' 30000) deadline_us w)))"

section \<open>Administration\<close>

record GetHealthResponse =
  hr_code :: Code
  hr_message :: string
  hr_role :: string
  hr_term :: int
  hr_commit_index :: int
  hr_applied_index :: int
  hr_leader_id :: string
  hr_peers :: "string list"

record AdminResponse =
  adm_code :: Code
  adm_message :: string

definition Admin_GetHealth ::
  "'n ConfigNode \<Rightarrow> 'n \<Rightarrow> http_request \<Rightarrow> http_response \<Rightarrow> GetHealthResponse \<Rightarrow> http_response \<times> GetHealthResponse" where
  "Admin_GetHealth N n rq rs0 response =
    (let (rs, preflight) = HandleCorsPreflight rq rs0
     in if preflight then (rs, response)
        else (rs, response\<lparr>hr_code := OK, hr_message := ''ok'', hr_role := cn_Role N n, hr_term := cn_Term N n,
          hr_commit_index := cn_CommitIndex N n, hr_applied_index := cn_AppliedIndex N n,
          hr_leader_id := cn_LeaderId N n, hr_peers := hr_peers response @ cn_Peers N n\<rparr>))"

definition Admin_AddPeer ::
  "'n ConfigNode \<Rightarrow> 'n \<Rightarrow> http_request \<Rightarrow> string \<Rightarrow> http_response \<Rightarrow> AdminResponse \<Rightarrow> http_response \<times> AdminResponse" where
  "Admin_AddPeer N n rq peer rs0 response =
    (let (rs, preflight) = HandleCorsPreflight rq rs0
     in if preflight then (rs, response)
        else
          let result = cn_AddPeer N n peer ConfChangeResult_init
          in (rs, response\<lparr>adm_code := cc_code result, adm_message := cc_message result\<rparr>))"

definition Admin_RemovePeer ::
  "'n ConfigNode \<Rightarrow> 'n \<Rightarrow> http_request \<Rightarrow> string \<Rightarrow> http_response \<Rightarrow> AdminResponse \<Rightarrow> http_response \<times> AdminResponse" where
  "Admin_RemovePeer N n rq peer rs0 response =
    (let (rs, preflight) = HandleCorsPreflight rq rs0
     in if preflight then (rs, response)
        else
          let result = cn_RemovePeer N n peer ConfChangeResult_init
          in (rs, response\<lparr>adm_code := cc_code result, adm_message := cc_message result\<rparr>))"

section \<open>Dashboard\<close>

definition ContentType :: "string \<Rightarrow> string" where
  "ContentType path =
    (let ext = (case rfind_char (CHR ''.'') path of None \<Rightarrow> [] | Some dot \<Rightarrow> drop (dot + 1) path)
     in if ext = ''html'' \<or> ext = [] then ''text/html; charset=utf-8''
        else if ext = ''css'' then ''text/css; charset=utf-8''
        else if ext = ''js'' then ''application/javascript; charset=utf-8''
        else if ext = ''json'' then ''application/json''
        else if ext = ''svg'' then ''image/svg+xml''
        else if ext = ''png'' then ''image/png''
        else if ext = ''ico'' then ''image/x-icon''
        else ''application/octet-stream'')"

text \<open>
  What a std::ifstream on an opened path gives: the position after seekg to the end (negative on
  failure), the bytes that read finds, and whether an I/O error stops it.  A path that does not open
  is None.  resize throws when the size exceeds what a string can hold, \<open>max_size\<close>.
\<close>

record ifstream =
  ifs_tellg :: int
  ifs_data :: string
  ifs_bad :: bool

definition ReadFile :: "int \<Rightarrow> (string \<Rightarrow> ifstream option) \<Rightarrow> string \<Rightarrow> cxx_exn + string option" where
  "ReadFile max_size files path =
    (case files path of
       None \<Rightarrow> Inr None
     | Some f \<Rightarrow>
         let size = ifs_tellg f
         in if size < 0 then Inr None
            else if size > max_size then Inl Length_error
            else
              let got = take (nat size) (ifs_data f)
              in if ifs_bad f then Inr None
                 else Inr (Some (got @ replicate (nat size - length got) (CHR 0x00))))"

definition Dashboard_Rest ::
  "int \<Rightarrow> (string \<Rightarrow> ifstream option) \<Rightarrow> string \<Rightarrow> http_request \<Rightarrow> http_response \<Rightarrow> cxx_exn + http_response" where
  "Dashboard_Rest max_size files web_dir rq rs =
    (if rq_method rq \<noteq> HTTP_METHOD_GET then Inr (rs\<lparr>rs_status_code := 404\<rparr>)
     else
       let path = (if rq_unresolved_path rq = [] then ''index.html'' else rq_unresolved_path rq)
       in if path ! 0 = CHR ''/'' \<or> find_str ''..'' path \<noteq> None then Inr (rs\<lparr>rs_status_code := 404\<rparr>)
          else case ReadFile max_size files (web_dir @ ''/'' @ path) of
            Inl e \<Rightarrow> Inl e
          | Inr None \<Rightarrow> Inr (rs\<lparr>rs_status_code := 404\<rparr>)
          | Inr (Some contents) \<Rightarrow>
              Inr (rs\<lparr>rs_content_type := ContentType path, rs_attachment := rs_attachment rs @ contents\<rparr>))"

section \<open>Paths\<close>

text \<open>The components of a path, and the directories one climbs below a start.\<close>

fun split_path :: "string \<Rightarrow> string list" where
  "split_path [] = [[]]"
| "split_path (c # cs) = (if c = CHR ''/'' then [] # split_path cs
     else case split_path cs of [] \<Rightarrow> [[c]] | p # ps \<Rightarrow> (c # p) # ps)"

lemma split_path_nonempty: "split_path s \<noteq> []"
  by (induction s) (simp_all split: list.split)

lemma split_path_sublist: "p \<in> set (split_path s) \<Longrightarrow> sublist p s"
proof -
  have "(\<exists>r. s = hd (split_path s) @ r) \<and> (\<forall>p \<in> set (split_path s). sublist p s)"
  proof (induction s)
    case (Cons c cs)
    obtain p ps where sp: "split_path cs = p # ps" using split_path_nonempty [of cs] by (cases "split_path cs") auto
    with Cons.IH obtain r where r: "cs = p @ r" by auto
    have sub: "sublist q (c # cs)" if "q \<in> set (split_path cs)" for q
      using Cons.IH that by (simp add: sublist_Cons_right)
    show ?case
    proof (cases "c = CHR ''/''")
      case True
      then show ?thesis using sub by auto
    next
      case False
      have "sublist (c # p) (c # cs)" using r by (auto simp: sublist_def intro: exI [of _ "[]"])
      with False sp sub r show ?thesis by auto
    qed
  qed simp
  then show "p \<in> set (split_path s) \<Longrightarrow> sublist p s" by blast
qed

section \<open>Properties\<close>

text \<open>
  (C30) The arguments of a watch are within bounds whatever the query string holds: a poll started
  over REST waits between one millisecond and one minute, resumes from a revision that is not
  negative and fits in 64 bits, and waits half a minute when no timeout is given.
\<close>

theorem watch_rest_bounds:
  assumes "Watch_Rest deadline_us rq rs resp w = (rs', Inr a)"
  shows "1 \<le> wa_timeout_ms a \<and> wa_timeout_ms a \<le> 60000 \<and> nn64 (wa_from a) \<and>
    wa_key a = rq_unresolved_path rq \<and> (rq_GetQuery rq ''timeout_ms'' = None \<longrightarrow> wa_timeout_ms a = 30000)"
proof -
  have i64: "i64 (QueryInt64 rq name d)" if "i64 d" for name d
    using that strtoll_range by (auto simp: QueryInt64_def split: option.split prod.split)
  have "i64 (QueryInt64 rq ''from_revision'' 0)" by (rule i64) (simp add: i64_def)
  moreover have "a = DoWatch_call (rq_unresolved_path rq) (QueryInt64 rq ''from_revision'' 0)
      (QueryInt64 rq ''timeout_ms'' 30000) deadline_us w"
    using assms by (simp add: Watch_Rest_def split: prod.splits if_splits)
  ultimately show ?thesis
    by (auto simp: DoWatch_call_def watch_args_init_def i64_def nn64_def QueryInt64_def [of rq "''timeout_ms''"])
qed

definition watch_query :: "string \<Rightarrow> string \<Rightarrow> http_request" where
  "watch_query f t = \<lparr>rq_method = HTTP_METHOD_GET, rq_unresolved_path = ''a'', rq_GetHeader = Map.empty,
     rq_GetQuery = [''from_revision'' \<mapsto> f, ''timeout_ms'' \<mapsto> t], rq_body = []\<rparr>"

theorem watch_rest_bounds_witness:
  "\<exists>rs a. Watch_Rest 0 (watch_query ''99999999999999999999'' ''-5'') http_response_init WatchResponse_init 0 = (rs, Inr a) \<and>
     wa_from a = 2 ^ 63 - 1 \<and> wa_timeout_ms a = 1 \<and> nn64 (wa_from a)"
proof -
  let ?r = "Watch_Rest 0 (watch_query ''99999999999999999999'' ''-5'') http_response_init WatchResponse_init 0"
  have "case snd ?r of Inr a \<Rightarrow> wa_from a = 2 ^ 63 - 1 \<and> wa_timeout_ms a = 1 | Inl _ \<Rightarrow> False"
    by (simp add: Watch_Rest_def HandleCorsPreflight_def watch_query_def DoWatch_call_def watch_args_init_def
        QueryInt64_def c_str_def strtoll_def is_space_def skip_0x_def is_digit_def digit_val_def Let_def)
  then obtain rs a where r: "?r = (rs, Inr a)" "wa_from a = 2 ^ 63 - 1" "wa_timeout_ms a = 1"
    by (cases ?r) (auto split: sum.splits)
  with watch_rest_bounds [OF r(1)] show ?thesis by blast
qed

text \<open>
  (C31) The dashboard stays inside its directory.  Every file it serves is named by the directory, a
  slash and a path that does not begin with a slash and has no component that names the parent
  directory; what is attached to the answer is what was read of that file, filled up to the size
  its stream reported, and nothing else.
\<close>

theorem dashboard_stays_inside:
  assumes "Dashboard_Rest max_size files web_dir rq rs = Inr rs'" "rs_attachment rs' \<noteq> rs_attachment rs"
  shows "\<exists>path f. path \<noteq> [] \<and> hd path \<noteq> CHR ''/'' \<and> ''..'' \<notin> set (split_path path) \<and>
    files (web_dir @ ''/'' @ path) = Some f \<and> (\<exists>contents. rs_attachment rs' = rs_attachment rs @ contents \<and>
      int (length contents) = ifs_tellg f \<and> (ifs_tellg f = int (length (ifs_data f)) \<longrightarrow> contents = ifs_data f))"
proof -
  let ?path = "if rq_unresolved_path rq = [] then ''index.html'' else rq_unresolved_path rq"
  have ne: "?path \<noteq> []" by simp
  obtain contents where get: "?path ! 0 \<noteq> CHR ''/''" "find_str ''..'' ?path = None"
      "ReadFile max_size files (web_dir @ ''/'' @ ?path) = Inr (Some contents)"
      "rs_attachment rs' = rs_attachment rs @ contents"
    using assms by (auto simp: Dashboard_Rest_def Let_def split: if_splits option.splits sum.splits)
  have "''..'' \<notin> set (split_path ?path)" using get(2) split_path_sublist find_str_None by metis
  moreover obtain f where "files (web_dir @ ''/'' @ ?path) = Some f" "int (length contents) = ifs_tellg f"
      "ifs_tellg f = int (length (ifs_data f)) \<longrightarrow> contents = ifs_data f"
    using get(3) by (auto simp: ReadFile_def Let_def split: option.splits if_splits)
  ultimately show ?thesis using ne get(1,4) by (intro exI [of _ ?path] exI [of _ f]) (auto simp: hd_conv_nth)
qed

definition plain_file :: "string \<Rightarrow> ifstream" where
  "plain_file s = \<lparr>ifs_tellg = int (length s), ifs_data = s, ifs_bad = False\<rparr>"

definition demo_site :: "string \<Rightarrow> ifstream option" where
  "demo_site = [''web/app.js'' \<mapsto> plain_file ''x'', ''web/../secret'' \<mapsto> plain_file ''y'',
     ''web/.'' \<mapsto> \<lparr>ifs_tellg = 2 ^ 63 - 1, ifs_data = [], ifs_bad = True\<rparr>]"

definition page :: "string \<Rightarrow> http_request" where
  "page path = \<lparr>rq_method = HTTP_METHOD_GET, rq_unresolved_path = path, rq_GetHeader = Map.empty,
     rq_GetQuery = Map.empty, rq_body = []\<rparr>"

theorem dashboard_stays_inside_witness:
  "map_sum id rs_attachment (Dashboard_Rest (2 ^ 62) demo_site ''web'' (page ''../secret'') http_response_init) = Inr [] \<and>
   (\<exists>path f rs'. ''..'' \<notin> set (split_path path) \<and> demo_site (''web'' @ ''/'' @ path) = Some f \<and>
     Dashboard_Rest (2 ^ 62) demo_site ''web'' (page ''app.js'') http_response_init = Inr rs' \<and> rs_attachment rs' = ''x'')"
proof -
  have "map_sum id rs_attachment (Dashboard_Rest (2 ^ 62) demo_site ''web'' (page ''app.js'') http_response_init) = Inr ''x''"
    "map_sum id rs_attachment (Dashboard_Rest (2 ^ 62) demo_site ''web'' (page ''../secret'') http_response_init) = Inr []"
    "rs_attachment http_response_init = []" by code_simp+
  moreover from this(1) obtain rs' where "Dashboard_Rest (2 ^ 62) demo_site ''web'' (page ''app.js'') http_response_init = Inr rs'"
      "rs_attachment rs' = ''x''"
    by (cases "Dashboard_Rest (2 ^ 62) demo_site ''web'' (page ''app.js'') http_response_init") auto
  ultimately show ?thesis
    using dashboard_stays_inside [of "2 ^ 62" demo_site "''web''" "page ''app.js''" http_response_init rs'] by auto
qed

text \<open>A path that names a directory opens and reports a size that no string can have: the exception is not
  caught anywhere.\<close>

lemma dashboard_directory_throws:
  "map_sum id rs_attachment (Dashboard_Rest (2 ^ 62) demo_site ''web'' (page ''.'') http_response_init) = Inl Length_error"
  by code_simp

end
