(* ===== verification/RaftNode.thy ===== *)
theory RaftNode
  imports LocalNode CppString
begin

text \<open>
  src/src/raft/raft_node.cpp: the node of a cluster.  braft, the clock and the store's progress are
  the environment of a call: functions of a counter that goes up by one with each observation the
  call makes, so that anything may happen between two observations.  A loop that waits for the
  environment is a \<open>partial_function\<close>: its value is None if it never returns.

  The members store_ and node_ are null until Init; a call through a null pointer is
  \<open>Null_deref\<close>.
\<close>

section \<open>The environment\<close>

datatype LeaderLeaseState = LEASE_VALID | LEASE_EXPIRED | LEASE_DISABLED | LEASE_NOT_READY

datatype State = STATE_LEADER | STATE_TRANSFERRING | STATE_CANDIDATE | STATE_FOLLOWER
  | STATE_ERROR | STATE_UNINITIALIZED | STATE_SHUTTING | STATE_SHUTDOWN

record NodeStatus =
  ns_state :: State
  ns_term :: int
  ns_committed_index :: int
  ns_known_applied_index :: int

text \<open>
  gettimeofday_us, get_leader_lease_status, get_status, is_leader, leader_id (the empty string
  for the empty PeerId), list_peers (None if its status is not ok), the term in the state machine's
  leader_term_, and the store.
\<close>

record 'db raft_env =
  en_now :: "nat \<Rightarrow> int"
  en_lease :: "nat \<Rightarrow> LeaderLeaseState"
  en_status :: "nat \<Rightarrow> NodeStatus"
  en_is_leader :: "nat \<Rightarrow> bool"
  en_leader_id :: "nat \<Rightarrow> string"
  en_list_peers :: "nat \<Rightarrow> string list option"
  en_leader_term :: "nat \<Rightarrow> int"
  en_db :: "nat \<Rightarrow> 'db"

record RaftNode =
  rn_has_store :: bool
  rn_has_node :: bool
  rn_group :: string
  rn_has_hub :: bool

datatype 'a call = Returned 'a | Null_deref

definition RaftNode_new :: "bool \<Rightarrow> RaftNode" where
  "RaftNode_new hub = \<lparr>rn_has_store = False, rn_has_node = False, rn_group = [], rn_has_hub = hub\<rparr>"

definition kLeaseWaitMs :: int where
  "kLeaseWaitMs = 1000"

definition kCatchupWaitMs :: int where
  "kCatchupWaitMs = 1000"

definition kConfChangeTimeoutSec :: int where
  "kConfChangeTimeoutSec = 60"


section \<open>Start\<close>

text \<open>
  Init: \<open>endpoint_ok\<close>, \<open>peers_ok\<close> and \<open>init_ok\<close> are whether str2endpoint, Configuration::parse_from and
  Node::init return 0.  The result is the node, and the error that is stored through err.
\<close>

definition RaftNode_Init ::
  "bool \<Rightarrow> bool \<Rightarrow> bool \<Rightarrow> RaftNode \<Rightarrow> string \<Rightarrow> string \<Rightarrow> int \<Rightarrow> string \<Rightarrow>
    RaftNode \<times> string option" where
  "RaftNode_Init endpoint_ok peers_ok init_ok n grp listen_ip port peers =
    (let n1 = n\<lparr>rn_group := grp, rn_has_store := True\<rparr>
     in if \<not> endpoint_ok then (n1, Some (''invalid listen address '' @ listen_ip @ '':'' @ to_string port))
        else if \<not> peers_ok then (n1, Some (''fail to parse peers `'' @ peers @ [CHR 0x27]))
        else
          let n2 = n1\<lparr>rn_has_node := True\<rparr>
          in if \<not> init_ok then (n2, Some (''fail to init raft node '' @ grp))
             else (n2, None))"

text \<open>AddServiceToServer over what braft::add_service returns; the destructor, as its calls of the braft node.\<close>

definition RaftNode_AddServiceToServer :: "int \<Rightarrow> bool" where
  "RaftNode_AddServiceToServer add_service \<longleftrightarrow> \<not> add_service \<noteq> 0"

datatype node_call = Node_shutdown | Node_join

definition RaftNode_dtor :: "RaftNode \<Rightarrow> node_call list" where
  "RaftNode_dtor n = (if rn_has_node n then [Node_shutdown, Node_join] else [])"

section \<open>Meta information\<close>

definition RaftNode_IsLeader :: "'db raft_env \<Rightarrow> RaftNode \<Rightarrow> nat \<Rightarrow> bool" where
  "RaftNode_IsLeader env n t \<longleftrightarrow> rn_has_node n \<and> en_is_leader env t"

definition RaftNode_LeaderId :: "'db raft_env \<Rightarrow> RaftNode \<Rightarrow> nat \<Rightarrow> string" where
  "RaftNode_LeaderId env n t = (if \<not> rn_has_node n then [] else en_leader_id env t)"

definition RaftNode_Role :: "'db raft_env \<Rightarrow> RaftNode \<Rightarrow> nat \<Rightarrow> string" where
  "RaftNode_Role env n t =
    (if \<not> rn_has_node n then ''uninitialized''
     else case ns_state (en_status env t) of
       STATE_LEADER \<Rightarrow> ''leader''
     | STATE_CANDIDATE \<Rightarrow> ''candidate''
     | STATE_TRANSFERRING \<Rightarrow> ''transferring''
     | _ \<Rightarrow> ''follower'')"

definition RaftNode_Term :: "'db raft_env \<Rightarrow> RaftNode \<Rightarrow> nat \<Rightarrow> int" where
  "RaftNode_Term env n t = (if \<not> rn_has_node n then 0 else ns_term (en_status env t))"

definition RaftNode_CommitIndex :: "'db raft_env \<Rightarrow> RaftNode \<Rightarrow> nat \<Rightarrow> int" where
  "RaftNode_CommitIndex env n t = (if \<not> rn_has_node n then 0 else ns_committed_index (en_status env t))"

definition RaftNode_AppliedIndex :: "'db raft_env \<Rightarrow> RaftNode \<Rightarrow> nat \<Rightarrow> int" where
  "RaftNode_AppliedIndex env n t = (if \<not> rn_has_node n then 0 else ns_known_applied_index (en_status env t))"

definition RaftNode_Peers :: "'db raft_env \<Rightarrow> RaftNode \<Rightarrow> nat \<Rightarrow> string list" where
  "RaftNode_Peers env n t =
    (if \<not> rn_has_node n then []
     else case en_list_peers env t of None \<Rightarrow> [] | Some peers \<Rightarrow> peers)"

section \<open>Writes\<close>

record Task =
  task_data :: bytes
  task_expected_term :: "int option"

text \<open>
  The first half of Apply: an answer at once, or the task handed to braft together with the new
  closure that points at the caller's result.  The second half is WaitFor on that closure.
\<close>

definition RaftNode_Apply ::
  "cmd_codec \<Rightarrow> 'db raft_env \<Rightarrow> RaftNode \<Rightarrow> nat \<Rightarrow> RaftCmd \<Rightarrow> ApplyResult \<Rightarrow> ApplyResult + Task \<times> closure" where
  "RaftNode_Apply Q env n t cmd out =
    (if \<not> RaftNode_IsLeader env n t then
       Inl (out\<lparr>ar_code := NOT_LEADER, ar_leader_id := RaftNode_LeaderId env n (t + 1)\<rparr>)
     else
       let term = en_leader_term env (t + 1)
       in Inr (\<lparr>task_data = ser_cmd Q cmd, task_expected_term = (if term > 0 then Some term else None)\<rparr>,
               ApplyClosure_init out))"

text \<open>braft refuses a task: it sets the closure's status and runs it.\<close>

definition refuse_task :: "int \<Rightarrow> string \<Rightarrow> closure \<Rightarrow> closure" where
  "refuse_task code msg c = Run (set_error code msg c)"

section \<open>Waiting\<close>

text \<open>Each loop returns its answer and the number of the next observation.\<close>

partial_function (option) WaitLeaderLease_loop ::
  "'db raft_env \<Rightarrow> int \<Rightarrow> nat \<Rightarrow> (bool \<times> nat) option" where
  [code]: "WaitLeaderLease_loop env deadline_us t =
    (case en_lease env t of
       LEASE_VALID \<Rightarrow> Some (True, t + 1)
     | LEASE_EXPIRED \<Rightarrow> Some (False, t + 1)
     | LEASE_DISABLED \<Rightarrow> Some (False, t + 1)
     | LEASE_NOT_READY \<Rightarrow>
         if en_now env (t + 1) \<ge> deadline_us then Some (False, t + 2)
         else WaitLeaderLease_loop env deadline_us (t + 2))"

definition WaitLeaderLease :: "'db raft_env \<Rightarrow> RaftNode \<Rightarrow> int \<Rightarrow> nat \<Rightarrow> (bool \<times> nat) option" where
  "WaitLeaderLease env n timeout_ms t =
    (if \<not> rn_has_node n then Some (False, t)
     else WaitLeaderLease_loop env (en_now env t + timeout_ms * 1000) (t + 1))"

partial_function (option) WaitAppliedCatchUp_loop ::
  "'db raft_env \<Rightarrow> int \<Rightarrow> nat \<Rightarrow> (bool \<times> nat) option" where
  [code]: "WaitAppliedCatchUp_loop env deadline_us t =
    (if ns_known_applied_index (en_status env t) \<ge> ns_committed_index (en_status env t) then Some (True, t + 1)
     else if en_now env (t + 1) \<ge> deadline_us then Some (False, t + 2)
     else WaitAppliedCatchUp_loop env deadline_us (t + 2))"

definition WaitAppliedCatchUp :: "'db raft_env \<Rightarrow> RaftNode \<Rightarrow> int \<Rightarrow> nat \<Rightarrow> (bool \<times> nat) option" where
  "WaitAppliedCatchUp env n timeout_ms t =
    (if \<not> rn_has_node n then Some (False, t)
     else WaitAppliedCatchUp_loop env (en_now env t + timeout_ms * 1000) (t + 1))"

section \<open>Reads\<close>

definition RaftNode_read_store ::
  "'db leveldb \<Rightarrow> codec \<Rightarrow> 'db raft_env \<Rightarrow> RaftNode \<Rightarrow> nat \<Rightarrow> string \<Rightarrow> GetResult \<Rightarrow> GetResult call" where
  "RaftNode_read_store L P env n t key out =
    (if \<not> rn_has_store n then Null_deref
     else Returned (answer_get (GetLocked L P (en_db env t) key) out))"

definition RaftNode_Get ::
  "'db leveldb \<Rightarrow> codec \<Rightarrow> 'db raft_env \<Rightarrow> RaftNode \<Rightarrow> nat \<Rightarrow> string \<Rightarrow> bool \<Rightarrow> GetResult \<Rightarrow>
    GetResult call option" where
  "RaftNode_Get L P env n t key serializable out =
    (if serializable then Some (RaftNode_read_store L P env n t key out)
     else
       (case WaitLeaderLease env n kLeaseWaitMs t of
          None \<Rightarrow> None
        | Some (False, t1) \<Rightarrow>
            Some (Returned
              (if RaftNode_IsLeader env n t1
               then out\<lparr>gr_code := INTERNAL, gr_message := ''leader not ready for linearizable read, retry''\<rparr>
               else out\<lparr>gr_code := NOT_LEADER, gr_leader_id := RaftNode_LeaderId env n (t1 + 1)\<rparr>))
        | Some (True, t1) \<Rightarrow>
            (case WaitAppliedCatchUp env n kCatchupWaitMs t1 of
               None \<Rightarrow> None
             | Some (False, t2) \<Rightarrow>
                 Some (Returned (out\<lparr>gr_code := INTERNAL, gr_message := ''apply catch-up timeout''\<rparr>))
             | Some (True, t2) \<Rightarrow> Some (RaftNode_read_store L P env n t2 key out))))"

definition RaftNode_GetConfig ::
  "'db leveldb \<Rightarrow> codec \<Rightarrow> 'db raft_env \<Rightarrow> RaftNode \<Rightarrow> nat \<Rightarrow> string \<Rightarrow> int \<Rightarrow> ConfigResult \<Rightarrow>
    ConfigResult call" where
  "RaftNode_GetConfig L P env n t key version out =
    (if \<not> rn_has_store n then Null_deref
     else Returned (answer_config (GetConfigLocked L P (en_db env t) key version)
       (cr_history out @ GetHistoryLocked L P (en_db env (t + 1)) key) out))"

text \<open>Watch passes its store pointer on, null or not (the flag), and starts the poll of the hub.\<close>

definition RaftNode_Watch :: "RaftNode \<Rightarrow> (bool \<times> 'db watch_pc) call" where
  "RaftNode_Watch n = (if rn_has_hub n then Returned (rn_has_store n, W_quick) else Null_deref)"

definition RaftNode_CurrentRevision :: "'db leveldb \<Rightarrow> 'db raft_env \<Rightarrow> RaftNode \<Rightarrow> nat \<Rightarrow> int call" where
  "RaftNode_CurrentRevision L env n t =
    (if \<not> rn_has_store n then Null_deref else Returned (CurrentRevisionLocked L (en_db env t)))"

definition RaftNode_Compaction ::
  "'db leveldb \<Rightarrow> codec \<Rightarrow> RaftNode \<Rightarrow> 'db \<Rightarrow> 'db \<Rightarrow> int \<Rightarrow> (cxx_exn + 'db \<times> int) call" where
  "RaftNode_Compaction L P n db_it db keep_versions =
    (if \<not> rn_has_store n then Null_deref else Returned (CompactionLocked L P db_it db keep_versions))"

section \<open>Membership\<close>

text \<open>ConfChangeOutcome: the status once done, as ConfChangeClosure's Run sets it.\<close>

record ConfChangeOutcome =
  co_done :: bool
  co_status :: butil_status

definition ConfChangeOutcome_init :: ConfChangeOutcome where
  "ConfChangeOutcome_init = \<lparr>co_done = False, co_status = Status_ok\<rparr>"

definition ConfChangeClosure_Run :: "butil_status \<Rightarrow> ConfChangeOutcome \<Rightarrow> ConfChangeOutcome" where
  "ConfChangeClosure_Run status o1 = o1\<lparr>co_status := status, co_done := True\<rparr>"

text \<open>
  The wait of AddPeer and RemovePeer, under the outcome's mutex: \<open>outcome t\<close> is the outcome at
  observation t.  The lock is released only inside wait_for, so the outcome that ends the loop is
  the one examined after it.
\<close>

partial_function (option) conf_change_wait ::
  "'db raft_env \<Rightarrow> (nat \<Rightarrow> ConfChangeOutcome) \<Rightarrow> int \<Rightarrow> nat \<Rightarrow> ConfChangeOutcome option" where
  [code]: "conf_change_wait env outcome deadline_us t =
    (if \<not> co_done (outcome t) \<and> en_now env (t + 1) < deadline_us
     then conf_change_wait env outcome deadline_us (t + 2)
     else Some (outcome t))"

definition conf_change_answer ::
  "string \<Rightarrow> string \<Rightarrow> string \<Rightarrow> ConfChangeOutcome \<Rightarrow> ConfChangeResult \<Rightarrow> ConfChangeResult" where
  "conf_change_answer what did peer o1 out =
    (if \<not> co_done o1 then
       out\<lparr>cc_code := INTERNAL, cc_message := what @ '' peer timed out after '' @ to_string kConfChangeTimeoutSec @
         ''s (change may still be in progress), check health later''\<rparr>
     else if co_status o1 \<noteq> Status_ok then
       out\<lparr>cc_code := INTERNAL, cc_message := error_str (co_status o1)\<rparr>
     else out\<lparr>cc_code := OK, cc_message := ''peer '' @ peer @ did\<rparr>)"

definition conf_change ::
  "(string \<Rightarrow> bool) \<Rightarrow> string \<Rightarrow> string \<Rightarrow> 'db raft_env \<Rightarrow> (nat \<Rightarrow> ConfChangeOutcome) \<Rightarrow>
    RaftNode \<Rightarrow> nat \<Rightarrow> string \<Rightarrow> ConfChangeResult \<Rightarrow> ConfChangeResult option" where
  "conf_change parse_peer what did env outcome n t peer out =
    (if \<not> rn_has_node n then
       Some (out\<lparr>cc_code := INTERNAL, cc_message := ''raft node not initialized''\<rparr>)
     else if \<not> RaftNode_IsLeader env n t then
       Some (out\<lparr>cc_code := NOT_LEADER, cc_message := ''not leader, leader='' @ RaftNode_LeaderId env n (t + 1)\<rparr>)
     else if \<not> parse_peer (c_str peer) then
       Some (out\<lparr>cc_code := INTERNAL, cc_message := ''invalid peer address `'' @ peer @ [CHR 0x27]\<rparr>)
     else
       map_option (\<lambda>o1. conf_change_answer what did peer o1 out)
         (conf_change_wait env outcome (en_now env (t + 1) + kConfChangeTimeoutSec * 1000000) (t + 2)))"

definition RaftNode_AddPeer ::
  "(string \<Rightarrow> bool) \<Rightarrow> 'db raft_env \<Rightarrow> (nat \<Rightarrow> ConfChangeOutcome) \<Rightarrow>
    RaftNode \<Rightarrow> nat \<Rightarrow> string \<Rightarrow> ConfChangeResult \<Rightarrow> ConfChangeResult option" where
  "RaftNode_AddPeer parse_peer = conf_change parse_peer ''add'' '' added''"

definition RaftNode_RemovePeer ::
  "(string \<Rightarrow> bool) \<Rightarrow> 'db raft_env \<Rightarrow> (nat \<Rightarrow> ConfChangeOutcome) \<Rightarrow>
    RaftNode \<Rightarrow> nat \<Rightarrow> string \<Rightarrow> ConfChangeResult \<Rightarrow> ConfChangeResult option" where
  "RaftNode_RemovePeer parse_peer = conf_change parse_peer ''remove'' '' removed''"

section \<open>The waits\<close>

lemma lease_loop_returns:
  "deadline \<le> en_now env (t + 2 * k + 1) \<Longrightarrow> \<exists>r. WaitLeaderLease_loop env deadline t = Some r"
proof (induction k arbitrary: t)
  case 0
  then show ?case by (subst WaitLeaderLease_loop.simps) (auto split: LeaderLeaseState.split)
next
  case (Suc k)
  from Suc.IH [of "t + 2"] Suc.prems obtain r where "WaitLeaderLease_loop env deadline (t + 2) = Some r"
    by (auto simp: ac_simps)
  then show ?case by (subst WaitLeaderLease_loop.simps) (auto split: LeaderLeaseState.split)
qed

lemma catchup_loop_returns:
  "deadline \<le> en_now env (t + 2 * k + 1) \<Longrightarrow> \<exists>r. WaitAppliedCatchUp_loop env deadline t = Some r"
proof (induction k arbitrary: t)
  case 0
  then show ?case by (subst WaitAppliedCatchUp_loop.simps) auto
next
  case (Suc k)
  from Suc.IH [of "t + 2"] Suc.prems obtain r where "WaitAppliedCatchUp_loop env deadline (t + 2) = Some r"
    by (auto simp: ac_simps)
  then show ?case by (subst WaitAppliedCatchUp_loop.simps) auto
qed

lemma conf_wait_returns:
  "deadline \<le> en_now env (t + 2 * k + 1) \<Longrightarrow> \<exists>r. conf_change_wait env outcome deadline t = Some r"
proof (induction k arbitrary: t)
  case 0
  then show ?case by (subst conf_change_wait.simps) auto
next
  case (Suc k)
  from Suc.IH [of "t + 2"] Suc.prems obtain r where "conf_change_wait env outcome deadline (t + 2) = Some r"
    by (auto simp: ac_simps)
  then show ?case by (subst conf_change_wait.simps) auto
qed

text \<open>Time passes: every loop sleeps between two looks at the clock.\<close>

definition time_passes :: "'db raft_env \<Rightarrow> bool" where
  "time_passes env \<longleftrightarrow> (\<forall>x. \<exists>s. \<forall>t \<ge> s. x \<le> en_now env t)"

lemma time_passesD:
  assumes "time_passes env"
  obtains k where "x \<le> en_now env (t + 2 * k + 1)"
proof -
  obtain s where "\<forall>u \<ge> s. x \<le> en_now env u" using assms unfolding time_passes_def by blast
  then have "x \<le> en_now env (t + 2 * s + 1)" by simp
  with that show thesis .
qed

lemma waits_return:
  assumes "time_passes env"
  shows "\<exists>r. WaitLeaderLease env n ms t = Some r" "\<exists>r. WaitAppliedCatchUp env n ms t = Some r"
    "\<exists>r. conf_change_wait env outcome d t = Some r"
proof -
  obtain k where "en_now env t + ms * 1000 \<le> en_now env (t + 1 + 2 * k + 1)" by (rule time_passesD [OF assms])
  note loops = lease_loop_returns [OF this] catchup_loop_returns [OF this]
  show "\<exists>r. WaitLeaderLease env n ms t = Some r" using loops(1) by (auto simp: WaitLeaderLease_def)
  show "\<exists>r. WaitAppliedCatchUp env n ms t = Some r" using loops(2) by (auto simp: WaitAppliedCatchUp_def)
  obtain k where "d \<le> en_now env (t + 2 * k + 1)" by (rule time_passesD [OF assms])
  then show "\<exists>r. conf_change_wait env outcome d t = Some r" by (rule conf_wait_returns)
qed

text \<open>What a loop that returned has seen.\<close>

lemma lease_loop_valid:
  assumes "WaitLeaderLease_loop env deadline t = Some (True, t')"
  shows "\<exists>s. t \<le> s \<and> s < t' \<and> en_lease env s = LEASE_VALID"
proof -
  have "fst r \<longrightarrow> (\<exists>s. t \<le> s \<and> s < snd r \<and> en_lease env s = LEASE_VALID)"
    if "WaitLeaderLease_loop env deadline t = Some r" for r
  proof (rule WaitLeaderLease_loop.raw_induct [where P = "\<lambda>env deadline t r.
      fst r \<longrightarrow> (\<exists>s. t \<le> s \<and> s < snd r \<and> en_lease env s = LEASE_VALID)", OF _ that])
    fix loop and env :: "'a raft_env" and deadline t r
    assume IH: "\<And>env deadline t r. loop env deadline t = Some r \<Longrightarrow>
        fst r \<longrightarrow> (\<exists>s. t \<le> s \<and> s < snd r \<and> en_lease (env :: 'a raft_env) s = LEASE_VALID)"
      and eq: "(case en_lease env t of LEASE_VALID \<Rightarrow> Some (True, t + 1) | LEASE_EXPIRED \<Rightarrow> Some (False, t + 1)
        | LEASE_DISABLED \<Rightarrow> Some (False, t + 1)
        | LEASE_NOT_READY \<Rightarrow> if deadline \<le> en_now env (t + 1) then Some (False, t + 2) else loop env deadline (t + 2)) = Some r"
    show "fst r \<longrightarrow> (\<exists>s. t \<le> s \<and> s < snd r \<and> en_lease env s = LEASE_VALID)"
      using eq IH [of env deadline "t + 2" r]
      by (auto split: LeaderLeaseState.splits if_splits intro: exI [of _ t]) (meson Suc_leD)
  qed
  from this [OF assms] show ?thesis by simp
qed

lemma catchup_loop_applied:
  assumes "WaitAppliedCatchUp_loop env deadline t = Some (True, t')"
  shows "\<exists>s. t \<le> s \<and> s < t' \<and>
    ns_committed_index (en_status env s) \<le> ns_known_applied_index (en_status env s)"
proof -
  let ?ok = "\<lambda>(env :: 'a raft_env) t r. fst r \<longrightarrow> (\<exists>s. t \<le> s \<and> s < snd r \<and>
      ns_committed_index (en_status env s) \<le> ns_known_applied_index (en_status env s))"
  have "?ok env t r" if "WaitAppliedCatchUp_loop env deadline t = Some r" for r
  proof (rule WaitAppliedCatchUp_loop.raw_induct [where P = "\<lambda>env deadline t r. ?ok env t r", OF _ that])
    fix loop and env :: "'a raft_env" and deadline t r
    assume IH: "\<And>env deadline t r. loop env deadline t = Some r \<Longrightarrow> ?ok env t r"
      and eq: "(if ns_committed_index (en_status env t) \<le> ns_known_applied_index (en_status env t)
          then Some (True, t + 1)
          else if deadline \<le> en_now env (t + 1) then Some (False, t + 2) else loop env deadline (t + 2)) = Some r"
    show "?ok env t r"
      using eq IH [of env deadline "t + 2" r]
      by (auto split: if_splits intro: exI [of _ t]) (meson Suc_leD)
  qed
  from this [OF assms] show ?thesis by simp
qed

lemma conf_wait_outcome:
  assumes "conf_change_wait env outcome deadline t = Some o1"
  shows "\<exists>s \<ge> t. o1 = outcome s \<and> (co_done o1 \<or> deadline \<le> en_now env (s + 1))"
proof (rule conf_change_wait.raw_induct [where P = "\<lambda>env outcome deadline t o1. \<exists>s \<ge> t. o1 = outcome s \<and>
    (co_done o1 \<or> deadline \<le> en_now env (s + 1))", OF _ assms])
  fix loop and env :: "'a raft_env" and outcome deadline t o1
  assume IH: "\<And>env outcome deadline t o1. loop env outcome deadline t = Some o1 \<Longrightarrow>
      \<exists>s \<ge> t. o1 = outcome s \<and> (co_done o1 \<or> deadline \<le> en_now (env :: 'a raft_env) (s + 1))"
    and eq: "(if \<not> co_done (outcome t) \<and> en_now env (t + 1) < deadline then loop env outcome deadline (t + 2)
      else Some (outcome t)) = Some o1"
  show "\<exists>s \<ge> t. o1 = outcome s \<and> (co_done o1 \<or> deadline \<le> en_now env (s + 1))"
  proof (cases "\<not> co_done (outcome t) \<and> en_now env (t + 1) < deadline")
    case True
    with eq IH [of env outcome deadline "t + 2" o1] obtain s
      where "t + 2 \<le> s" "o1 = outcome s" "co_done o1 \<or> deadline \<le> en_now env (s + 1)" by auto
    then show ?thesis by (intro exI [of _ s]) simp
  next
    case False
    with eq show ?thesis by (intro exI [of _ t]) auto
  qed
qed

end
