(* ===== verification/LinearRead.thy ===== *)
theory LinearRead
  imports RaftNode
begin

text \<open>
  The cluster's node as its clients see it: linearizable reads, proposals and membership
  changes of src/src/raft/raft_node.cpp.  What RaftNode relies on of Raft and of braft's
  leader lease is the locale \<open>raft_run\<close>.
\<close>

section \<open>What braft guarantees\<close>

text \<open>The abstract store after the first k entries; None is an entry of braft's own.\<close>

definition log_state :: "mvcc \<Rightarrow> RaftCmd option list \<Rightarrow> nat \<Rightarrow> mvcc" where
  "log_state start log k = fst (s_run start (List.map_filter id (take k log)))"

text \<open>
  One run of the cluster, seen from one node at the observations of one call.  \<open>log\<close> is the sequence
  of committed entries (None for an entry of braft's own, which the state machine is not given),
  \<open>acked t\<close> how many of them any client of any node has had an answer for, \<open>stored t\<close> how many this
  node's store holds.
  \<^item> The store's revision and current records are those after the entries it holds; compaction,
    which only drops history, may run at any time.
  \<^item> The reported applied index is not ahead of the store, and nothing goes backwards.
  \<^item> Leader lease: while the lease is valid this node is the only leader and has committed an
    entry of its term, so its committed index covers every answered entry.
\<close>

locale raft_run = store_env +
  fixes env :: "'a raft_env" and log :: "RaftCmd option list" and start :: mvcc
    and acked stored :: "nat \<Rightarrow> nat"
  assumes store_ok: "store_inv P (C (en_db env t))"
    and store_log: "agree (mvcc_of P (C (en_db env t))) (log_state start log (stored t))"
    and applied_stored: "ns_known_applied_index (en_status env t) \<le> int (stored t)"
    and stored_mono: "t \<le> t' \<Longrightarrow> stored t \<le> stored t'"
    and acked_mono: "t \<le> t' \<Longrightarrow> acked t \<le> acked t'"
    and commit_mono: "t \<le> t' \<Longrightarrow>
      ns_committed_index (en_status env t) \<le> ns_committed_index (en_status env t')"
    and lease: "en_lease env t = LEASE_VALID \<Longrightarrow> int (acked t) \<le> ns_committed_index (en_status env t)"
begin

lemma read_view: "GetLocked L P (en_db env t) key =
    (case s_get (log_state start log (stored t)) key of None \<Rightarrow> (None, KEY_NOT_FOUND) | Some kv \<Rightarrow> (Some kv, OK))"
  using agree_reads(3) [OF store_log [of t]] by (simp add: Get_refines)

text \<open>A valid lease, then an applied index that has caught up: the store holds what was answered.\<close>

lemma caught_up:
  assumes "s \<le> u" "u \<le> v" "en_lease env s = LEASE_VALID"
    and "ns_committed_index (en_status env u) \<le> ns_known_applied_index (en_status env u)"
  shows "acked s \<le> stored v"
proof -
  have "int (acked s) \<le> ns_committed_index (en_status env u)"
    using lease [OF assms(3)] commit_mono [OF assms(1)] by linarith
  also have "\<dots> \<le> int (stored u)" using assms(4) applied_stored [of u] by linarith
  finally show ?thesis using stored_mono [OF assms(2)] by linarith
qed

end

section \<open>The branches of Get\<close>

text \<open>A linearizable Get that answers from the store has waited for both conditions.\<close>

lemma get_from_store:
  assumes "RaftNode_Get L P env n t key False GetResult_init = Some (Returned r)"
    and "gr_code r = OK \<or> gr_code r = KEY_NOT_FOUND"
  obtains s u v where "t \<le> s" "s \<le> u" "u \<le> v" "en_lease env s = LEASE_VALID"
    "ns_committed_index (en_status env u) \<le> ns_known_applied_index (en_status env u)"
    "r = answer_get (GetLocked L P (en_db env v) key) GetResult_init"
proof -
  obtain t1 t2 where w: "WaitLeaderLease env n kLeaseWaitMs t = Some (True, t1)"
      "WaitAppliedCatchUp env n kCatchupWaitMs t1 = Some (True, t2)"
    and r: "r = answer_get (GetLocked L P (en_db env t2) key) GetResult_init"
    using assms by (auto simp: RaftNode_Get_def RaftNode_read_store_def split: option.splits bool.splits if_splits)
  obtain s where s: "t + 1 \<le> s" "s < t1" "en_lease env s = LEASE_VALID"
    using lease_loop_valid w(1) unfolding WaitLeaderLease_def by (metis option.inject prod.inject)
  obtain u where u: "t1 + 1 \<le> u" "u < t2"
      "ns_committed_index (en_status env u) \<le> ns_known_applied_index (en_status env u)"
    using catchup_loop_applied w(2) unfolding WaitAppliedCatchUp_def by (metis option.inject prod.inject)
  show thesis by (rule that [of s u t2]) (use s u r in simp_all)
qed

lemma read_linearizes:
  assumes "raft_run L C P utf8 env log start acked stored"
    and "RaftNode_Get L P env n t key False GetResult_init = Some (Returned r)"
    and "gr_code r = OK \<or> gr_code r = KEY_NOT_FOUND"
  shows "\<exists>k v. acked t \<le> k \<and> t \<le> v \<and> k = stored v \<and>
    r = answer_get (case s_get (log_state start log k) key of None \<Rightarrow> (None, KEY_NOT_FOUND)
      | Some kv \<Rightarrow> (Some kv, OK)) GetResult_init"
proof -
  obtain s u v where g: "t \<le> s" "s \<le> u" "u \<le> v" "en_lease env s = LEASE_VALID"
      "ns_committed_index (en_status env u) \<le> ns_known_applied_index (en_status env u)"
      "r = answer_get (GetLocked L P (en_db env v) key) GetResult_init"
    by (rule get_from_store [OF assms(2,3)])
  have "acked t \<le> stored v"
    using raft_run.acked_mono [OF assms(1) g(1)] raft_run.caught_up [OF assms(1) g(2-5)] by linarith
  with g raft_run.read_view [OF assms(1), of v key] show ?thesis by (intro exI [of _ "stored v"] exI [of _ v]) simp
qed

section \<open>A run\<close>

text \<open>
  The node was just elected: its lease becomes ready at the third observation.  Three entries are
  committed and answered, the second one braft's own; the store holds the first until the eighth
  observation.
\<close>

definition demo_cmds :: "RaftCmd option list" where
  "demo_cmds = [Some (Cmd_put ''a'' ''1''), None, Some (Cmd_put ''a'' ''2'')]"

definition demo_stored :: "nat \<Rightarrow> nat" where
  "demo_stored t = (if t < 8 then 1 else 3)"

definition demo_env :: "mem_db raft_env" where
  "demo_env = \<lparr>en_now = (\<lambda>t. 1000 * int t),
     en_lease = (\<lambda>t. if t < 3 then LEASE_NOT_READY else LEASE_VALID),
     en_status = (\<lambda>t. \<lparr>ns_state = STATE_LEADER, ns_term = 2, ns_committed_index = 3,
       ns_known_applied_index = int (demo_stored t)\<rparr>),
     en_is_leader = (\<lambda>_. True), en_leader_id = (\<lambda>_. ''n1''), en_list_peers = (\<lambda>_. None), en_leader_term = (\<lambda>_. 2),
     en_db = (\<lambda>t. fst (apply_log mem_leveldb ref_codec [] (List.map_filter id (take (demo_stored t) demo_cmds))))\<rparr>"

definition demo_node :: RaftNode where
  "demo_node = \<lparr>rn_has_store = True, rn_has_node = True, rn_group = ''configraft'', rn_has_hub = True\<rparr>"

lemma mem_log_view:
  assumes "\<forall>cmd \<in> set cmds. cmd_fits (\<lambda>_. True) cmd" "log_cost cmds < 2 ^ 63"
  shows "mvcc_of ref_codec (map_of (fst (apply_log mem_leveldb ref_codec [] cmds))) = fst (s_run mvcc_empty cmds)"
proof -
  obtain db rs where run: "apply_log mem_leveldb ref_codec [] cmds = (db, rs)" by fastforce
  have "snd (ldb_Write mem_leveldb db b)" for db b by (simp add: mem_leveldb_def mem_Write_def)
  then have "s_run (mvcc_of ref_codec (map_of [])) cmds = (mvcc_of ref_codec (map_of db), rs)"
    using mem_env.log_run [OF _ _ assms(1) _ run] assms(2) log_cost_nonneg [of cmds]
    by (simp add: store_inv_empty nn64_def mvcc_empty_def)
  with run show ?thesis by simp
qed

lemma demo_log_cmds: "List.map_filter id (take (demo_stored t) demo_cmds) =
    (if t < 8 then [Cmd_put ''a'' ''1''] else [Cmd_put ''a'' ''1'', Cmd_put ''a'' ''2''])"
  by (simp add: demo_stored_def demo_cmds_def map_filter_simps numeral_3_eq_3)

interpretation demo_run: raft_run mem_leveldb map_of ref_codec "\<lambda>_. True" demo_env demo_cmds mvcc_empty
  "\<lambda>_. 3" demo_stored
proof
  show "store_inv ref_codec (map_of (en_db demo_env t))" for t
    unfolding demo_env_def by (simp only: raft_env.select_convs demo_log_cmds, rule mem_log_inv) simp_all
  have "mvcc_of ref_codec (map_of (en_db demo_env t)) = log_state mvcc_empty demo_cmds (demo_stored t)" for t
    unfolding demo_env_def log_state_def by (simp only: raft_env.select_convs demo_log_cmds, rule mem_log_view) simp_all
  then show "agree (mvcc_of ref_codec (map_of (en_db demo_env t))) (log_state mvcc_empty demo_cmds (demo_stored t))" for t
    by simp
qed (simp_all add: demo_env_def demo_stored_def)

section \<open>Properties\<close>

text \<open>
  Linearizable reads.  In every run in which braft keeps its promises about the lease and
  the indices, a Get without the serializable flag that answers with a value or with
  KEY_NOT_FOUND answers what the committed log says after some prefix of it that contains every
  write any client had an answer for when the Get began.
\<close>

lemma linearizable_read:
  assumes "raft_run L C P utf8 env log start acked stored"
    and "RaftNode_Get L P env n t key False GetResult_init = Some (Returned r)"
    and "gr_code r = OK \<or> gr_code r = KEY_NOT_FOUND"
  shows "\<exists>k v. acked t \<le> k \<and> t \<le> v \<and> k = stored v \<and>
    r = answer_get (case s_get (log_state start log k) key of None \<Rightarrow> (None, KEY_NOT_FOUND)
      | Some kv \<Rightarrow> (Some kv, OK)) GetResult_init"
  by (rule read_linearizes [OF assms])

end
