(* ===== verification/RaftApi.thy ===== *)
theory RaftApi
  imports LinearRead RaftSnapshot
begin

text \<open>
  The other calls of RaftNode (src/src/raft/raft_node.cpp) as their callers see them: that they
  return, what a write returns, what a membership change reports, and what a request gets that
  arrives before Init.
\<close>

section \<open>Membership changes\<close>

lemma conf_change_reports:
  assumes "conf_change parse_peer what did env outcome n t peer ConfChangeResult_init = Some r"
  shows "case cc_code r of
      OK \<Rightarrow> rn_has_node n \<and> en_is_leader env t \<and> parse_peer (c_str peer) \<and>
        (\<exists>s \<ge> t. co_done (outcome s) \<and> co_status (outcome s) = Status_ok)
    | NOT_LEADER \<Rightarrow> rn_has_node n \<and> \<not> en_is_leader env t
    | INTERNAL \<Rightarrow> \<not> rn_has_node n \<or> \<not> parse_peer (c_str peer) \<or>
        (\<exists>s \<ge> t. if co_done (outcome s) then co_status (outcome s) \<noteq> Status_ok
          else en_now env (t + 1) + 60000000 \<le> en_now env (s + 1))
    | _ \<Rightarrow> False"
proof (cases "rn_has_node n \<and> en_is_leader env t \<and> parse_peer (c_str peer)")
  case True
  let ?deadline = "en_now env (t + 1) + kConfChangeTimeoutSec * 1000000"
  have leader: "RaftNode_IsLeader env n t" using True by (simp add: RaftNode_IsLeader_def)
  obtain o1 where wait: "conf_change_wait env outcome ?deadline (t + 2) = Some o1"
    and r: "r = conf_change_answer what did peer o1 ConfChangeResult_init"
    using assms True leader by (auto simp: conf_change_def)
  obtain s where "t + 2 \<le> s" "o1 = outcome s" "co_done o1 \<or> ?deadline \<le> en_now env (s + 1)"
    using conf_wait_outcome [OF wait] by blast
  with True r show ?thesis
    by (auto simp: conf_change_answer_def ConfChangeResult_init_def kConfChangeTimeoutSec_def intro!: exI [of _ s])
next
  case False
  with assms show ?thesis
    by (auto simp: conf_change_def RaftNode_IsLeader_def ConfChangeResult_init_def split: if_splits)
qed

lemma conf_change_returns:
  assumes "time_passes env"
  shows "\<exists>r. conf_change parse_peer what did env outcome n t peer out = Some r"
  using waits_return(3) [OF assms] by (simp add: conf_change_def)

lemma raft_get_returns:
  assumes "time_passes env"
  shows "\<exists>r. RaftNode_Get L P env n t key serializable out = Some r"
proof (cases serializable)
  case False
  obtain b t1 where "WaitLeaderLease env n kLeaseWaitMs t = Some (b, t1)"
    using waits_return(1) [OF assms] by fastforce
  moreover obtain b' t2 where "WaitAppliedCatchUp env n kCatchupWaitMs t1 = Some (b', t2)"
    using waits_return(2) [OF assms] by fastforce
  ultimately show ?thesis using False by (cases b; cases b') (simp_all add: RaftNode_Get_def)
qed (simp add: RaftNode_Get_def)

section \<open>Properties\<close>

text \<open>
  (C25) No call of the node waits for ever.  If time passes, Get returns whatever the lease and the
  indices do, and so do AddPeer and RemovePeer whether or not braft ever completes the change.
\<close>

theorem raft_calls_return:
  assumes "time_passes env"
  shows "(\<exists>r. RaftNode_Get L P env n t key serializable out = Some r) \<and>
    (\<exists>r. RaftNode_AddPeer parse_peer env outcome n t peer res = Some r) \<and>
    (\<exists>r. RaftNode_RemovePeer parse_peer env outcome n t peer res = Some r)"
  using raft_get_returns [OF assms] conf_change_returns [OF assms]
  unfolding RaftNode_AddPeer_def RaftNode_RemovePeer_def by blast

text \<open>A node whose lease never gets ready and whose change never completes.\<close>

definition stuck_env :: "mem_db raft_env" where
  "stuck_env = demo_env\<lparr>en_now := (\<lambda>t. 200000 * int t), en_lease := (\<lambda>_. LEASE_NOT_READY)\<rparr>"

theorem raft_calls_return_witness:
  "time_passes stuck_env \<and>
   (\<exists>r. RaftNode_Get mem_leveldb ref_codec stuck_env demo_node 0 ''a'' False GetResult_init = Some r) \<and>
   (\<exists>r. RaftNode_AddPeer (\<lambda>_. True) stuck_env (\<lambda>_. ConfChangeOutcome_init) demo_node 0 ''n2'' ConfChangeResult_init = Some r)"
proof -
  have "x \<le> en_now stuck_env t" if "nat x \<le> t" for x t
    using that by (simp add: stuck_env_def)
  then have "time_passes stuck_env" unfolding time_passes_def by blast
  with raft_calls_return [OF this] show ?thesis by blast
qed

text \<open>
  (C20) What a write to the leader returns.  The task that Apply hands to braft carries the
  command, and the caller's result is empty until the closure runs.  When the entry is committed
  and applied in any batch, the caller gets the result of its own command on the store that the
  entries before it left; when braft refuses the task instead, the caller gets INTERNAL with
  braft's message.
\<close>

theorem raft_apply_outcome:
  assumes "cmd_protobuf Q utf8" "cmd_fits utf8 cmd"
    and "RaftNode_Apply Q env n t cmd ApplyResult_init = Inr (task, c)"
    and "es = xs @ \<lparr>le_data = task_data task, le_done = Some d\<rparr> # ys" "d \<notin> set (dones xs)" "d \<notin> set (dones ys)"
    and "cls d = c" "on_apply L P Q es sm cls = (sm', cls', runs)"
  shows "WaitFor c = None \<and>
    WaitFor (Run (cls' d)) = Some (snd (ApplyCmdToStore L P
      (fst (apply_log L P (sm_store sm) (entry_cmds Q xs))) cmd ApplyResult_init)) \<and>
    (\<forall>code msg. WaitFor (refuse_task code msg c) = Some (ApplyResult_init\<lparr>ar_code := INTERNAL, ar_message := msg\<rparr>))"
proof -
  have task: "task_data task = ser_cmd Q cmd" "c = ApplyClosure_init ApplyResult_init"
    using assms(3) by (auto simp: RaftNode_Apply_def Let_def split: if_splits)
  have "WaitFor (Run (cls' d)) = Some (entry_result L P Q
      (fst (apply_log L P (sm_store sm) (entry_cmds Q xs))) \<lparr>le_data = task_data task, le_done = Some d\<rparr>)"
    using on_apply_closure [OF assms(4) _ assms(5,6), of cls L P Q sm] assms(7,8) task(2) by simp
  moreover have "WaitFor c = None" "WaitFor (refuse_task code msg c) =
      Some (ApplyResult_init\<lparr>ar_code := INTERNAL, ar_message := msg\<rparr>)" for code msg
    by (simp_all add: task(2) WaitFor_def refuse_task_def Run_def set_error_def ApplyClosure_init_def ApplyResult_init_def)
  ultimately show ?thesis
    using cmd_protobuf.parse_ser_cmd [OF assms(1,2)] by (simp add: entry_result_def task(1))
qed

theorem raft_apply_outcome_witness:
  "case RaftNode_Apply ref_cmd_codec demo_env demo_node 0 (Cmd_put ''a'' ''1'') ApplyResult_init of
     Inl r \<Rightarrow> False
   | Inr (task, c) \<Rightarrow>
       WaitFor (Run (fst (snd (on_apply mem_leveldb ref_codec ref_cmd_codec
         [\<lparr>le_data = [CHR 0xFF], le_done = None\<rparr>, \<lparr>le_data = task_data task, le_done = Some 7\<rparr>]
         (StateMachine_init [] None) (\<lambda>_. c))) 7)) =
       Some (snd (ApplyCmdToStore mem_leveldb ref_codec [] (Cmd_put ''a'' ''1'') ApplyResult_init))"
proof -
  let ?bad = "\<lparr>le_data = [CHR 0xFF], le_done = None\<rparr>"
  obtain task c where a: "RaftNode_Apply ref_cmd_codec demo_env demo_node 0 (Cmd_put ''a'' ''1'') ApplyResult_init = Inr (task, c)"
    by (simp add: RaftNode_Apply_def RaftNode_IsLeader_def demo_env_def demo_node_def Let_def)
  let ?es = "[?bad] @ \<lparr>le_data = task_data task, le_done = Some 7\<rparr> # []"
  obtain sm' cls' runs where s: "on_apply mem_leveldb ref_codec ref_cmd_codec ?es (StateMachine_init [] None) (\<lambda>_. c) =
      (sm', cls', runs)" by (metis prod_cases3)
  have bad: "entry_cmds ref_cmd_codec [?bad] = []" by code_simp
  have "WaitFor (Run (cls' 7)) = Some (snd (ApplyCmdToStore mem_leveldb ref_codec [] (Cmd_put ''a'' ''1'') ApplyResult_init))"
    using raft_apply_outcome [OF ref_cmd_pb.cmd_protobuf_axioms _ a refl _ _ _ s] bad
    by (simp add: StateMachine_init_def)
  with a s show ?thesis by simp
qed

text \<open>
  (C27) Membership changes are reported truthfully.  OK means that the node was the leader, the
  address parsed and braft completed the change without an error; NOT_LEADER that it was not the
  leader; INTERNAL that the node is not initialised, the address does not parse, braft
  reported an error, or braft had not completed the change a minute after the request.
\<close>

theorem add_peer_reports:
  assumes "RaftNode_AddPeer parse_peer env outcome n t peer ConfChangeResult_init = Some r"
  shows "case cc_code r of
      OK \<Rightarrow> rn_has_node n \<and> en_is_leader env t \<and> parse_peer (c_str peer) \<and>
        (\<exists>s \<ge> t. co_done (outcome s) \<and> co_status (outcome s) = Status_ok)
    | NOT_LEADER \<Rightarrow> rn_has_node n \<and> \<not> en_is_leader env t
    | INTERNAL \<Rightarrow> \<not> rn_has_node n \<or> \<not> parse_peer (c_str peer) \<or>
        (\<exists>s \<ge> t. if co_done (outcome s) then co_status (outcome s) \<noteq> Status_ok
          else en_now env (t + 1) + 60000000 \<le> en_now env (s + 1))
    | _ \<Rightarrow> False"
  using conf_change_reports assms unfolding RaftNode_AddPeer_def by fast

definition joined :: "nat \<Rightarrow> ConfChangeOutcome" where
  "joined t = (if t < 6 then ConfChangeOutcome_init else ConfChangeClosure_Run Status_ok ConfChangeOutcome_init)"

theorem add_peer_reports_witness:
  "\<exists>r. RaftNode_AddPeer (\<lambda>_. True) demo_env joined demo_node 0 ''n2'' ConfChangeResult_init = Some r \<and>
     cc_code r = OK \<and> cc_message r = ''peer n2 added'' \<and>
     (\<exists>s \<ge> 0. co_done (joined s) \<and> co_status (joined s) = Status_ok)"
proof -
  have "case RaftNode_AddPeer (\<lambda>_. True) demo_env joined demo_node 0 ''n2'' ConfChangeResult_init of
      Some r \<Rightarrow> cc_code r = OK \<and> cc_message r = ''peer n2 added'' | None \<Rightarrow> False" by code_simp
  then obtain r where r: "RaftNode_AddPeer (\<lambda>_. True) demo_env joined demo_node 0 ''n2'' ConfChangeResult_init = Some r"
      "cc_code r = OK" "cc_message r = ''peer n2 added''" by (auto split: option.splits)
  with add_peer_reports [OF r(1)] show ?thesis by simp
qed

end
