(* ===== verification/Server.thy ===== *)
theory Server
  imports ConfigService AdminService RaftApi
begin

text \<open>
  src/src/server/server.cpp, server.h and src/src/main/server_main.cpp: how the process is put
  together.  What brpc, braft and the file system answer while the server starts is the record
  \<open>start_env\<close>; Init is split where the port begins to accept requests.  The compaction thread is a
  loop over the flags it reads.
\<close>

section \<open>Starting\<close>

record ServerOptions =
  so_port :: int
  so_listen_ip :: string
  so_data_dir :: string
  so_node_name :: string
  so_peers :: string
  so_election_timeout_ms :: int
  so_web_dir :: string

definition ServerOptions_init :: ServerOptions where
  "ServerOptions_init = \<lparr>so_port = 8000, so_listen_ip = ''127.0.0.1'', so_data_dir = ''data'', so_node_name = [],
     so_peers = [], so_election_timeout_ms = 1000, so_web_dir = ''web''\<rparr>"

text \<open>The node of the server: the single node (its store is open) or the node of a cluster.\<close>

datatype server_node = Local_server_node | Raft_server_node RaftNode

record ConfigraftServer =
  sv_options :: ServerOptions
  sv_node :: "server_node option"
  sv_services :: "(string \<times> string) list"
  sv_listening :: bool
  sv_compacting :: bool

definition ConfigraftServer_new :: ConfigraftServer where
  "ConfigraftServer_new = \<lparr>sv_options = ServerOptions_init, sv_node = None, sv_services = [],
     sv_listening = False, sv_compacting = False\<rparr>"

text \<open>
  Store::Open (None, or its error), the code braft::add_service returns, Server::AddService by service
  name, Server::Start, and the three calls of RaftNode::Init; true is success.
\<close>

record start_env =
  se_store_error :: "string option"
  se_add_raft_service :: int
  se_add_service :: "string \<Rightarrow> bool"
  se_start :: bool
  se_endpoint_ok :: bool
  se_peers_ok :: bool
  se_init_ok :: bool

definition rest_mappings :: "(string \<times> string) list" where
  "rest_mappings =
    [(''KVService'', ''/v1/kv/* => Rest,''),
     (''ConfigService'', ''/v1/config/* => Rest,''),
     (''WatchService'', ''/v1/watch/* => Rest,''),
     (''AdminService'', ''/healthz => GetHealth,/addpeer => AddPeer,/removepeer => RemovePeer,''),
     (''DashboardService'', ''/dashboard => Rest,/dashboard/* => Rest,'')]"

fun add_services :: "start_env \<Rightarrow> (string \<times> string) list \<Rightarrow> ConfigraftServer \<Rightarrow> string + ConfigraftServer" where
  "add_services env [] sv = Inr sv"
| "add_services env ((name, mapping) # ms) sv =
    (if \<not> se_add_service env name then Inl (''fail to add '' @ name)
     else add_services env ms (sv\<lparr>sv_services := sv_services sv @ [(name, mapping)]\<rparr>))"

text \<open>Lines 48 to 134: until the port accepts requests.\<close>

definition Server_Init_start :: "start_env \<Rightarrow> ServerOptions \<Rightarrow> ConfigraftServer \<Rightarrow> string + ConfigraftServer" where
  "Server_Init_start env opts sv0 =
    (let sv1 = sv0\<lparr>sv_options := opts\<rparr>;
         cluster = (so_node_name opts \<noteq> []);
         store_dir = so_data_dir opts @ ''/data''
     in case se_store_error env of
          Some err \<Rightarrow> Inl (''open store '' @ store_dir @ '' failed: '' @ err)
        | None \<Rightarrow>
            if cluster \<and> \<not> RaftNode_AddServiceToServer (se_add_raft_service env) then Inl ''fail to add raft service''
            else
              let node = (if cluster then Raft_server_node (RaftNode_new True) else Local_server_node)
              in case add_services env rest_mappings (sv1\<lparr>sv_node := Some node\<rparr>) of
                   Inl err \<Rightarrow> Inl err
                 | Inr sv2 \<Rightarrow>
                     if \<not> se_start env then
                       Inl (''fail to start brpc server on port '' @ to_string (so_port opts))
                     else Inr (sv2\<lparr>sv_listening := True\<rparr>))"

text \<open>Lines 136 to 152: the Raft node and the compaction thread.\<close>

definition Server_Init_finish :: "start_env \<Rightarrow> ConfigraftServer \<Rightarrow> string + ConfigraftServer" where
  "Server_Init_finish env sv =
    (case sv_node sv of
       Some (Raft_server_node n) \<Rightarrow>
         (case RaftNode_Init (se_endpoint_ok env) (se_peers_ok env) (se_init_ok env) n ''configraft''
             (so_listen_ip (sv_options sv)) (so_port (sv_options sv)) (so_peers (sv_options sv)) of
            (n', Some err) \<Rightarrow> Inl err
          | (n', None) \<Rightarrow> Inr (sv\<lparr>sv_node := Some (Raft_server_node n'), sv_compacting := True\<rparr>))
     | _ \<Rightarrow> Inr (sv\<lparr>sv_compacting := True\<rparr>))"

definition Server_Init :: "start_env \<Rightarrow> ServerOptions \<Rightarrow> ConfigraftServer \<Rightarrow> string + ConfigraftServer" where
  "Server_Init env opts sv =
    (case Server_Init_start env opts sv of Inl err \<Rightarrow> Inl err | Inr sv1 \<Rightarrow> Server_Init_finish env sv1)"

text \<open>main: the flags become the options, the lease flag of braft is forced on; the exit code.\<close>

record flags =
  fl_port :: int
  fl_listen_ip :: string
  fl_data_dir :: string
  fl_node :: string
  fl_peers :: string
  fl_election_timeout_ms :: int
  fl_web_dir :: string
  fl_raft_enable_leader_lease :: bool

definition server_main :: "start_env \<Rightarrow> flags \<Rightarrow> int \<times> flags" where
  "server_main env fl =
    (let fl' = fl\<lparr>fl_raft_enable_leader_lease := True\<rparr>;
         opts = \<lparr>so_port = fl_port fl', so_listen_ip = fl_listen_ip fl', so_data_dir = fl_data_dir fl',
           so_node_name = fl_node fl', so_peers = fl_peers fl',
           so_election_timeout_ms = fl_election_timeout_ms fl', so_web_dir = fl_web_dir fl'\<rparr>
     in case Server_Init env opts ConfigraftServer_new of Inl err \<Rightarrow> (1, fl') | Inr sv \<Rightarrow> (0, fl'))"

section \<open>Compaction\<close>

definition kKeepVersions :: int where
  "kKeepVersions = 10"

text \<open>
  The compaction thread over the values it reads of stop_compaction_, before and after each wait;
  the list ends where the thread is left waiting.  An exception would leave the thread.
\<close>

fun compaction_loop :: "('n \<Rightarrow> int \<Rightarrow> cxx_exn + 'n \<times> int) \<Rightarrow> (bool \<times> bool) list \<Rightarrow> 'n \<Rightarrow> cxx_exn + 'n" where
  "compaction_loop compact [] n = Inr n"
| "compaction_loop compact ((stop1, stop2) # obs) n =
    (if stop1 then Inr n
     else if stop2 then Inr n
     else (case compact n kKeepVersions of
         Inl e \<Rightarrow> Inl e
       | Inr (n', removed) \<Rightarrow> compaction_loop compact obs n'))"

section \<open>Lemmas\<close>

lemma add_services_ok:
  "add_services env ms sv = Inr sv' \<Longrightarrow> sv' = sv\<lparr>sv_services := sv_services sv @ ms\<rparr>"
  by (induction env ms sv rule: add_services.induct) (auto split: if_splits)

text \<open>The single node's compaction, with the iterator opened at the state it writes to.\<close>

definition local_compact ::
  "'db leveldb \<Rightarrow> codec \<Rightarrow> 'db LocalNode \<Rightarrow> int \<Rightarrow> cxx_exn + 'db LocalNode \<times> int" where
  "local_compact L P n keep = LocalNode_Compaction L P (ln_store n) n keep"

context store_env
begin

lemma local_compact_ok:
  assumes "store_inv P (C (ln_store n))"
  shows "\<exists>n' removed. local_compact L P n keep = Inr (n', removed) \<and> store_inv P (C (ln_store n')) \<and>
    agree (mvcc_of P (C (ln_store n))) (mvcc_of P (C (ln_store n')))"
proof -
  obtain db removed where c: "CompactionLocked L P (ln_store n) (ln_store n) keep = Inr (db, removed)"
    using compaction_refines [OF assms assms main_mono_refl, of keep] by metis
  then have "local_compact L P n keep = Inr (n\<lparr>ln_store := db\<rparr>, removed)"
    by (simp add: local_compact_def LocalNode_Compaction_def)
  then show ?thesis using compaction_keeps(1,3) [OF assms assms main_mono_refl c] by auto
qed

lemma compaction_loop_ok:
  "store_inv P (C (ln_store n)) \<Longrightarrow> \<exists>n'. compaction_loop (local_compact L P) obs n = Inr n' \<and>
    store_inv P (C (ln_store n')) \<and> agree (mvcc_of P (C (ln_store n))) (mvcc_of P (C (ln_store n')))"
proof (induction obs arbitrary: n)
  case (Cons o1 obs)
  obtain s1 s2 where o1: "o1 = (s1, s2)" by fastforce
  obtain n1 removed where step: "local_compact L P n kKeepVersions = Inr (n1, removed)"
      "store_inv P (C (ln_store n1))" "agree (mvcc_of P (C (ln_store n))) (mvcc_of P (C (ln_store n1)))"
    using local_compact_ok [OF Cons.prems] by blast
  obtain n2 where rest: "compaction_loop (local_compact L P) obs n1 = Inr n2" "store_inv P (C (ln_store n2))"
      "agree (mvcc_of P (C (ln_store n1))) (mvcc_of P (C (ln_store n2)))"
    using Cons.IH [OF step(2)] by blast
  have "agree (mvcc_of P (C (ln_store n))) (mvcc_of P (C (ln_store n2)))"
    using step(3) rest(3) by (simp add: agree_def)
  then show ?case using step(1) rest(1,2) Cons.prems by (simp add: o1)
qed simp

end

lemma started_node:
  assumes "Server_Init env opts ConfigraftServer_new = Inr sv"
  shows "sv_listening sv \<and> sv_compacting sv \<and> sv_services sv = rest_mappings \<and> sv_options sv = opts \<and>
    (if so_node_name opts = [] then sv_node sv = Some Local_server_node
     else \<exists>n. sv_node sv = Some (Raft_server_node n) \<and> rn_has_store n \<and> rn_has_node n \<and> rn_has_hub n)"
proof -
  obtain sv1 where s: "Server_Init_start env opts ConfigraftServer_new = Inr sv1" "Server_Init_finish env sv1 = Inr sv"
    using assms by (auto simp: Server_Init_def split: sum.splits)
  have "sv_listening sv1 \<and> sv_services sv1 = rest_mappings \<and> sv_options sv1 = opts \<and>
      sv_node sv1 = Some (if so_node_name opts \<noteq> [] then Raft_server_node (RaftNode_new True) else Local_server_node)"
    using s(1) by (auto simp: Server_Init_start_def Let_def ConfigraftServer_new_def dest!: add_services_ok
        split: option.splits if_splits sum.splits)
  then show ?thesis
    using s(2) by (auto simp: Server_Init_finish_def RaftNode_Init_def RaftNode_new_def Let_def split: if_splits)
qed

section \<open>Properties\<close>


definition ok_env :: start_env where
  "ok_env = \<lparr>se_store_error = None, se_add_raft_service = 0, se_add_service = (\<lambda>_. True), se_start = True,
     se_endpoint_ok = True, se_peers_ok = True, se_init_ok = True\<rparr>"

definition cluster_options :: ServerOptions where
  "cluster_options = ServerOptions_init\<lparr>so_node_name := ''node1'', so_peers := ''127.0.0.1:8001''\<rparr>"



text \<open>
  The compaction thread does no harm.  However often it wakes up, it never dies of an
  exception, the database stays well formed, and no read of a current record and no revision
  changes.
\<close>

lemma compaction_thread_safe:
  assumes "store_env L C P utf8" "store_inv P (C (ln_store n))"
  shows "\<exists>n'. compaction_loop (local_compact L P) obs n = Inr n' \<and> store_inv P (C (ln_store n')) \<and>
    (\<forall>key s out. LocalNode_Get L P n' key s out = LocalNode_Get L P n key s out) \<and>
    LocalNode_CurrentRevision L n' = LocalNode_CurrentRevision L n"
proof -
  obtain n' where n': "compaction_loop (local_compact L P) obs n = Inr n'" "store_inv P (C (ln_store n'))"
      "agree (mvcc_of P (C (ln_store n))) (mvcc_of P (C (ln_store n')))"
    using store_env.compaction_loop_ok [OF assms] by blast
  then show ?thesis
    using agree_reads(3) [OF n'(3)] store_env.CurrentRevision_refines [OF assms(1)] store_env.Get_refines [OF assms(1)]
    by (auto simp: LocalNode_Get_def LocalNode_CurrentRevision_def agree_def simp del: mvcc_of_sel)
qed

end
