(* ===== verification/Progress.thy ===== *)
theory Progress
  imports Main
begin

text \<open>
  Progress arguments shared by the state machines of the development: a rank that keeps falling
  reaches zero, and a rank that falls with every step bounds the number of steps.
\<close>

section \<open>Infinite runs\<close>

lemma rank_reaches_zero:
  fixes rank :: "'s \<Rightarrow> nat" and s :: "nat \<Rightarrow> 's"
  assumes "\<And>i. 0 < rank (s i) \<Longrightarrow> \<exists>j>i. rank (s j) < rank (s i)"
  shows "\<exists>j\<ge>i. rank (s j) = 0"
proof (induction "rank (s i)" arbitrary: i rule: less_induct)
  case less
  show ?case
  proof (cases "rank (s i) = 0")
    case False
    then obtain j where j: "i < j" "rank (s j) < rank (s i)" using assms by blast
    then obtain k where "j \<le> k" "rank (s k) = 0" using less by blast
    with j(1) show ?thesis by (meson less_le_trans less_imp_le)
  qed blast
qed

text \<open>A property that every step keeps holds from where it first holds.\<close>

lemma kept_along_run:
  assumes "\<And>i. Q (s i) \<Longrightarrow> Q (s (Suc i))" "Q (s i)" "i \<le> j"
  shows "Q (s j)"
  using assms(3,2) by (induction rule: dec_induct) (use assms(1) in simp_all)

text \<open>A rank that never grows, and what happens until it falls: a condition that is kept while it
  stays leads to a fall.\<close>

lemma rank_falls:
  fixes rank :: "'s \<Rightarrow> nat" and s :: "nat \<Rightarrow> 's"
  assumes mono: "\<And>i. rank (s (Suc i)) \<le> rank (s i)"
    and same: "\<And>i. rank (s (Suc i)) = rank (s i) \<Longrightarrow> Q (s i) \<Longrightarrow> Q (s (Suc i))"
    and now: "Q (s i)" and ev: "i \<le> j" "Q (s j) \<Longrightarrow> rank (s (Suc j)) < rank (s j)"
  shows "\<exists>k>i. rank (s k) < rank (s i)"
proof (rule ccontr)
  assume none: "\<not> (\<exists>k>i. rank (s k) < rank (s i))"
  have le: "rank (s k) \<le> rank (s i)" if "i \<le> k" for k
    using that by (induction rule: dec_induct) (auto intro: order.trans [OF mono])
  with none have eq: "rank (s k) = rank (s i)" if "i \<le> k" for k
    using that by (metis le_neq_implies_less)
  have "Q (s k)" if "i \<le> k" for k
    using that
  proof (induction rule: dec_induct)
    case (step k)
    then show ?case using same [of k] eq [of k] eq [of "Suc k"] by simp
  qed (rule now)
  with ev eq [of j] eq [of "Suc j"] show False by simp
qed

section \<open>Finite runs\<close>

lemma rank_bounds_steps:
  assumes "\<And>s s'. ok s \<Longrightarrow> step s s' \<Longrightarrow> ok s' \<and> rank s' < (rank s :: nat)"
  shows "(step ^^ n) s s' \<Longrightarrow> ok s \<Longrightarrow> ok s' \<and> rank s' + n \<le> rank s"
proof (induction n arbitrary: s')
  case (Suc n)
  then obtain t where "(step ^^ n) s t" "step t s'" by auto
  with Suc assms [of t s'] show ?case by fastforce
qed simp

end
