(* ===== verification/Shutdown.thy ===== *)
theory Shutdown
  imports Server Progress
begin

text \<open>
  The end of the process: RunUntilAskedToQuit returns, ~ConfigraftServer stops the compaction
  thread (src/src/server/server.cpp).  The thread of StartCompactionLoop and the destructor share
  compaction_mu_, compaction_cv_ and stop_compaction_; every statement between two points where the
  other can run is a step.  A wait ends by the notification, by its timeout or spuriously; the
  loop itself is the one of \<open>Server\<close>, split at its waits.
\<close>

section \<open>The two threads\<close>

text \<open>
  The compaction thread: not started (Init failed before it), about to lock, at the test of the
  loop, waiting (with whether it has been notified), awake without the lock, at the second test,
  about to compact, ended, or ended by an exception.
\<close>

datatype worker_pc = T_none | T_start | T_test | T_wait bool | T_awake | T_retest | T_compact | T_end
  | T_throw cxx_exn

text \<open>The destructor: before it, about to lock, holding the lock, about to notify, about to join, over.\<close>

datatype dtor_pc = D_running | D_lock | D_set | D_notify | D_join | D_done

datatype mutex_owner = Free | Worker | Destructor

record 'n stop_sys =
  ss_node :: 'n
  ss_stop :: bool
  ss_mu :: mutex_owner
  ss_worker :: worker_pc
  ss_dtor :: dtor_pc

definition stop_sys_init :: "'n \<Rightarrow> bool \<Rightarrow> 'n stop_sys" where
  "stop_sys_init n compacting = \<lparr>ss_node = n, ss_stop = False, ss_mu = Free,
     ss_worker = (if compacting then T_start else T_none), ss_dtor = D_running\<rparr>"

text \<open>The steps that need no clock.\<close>

inductive stop_step ::
  "('n \<Rightarrow> int \<Rightarrow> cxx_exn + 'n \<times> int) \<Rightarrow> 'n stop_sys \<Rightarrow> 'n stop_sys \<Rightarrow> bool"
  for compact :: "'n \<Rightarrow> int \<Rightarrow> cxx_exn + 'n \<times> int" where
  worker_lock: "ss_worker s = T_start \<Longrightarrow> ss_mu s = Free \<Longrightarrow>
    stop_step compact s (s\<lparr>ss_mu := Worker, ss_worker := T_test\<rparr>)"
| worker_leave: "ss_worker s = T_test \<Longrightarrow> ss_stop s \<Longrightarrow>
    stop_step compact s (s\<lparr>ss_mu := Free, ss_worker := T_end\<rparr>)"
| worker_wait: "ss_worker s = T_test \<Longrightarrow> \<not> ss_stop s \<Longrightarrow>
    stop_step compact s (s\<lparr>ss_mu := Free, ss_worker := T_wait False\<rparr>)"
| worker_notified: "ss_worker s = T_wait True \<Longrightarrow> stop_step compact s (s\<lparr>ss_worker := T_awake\<rparr>)"
| worker_relock: "ss_worker s = T_awake \<Longrightarrow> ss_mu s = Free \<Longrightarrow>
    stop_step compact s (s\<lparr>ss_mu := Worker, ss_worker := T_retest\<rparr>)"
| worker_break: "ss_worker s = T_retest \<Longrightarrow> ss_stop s \<Longrightarrow>
    stop_step compact s (s\<lparr>ss_mu := Free, ss_worker := T_end\<rparr>)"
| worker_go: "ss_worker s = T_retest \<Longrightarrow> \<not> ss_stop s \<Longrightarrow> stop_step compact s (s\<lparr>ss_worker := T_compact\<rparr>)"
| worker_compact: "ss_worker s = T_compact \<Longrightarrow> compact (ss_node s) kKeepVersions = Inr (n', removed) \<Longrightarrow>
    stop_step compact s (s\<lparr>ss_node := n', ss_worker := T_test\<rparr>)"
| worker_throw: "ss_worker s = T_compact \<Longrightarrow> compact (ss_node s) kKeepVersions = Inl e \<Longrightarrow>
    stop_step compact s (s\<lparr>ss_mu := Free, ss_worker := T_throw e\<rparr>)"
| dtor_begin: "ss_dtor s = D_running \<Longrightarrow> stop_step compact s (s\<lparr>ss_dtor := D_lock\<rparr>)"
| dtor_lock: "ss_dtor s = D_lock \<Longrightarrow> ss_mu s = Free \<Longrightarrow>
    stop_step compact s (s\<lparr>ss_mu := Destructor, ss_dtor := D_set\<rparr>)"
| dtor_set: "ss_dtor s = D_set \<Longrightarrow> stop_step compact s (s\<lparr>ss_stop := True, ss_mu := Free, ss_dtor := D_notify\<rparr>)"
| dtor_notify: "ss_dtor s = D_notify \<Longrightarrow> stop_step compact s (s\<lparr>ss_dtor := D_join,
    ss_worker := (case ss_worker s of T_wait _ \<Rightarrow> T_wait True | w \<Rightarrow> w)\<rparr>)"
| dtor_join: "ss_dtor s = D_join \<Longrightarrow> ss_worker s = T_end \<or> ss_worker s = T_none \<Longrightarrow>
    stop_step compact s (s\<lparr>ss_dtor := D_done\<rparr>)"

text \<open>The timeout of kCompactionIntervalSeconds, or a spurious wake-up.\<close>

inductive timeout_step :: "'n stop_sys \<Rightarrow> 'n stop_sys \<Rightarrow> bool" where
  timeout: "ss_worker s = T_wait b \<Longrightarrow> timeout_step s (s\<lparr>ss_worker := T_awake\<rparr>)"

definition server_step ::
  "('n \<Rightarrow> int \<Rightarrow> cxx_exn + 'n \<times> int) \<Rightarrow> 'n stop_sys \<Rightarrow> 'n stop_sys \<Rightarrow> bool" where
  "server_step compact s s' \<longleftrightarrow> stop_step compact s s' \<or> timeout_step s s'"

inductive_cases stop_stepE [elim]: "stop_step compact s s'"
inductive_cases timeout_stepE [elim]: "timeout_step s s'"

section \<open>Invariant\<close>

text \<open>Who holds the mutex, and what the flag and the notification say.\<close>

fun worker_holds :: "worker_pc \<Rightarrow> bool" where
  "worker_holds T_test = True"
| "worker_holds T_retest = True"
| "worker_holds T_compact = True"
| "worker_holds _ = False"

definition stop_inv :: "'n stop_sys \<Rightarrow> bool" where
  "stop_inv s \<longleftrightarrow> ss_mu s = (if ss_dtor s = D_set then Destructor else if worker_holds (ss_worker s) then Worker else Free) \<and>
     (ss_dtor s = D_set \<longrightarrow> \<not> worker_holds (ss_worker s)) \<and>
     (ss_stop s \<longleftrightarrow> ss_dtor s \<in> {D_notify, D_join, D_done}) \<and>
     (ss_stop s \<longrightarrow> ss_worker s \<noteq> T_compact) \<and>
     (ss_dtor s \<in> {D_join, D_done} \<longrightarrow> ss_worker s \<noteq> T_wait False) \<and>
     (ss_dtor s = D_done \<longrightarrow> ss_worker s = T_end \<or> ss_worker s = T_none)"

lemma stop_inv_init: "stop_inv (stop_sys_init n b)"
  by (simp add: stop_inv_def stop_sys_init_def)

lemma stop_inv_step: "server_step compact s s' \<Longrightarrow> stop_inv s \<Longrightarrow> stop_inv s'"
  unfolding server_step_def
  by (elim disjE stop_stepE timeout_stepE) (auto simp: stop_inv_def split: worker_pc.splits if_splits)

lemma stop_inv_steps: "(server_step compact)\<^sup>*\<^sup>* s s' \<Longrightarrow> stop_inv s \<Longrightarrow> stop_inv s'"
  by (induction rule: rtranclp_induct) (auto dest: stop_inv_step)

section \<open>Stopping\<close>

fun worker_rank :: "worker_pc \<Rightarrow> nat" where
  "worker_rank (T_wait _) = 3"
| "worker_rank T_start = 2"
| "worker_rank T_awake = 2"
| "worker_rank T_test = 1"
| "worker_rank T_retest = 1"
| "worker_rank _ = 0"

fun dtor_rank :: "dtor_pc \<Rightarrow> nat" where
  "dtor_rank D_notify = 2"
| "dtor_rank D_join = 1"
| "dtor_rank _ = 0"

definition stop_rank :: "'n stop_sys \<Rightarrow> nat" where
  "stop_rank s = worker_rank (ss_worker s) + dtor_rank (ss_dtor s)"

text \<open>Once the flag is set every step brings the end nearer, and no compaction begins.\<close>

lemma stopping_step:
  assumes "server_step compact s s'" "stop_inv s" "ss_stop s"
  shows "ss_stop s' \<and> ss_node s' = ss_node s \<and> stop_rank s' < stop_rank s"
  using assms unfolding server_step_def
  by (elim disjE stop_stepE timeout_stepE) (auto simp: stop_inv_def stop_rank_def split: worker_pc.splits)

text \<open>Until the destructor is over some step can be taken that waits for no clock.\<close>

lemma stopping_progress:
  assumes "stop_inv s" "ss_stop s" "ss_dtor s \<noteq> D_done" "\<And>e. ss_worker s \<noteq> T_throw e"
  shows "\<exists>s'. stop_step compact s s'"
proof (cases "ss_dtor s = D_notify")
  case True
  then show ?thesis by (blast intro: dtor_notify)
next
  case False
  then have d: "ss_dtor s = D_join" and nw: "ss_worker s \<noteq> T_wait False" "ss_worker s \<noteq> T_compact"
    and mu: "\<not> worker_holds (ss_worker s) \<Longrightarrow> ss_mu s = Free"
    using assms(1-3) by (auto simp: stop_inv_def)
  show ?thesis
  proof (cases "ss_worker s")
    case (T_wait b)
    with nw(1) show ?thesis by (cases b) (auto intro: worker_notified)
  qed (use assms d nw mu in \<open>auto intro: worker_lock worker_leave worker_relock worker_break dtor_join\<close>)
qed

text \<open>The worker's exception is excluded by a condition on the node that compaction keeps.\<close>

definition compacts :: "('n \<Rightarrow> bool) \<Rightarrow> ('n \<Rightarrow> int \<Rightarrow> cxx_exn + 'n \<times> int) \<Rightarrow> bool" where
  "compacts good compact \<longleftrightarrow> (\<forall>n. good n \<longrightarrow> (\<exists>n' removed. compact n kKeepVersions = Inr (n', removed) \<and> good n'))"

definition no_throw :: "('n \<Rightarrow> bool) \<Rightarrow> 'n stop_sys \<Rightarrow> bool" where
  "no_throw good s \<longleftrightarrow> good (ss_node s) \<and> (\<forall>e. ss_worker s \<noteq> T_throw e)"

lemma no_throw_step:
  assumes "server_step compact s s'" "compacts good compact" "no_throw good s"
  shows "no_throw good s'"
proof -
  obtain n removed where "compact (ss_node s) kKeepVersions = Inr (n, removed)" "good n"
    using assms(2,3) unfolding compacts_def no_throw_def by blast
  with assms(1,3) show ?thesis
    unfolding server_step_def no_throw_def
    by (elim disjE stop_stepE timeout_stepE) (auto split: worker_pc.splits)
qed

text \<open>The lock comes free after at most three steps of the thread.\<close>

lemma lock_comes_free:
  assumes "stop_inv s" "ss_dtor s = D_lock" "compacts good compact" "no_throw good s"
  shows "\<exists>s'. (stop_step compact)\<^sup>*\<^sup>* s s' \<and> ss_dtor s' = D_lock \<and> ss_mu s' = Free"
proof -
  have run: "\<not> ss_stop s" using assms(1,2) by (simp add: stop_inv_def)
  have test: "\<exists>s'. (stop_step compact)\<^sup>*\<^sup>* t s' \<and> ss_dtor s' = D_lock \<and> ss_mu s' = Free"
    if "ss_worker t = T_test" "\<not> ss_stop t" "ss_dtor t = D_lock" for t
    by (rule exI, rule conjI, rule r_into_rtranclp, rule worker_wait [OF that(1,2)]) (simp add: that(3))
  have compact: "\<exists>s'. (stop_step compact)\<^sup>*\<^sup>* t s' \<and> ss_dtor s' = D_lock \<and> ss_mu s' = Free"
    if t: "ss_worker t = T_compact" "\<not> ss_stop t" "ss_dtor t = D_lock" "ss_node t = ss_node s" for t
  proof -
    obtain n removed where "compact (ss_node t) kKeepVersions = Inr (n, removed)"
      using assms(3,4) t(4) unfolding compacts_def no_throw_def by metis
    from worker_compact [where compact = compact, OF t(1) this] test [of "t\<lparr>ss_node := n, ss_worker := T_test\<rparr>"] t(2,3)
    show ?thesis by (auto intro: converse_rtranclp_into_rtranclp)
  qed
  show ?thesis
  proof (cases "worker_holds (ss_worker s)")
    case True
    then consider "ss_worker s = T_test" | "ss_worker s = T_retest" | "ss_worker s = T_compact"
      by (cases "ss_worker s") auto
    then show ?thesis
    proof cases
      case 2
      from worker_go [OF this run] compact [of "s\<lparr>ss_worker := T_compact\<rparr>"] run assms(2) show ?thesis
        by (auto intro: converse_rtranclp_into_rtranclp)
    qed (use test compact run assms(2) in auto)
  next
    case False
    then show ?thesis using assms(1,2) by (auto simp: stop_inv_def)
  qed
qed

lemma stop_step_server: "(stop_step compact)\<^sup>*\<^sup>* s s' \<Longrightarrow> (server_step compact)\<^sup>*\<^sup>* s s'"
  by (rule rtranclp_mono [THEN predicate2D]) (auto simp: server_step_def)

lemma no_throw_steps:
  assumes "(server_step compact)\<^sup>*\<^sup>* s s'" "compacts good compact" "no_throw good s"
  shows "no_throw good s'"
  using assms(1,3) by (induction rule: rtranclp_induct) (auto dest: no_throw_step [OF _ assms(2)])

lemma stopping_ends:
  assumes "stop_inv s" "ss_stop s" "compacts good compact" "no_throw good s"
  shows "\<exists>s'. (stop_step compact)\<^sup>*\<^sup>* s s' \<and> ss_dtor s' = D_done"
  using assms
proof (induction "stop_rank s" arbitrary: s rule: less_induct)
  case less
  show ?case
  proof (cases "ss_dtor s = D_done")
    case False
    then obtain t where t: "stop_step compact s t"
      using stopping_progress [OF less.prems(1,2)] less.prems(4) by (auto simp: no_throw_def)
    then have st: "server_step compact s t" by (simp add: server_step_def)
    from less.hyps [of t] stopping_step [OF st less.prems(1,2)] stop_inv_step [OF st less.prems(1)]
      no_throw_step [OF st less.prems(3,4)] less.prems(3)
    obtain s' where "(stop_step compact)\<^sup>*\<^sup>* t s'" "ss_dtor s' = D_done" by blast
    with t show ?thesis by (blast intro: converse_rtranclp_into_rtranclp)
  qed blast
qed

lemma dtor_ends:
  assumes "stop_inv s" "ss_dtor s \<noteq> D_running" "compacts good compact" "no_throw good s"
  shows "\<exists>s'. (stop_step compact)\<^sup>*\<^sup>* s s' \<and> ss_dtor s' = D_done"
proof -
  have set: "\<exists>s'. (stop_step compact)\<^sup>*\<^sup>* t s' \<and> ss_dtor s' = D_done"
    if t: "(stop_step compact)\<^sup>*\<^sup>* s t" "ss_dtor t = D_set" for t
  proof -
    let ?u = "t\<lparr>ss_stop := True, ss_mu := Free, ss_dtor := D_notify\<rparr>"
    have u: "stop_step compact t ?u" by (rule dtor_set [OF t(2)])
    then have "(server_step compact)\<^sup>*\<^sup>* s ?u" using t(1) by (blast intro: stop_step_server rtranclp.rtrancl_into_rtrancl)
    from stopping_ends [OF stop_inv_steps [OF this assms(1)] _ assms(3) no_throw_steps [OF this assms(3,4)]] u
    show ?thesis by (auto intro: converse_rtranclp_into_rtranclp)
  qed
  consider "ss_stop s" | "ss_dtor s = D_set" | "ss_dtor s = D_lock"
    using assms(1,2) by (cases "ss_dtor s") (auto simp: stop_inv_def)
  then show ?thesis
  proof cases
    case 3
    then obtain t where t: "(stop_step compact)\<^sup>*\<^sup>* s t" "ss_dtor t = D_lock" "ss_mu t = Free"
      using lock_comes_free [OF assms(1) _ assms(3,4)] by blast
    let ?u = "t\<lparr>ss_mu := Destructor, ss_dtor := D_set\<rparr>"
    have "(stop_step compact)\<^sup>*\<^sup>* s ?u" using t(1) dtor_lock [OF t(2,3)] by (rule rtranclp.rtrancl_into_rtrancl)
    with set [of ?u] show ?thesis by (auto intro: rtranclp_trans)
  qed (use stopping_ends [OF assms(1) _ assms(3,4)] set in auto)
qed

section \<open>Destroying the members\<close>

text \<open>
  After the body of the destructor the members go, the last declared first.  A null pointer of a
  server that started is only the braft node's of a single node, which has its store and no state
  machine; the hub, the services and the brpc server are there in both modes.
\<close>

datatype teardown = M_hub | M_node | M_kv_svc | M_config_svc | M_watch_svc | M_admin_svc | M_dash_svc
  | M_brpc_server | M_store | M_fsm | M_braft_node | Call node_call

definition ConfigraftServer_members :: "teardown list" where
  "ConfigraftServer_members = [M_hub, M_node, M_kv_svc, M_config_svc, M_watch_svc, M_admin_svc, M_dash_svc, M_brpc_server]"

definition RaftNode_members :: "RaftNode \<Rightarrow> teardown list" where
  "RaftNode_members n = (if rn_has_store n then [M_store, M_fsm] else []) @ (if rn_has_node n then [M_braft_node] else [])"

text \<open>A node's destructor runs before its own members go.\<close>

fun destroy_node :: "server_node \<Rightarrow> teardown list" where
  "destroy_node Local_server_node = [M_node, M_store]"
| "destroy_node (Raft_server_node n) = M_node # map Call (RaftNode_dtor n) @ rev (RaftNode_members n)"

definition server_teardown :: "ConfigraftServer \<Rightarrow> teardown list" where
  "server_teardown sv = concat (map (\<lambda>m. if m = M_node then (case sv_node sv of None \<Rightarrow> [] | Some n \<Rightarrow> destroy_node n) else [m])
     (rev ConfigraftServer_members))"

text \<open>What an object may still call: the brpc server its services and, over them, the node; braft's node the state machine.\<close>

fun calls_into :: "teardown \<Rightarrow> teardown set" where
  "calls_into M_brpc_server = {M_kv_svc, M_config_svc, M_watch_svc, M_admin_svc, M_dash_svc, M_node, M_store, M_hub}"
| "calls_into M_braft_node = {M_fsm, M_store, M_hub}"
| "calls_into M_fsm = {M_store, M_hub}"
| "calls_into M_node = {M_hub}"
| "calls_into _ = {}"

text \<open>
  No object is destroyed while another that may call it is there, and the braft node is shut down
  and joined before its state machine goes.
\<close>

lemma teardown_order:
  assumes "Server_Init env opts ConfigraftServer_new = Inr sv"
  shows "sorted_wrt (\<lambda>x y. x \<notin> calls_into y \<and> (y = Call Node_join \<longrightarrow> x \<notin> {M_fsm, M_store, M_braft_node})) (server_teardown sv)"
proof -
  consider "sv_node sv = Some Local_server_node"
    | n where "sv_node sv = Some (Raft_server_node n)" "rn_has_store n" "rn_has_node n"
    using started_node [OF assms] by (auto split: if_splits)
  then show ?thesis
    by cases (simp_all add: server_teardown_def ConfigraftServer_members_def RaftNode_members_def RaftNode_dtor_def)
qed

section \<open>Properties\<close>

text \<open>
  (C29) The server stops.  From every state of the destructor and the compaction thread of a single
  node, once the destructor has begun it can finish without any timeout elapsing; and once it
  has set the flag, every run finishes: at most five more steps are possible, none of them begins
  a compaction or changes the node, and until the destructor has joined the thread one that
  waits for no timeout is possible.
\<close>

theorem server_stops:
  assumes "store_env L C P utf8" "store_inv P (C (ln_store n))"
    and "(server_step (local_compact L P))\<^sup>*\<^sup>* (stop_sys_init n compacting) s"
  shows "(ss_dtor s \<noteq> D_running \<longrightarrow> (\<exists>s'. (stop_step (local_compact L P))\<^sup>*\<^sup>* s s' \<and> ss_dtor s' = D_done)) \<and>
    (ss_stop s \<longrightarrow> (\<forall>k s'. (server_step (local_compact L P) ^^ k) s s' \<longrightarrow> k \<le> 5 \<and> ss_node s' = ss_node s \<and>
      (ss_dtor s' = D_done \<or> (\<exists>s''. stop_step (local_compact L P) s' s''))))"
proof -
  let ?c = "local_compact L P" and ?good = "\<lambda>n. store_inv P (C (ln_store n))"
  have good: "compacts ?good ?c" using store_env.local_compact_ok [OF assms(1)] unfolding compacts_def by blast
  have nt: "no_throw ?good (stop_sys_init n compacting)" using assms(2) by (simp add: no_throw_def stop_sys_init_def)
  note inv = stop_inv_steps [OF assms(3) stop_inv_init] and nt' = no_throw_steps [OF assms(3) good nt]
  have "k \<le> 5 \<and> ss_node s' = ss_node s \<and> (ss_dtor s' = D_done \<or> (\<exists>s''. stop_step ?c s' s''))"
    if st: "ss_stop s" and run: "(server_step ?c ^^ k) s s'" for k s'
  proof -
    let ?ok = "\<lambda>t. stop_inv t \<and> ss_stop t \<and> no_throw ?good t \<and> ss_node t = ss_node s"
    have "?ok s' \<and> stop_rank s' + k \<le> stop_rank s"
    proof (rule rank_bounds_steps [where ok = ?ok and rank = stop_rank, OF _ run])
      fix t t' assume "?ok t" "server_step ?c t t'"
      then show "?ok t' \<and> stop_rank t' < stop_rank t"
        using stopping_step [of ?c t t'] stop_inv_step [of ?c t t'] no_throw_step [of ?c t t' ?good] good by metis
    qed (use inv st nt' in simp)
    moreover have "stop_rank s \<le> 5"
      unfolding stop_rank_def by (cases "ss_worker s"; cases "ss_dtor s") simp_all
    ultimately show ?thesis using stopping_progress [of s' ?c] by (auto simp: no_throw_def)
  qed
  then show ?thesis using dtor_ends [OF inv _ good nt'] by blast
qed

text \<open>The flag is set while the thread waits and before it is notified.\<close>

definition asleep :: "mem_db LocalNode stop_sys" where
  "asleep = \<lparr>ss_node = empty_node, ss_stop = True, ss_mu = Free, ss_worker = T_wait False, ss_dtor = D_notify\<rparr>"

lemma asleep_reachable:
  "(server_step (local_compact mem_leveldb ref_codec))\<^sup>*\<^sup>* (stop_sys_init empty_node True) asleep"
proof -
  let ?step = "stop_step (local_compact mem_leveldb ref_codec)"
  define st where "st = (\<lambda>stop mu w d. \<lparr>ss_node = empty_node, ss_stop = stop, ss_mu = mu, ss_worker = w, ss_dtor = d\<rparr>)"
  have "?step (st False Free T_start D_running) (st False Worker T_test D_running)"
    using worker_lock [of "st False Free T_start D_running"] by (simp add: st_def)
  moreover have "?step (st False Worker T_test D_running) (st False Free (T_wait False) D_running)"
    using worker_wait [of "st False Worker T_test D_running"] by (simp add: st_def)
  moreover have "?step (st False Free (T_wait False) D_running) (st False Free (T_wait False) D_lock)"
    using dtor_begin [of "st False Free (T_wait False) D_running"] by (simp add: st_def)
  moreover have "?step (st False Free (T_wait False) D_lock) (st False Destructor (T_wait False) D_set)"
    using dtor_lock [of "st False Free (T_wait False) D_lock"] by (simp add: st_def)
  moreover have "?step (st False Destructor (T_wait False) D_set) asleep"
    using dtor_set [of "st False Destructor (T_wait False) D_set"] by (simp add: st_def asleep_def)
  moreover have "stop_sys_init empty_node True = st False Free T_start D_running" by (simp add: st_def stop_sys_init_def)
  ultimately have "?step\<^sup>*\<^sup>* (stop_sys_init empty_node True) asleep" by (simp add: converse_rtranclp_into_rtranclp)
  then show ?thesis by (rule stop_step_server)
qed

theorem server_stops_witness:
  "(\<exists>s'. (stop_step (local_compact mem_leveldb ref_codec))\<^sup>*\<^sup>* asleep s' \<and> ss_dtor s' = D_done) \<and>
   (\<nexists>k s'. (server_step (local_compact mem_leveldb ref_codec) ^^ k) asleep s' \<and> 5 < k)"
proof -
  have "store_inv ref_codec (map_of (ln_store empty_node))" by (simp add: empty_node_def store_inv_empty)
  from server_stops [OF mem_env.store_env_axioms this asleep_reachable]
  have "\<exists>s'. (stop_step (local_compact mem_leveldb ref_codec))\<^sup>*\<^sup>* asleep s' \<and> ss_dtor s' = D_done"
    "\<forall>k s'. (server_step (local_compact mem_leveldb ref_codec) ^^ k) asleep s' \<longrightarrow> k \<le> 5"
    by (simp_all add: asleep_def)
  then show ?thesis by (meson not_less)
qed

end
