(* ===== verification/WatchSystem.thy ===== *)
theory WatchSystem
  imports WatchHub StoreSystem
begin

text \<open>
  One long poll among the other threads.  The state machine applies a command and then
  broadcasts its events (on_apply of src/src/raft/state_machine.cpp): it copies the list of
  waiters and serves them one by one.  Compaction runs beside it.  The watching thread takes the
  steps of \<open>Watch_step\<close>.  All interleavings are allowed.

  The theorem is that a poll which returns events has missed none: what it returns beyond the
  requested revision is every matching event up to its answer's anchor.  \<open>ws_ev\<close>, the event of
  each revision ever committed, is for stating this and does not influence the steps.
\<close>

section \<open>The events of a range of revisions\<close>

type_synonym ev_index = "int \<rightharpoonup> WatchEvent"

definition range_events :: "ev_index \<Rightarrow> string \<Rightarrow> int \<Rightarrow> int \<Rightarrow> WatchEvent list" where
  "range_events ev key lo hi = filter (key_match key) (List.map_filter ev [lo + 1..hi])"

definition record_events :: "ev_index \<Rightarrow> WatchEvent list \<Rightarrow> ev_index" where
  "record_events ev es = ev ++ map_of (map (\<lambda>e. (ev_revision e, e)) es)"

lemma map_filter_append: "List.map_filter f (xs @ ys) = List.map_filter f xs @ List.map_filter f ys"
  by (simp add: map_filter_def)

lemma set_map_filter: "set (List.map_filter f xs) = {y. \<exists>x \<in> set xs. f x = Some y}"
  by (force simp: map_filter_def)

lemma map_filter_section: "(\<And>x. x \<in> set xs \<Longrightarrow> f (g x) = Some x) \<Longrightarrow> List.map_filter f (map g xs) = xs"
  by (induction xs) (simp_all add: map_filter_simps)

lemma map_filter_cong: "(\<And>x. x \<in> set xs \<Longrightarrow> f x = g x) \<Longrightarrow> List.map_filter f xs = List.map_filter g xs"
  by (induction xs) (simp_all add: map_filter_simps split: option.split)

lemma range_events_empty: "hi \<le> lo \<Longrightarrow> range_events ev key lo hi = []"
  by (simp add: range_events_def map_filter_simps)

lemma range_events_split:
  "lo \<le> mid \<Longrightarrow> mid \<le> hi \<Longrightarrow>
    range_events ev key lo hi = range_events ev key lo mid @ range_events ev key mid hi"
  using upto_split3 [of lo mid hi] by (simp add: range_events_def map_filter_append)

lemma range_events_cong:
  "(\<And>r. lo < r \<Longrightarrow> r \<le> hi \<Longrightarrow> ev r = ev' r) \<Longrightarrow> range_events ev key lo hi = range_events ev' key lo hi"
  unfolding range_events_def by (intro arg_cong [where f = "filter (key_match key)"] map_filter_cong) auto

lemma range_events_iff:
  "e \<in> set (range_events ev key lo hi) \<longleftrightarrow> key_match key e \<and> (\<exists>r. lo < r \<and> r \<le> hi \<and> ev r = Some e)"
  by (auto simp: range_events_def set_map_filter add1_zle_eq)

lemma record_events_old: "r \<notin> ev_revision ` set es \<Longrightarrow> record_events ev es r = ev r"
  by (simp add: record_events_def map_add_def split: option.split)
    (metis (no_types, lifting) map_of_eq_None_iff map_map comp_def fst_conv list.set_map option.distinct(1) image_cong)

lemma record_events_new:
  assumes "map ev_revision es = [a..b]" "e \<in> set es"
  shows "record_events ev es (ev_revision e) = Some e"
proof -
  have "inj_on ev_revision (set es)"
    using assms(1) by (metis distinct_map distinct_upto)
  from map_of_index [OF this, of "ev_revision e" e] assms(2) show ?thesis
    by (simp add: record_events_def map_add_def)
qed

section \<open>The system\<close>

text \<open>The state machine's thread: idle, about to broadcast, or serving the copied list.\<close>

datatype bcast = B_idle | B_pending "WatchEvent list" | B_deliver "WatchEvent list" "nat list"

record 'db watch_sys =
  ws_db :: 'db
  ws_pin :: "'db option"
  ws_hub :: WatchHub
  ws_bc :: bcast
  ws_pc :: "'db watch_pc"
  ws_ev :: ev_index

inductive watch_sys_step ::
  "'db leveldb \<Rightarrow> ('db \<Rightarrow> contents) \<Rightarrow> codec \<Rightarrow> (string \<Rightarrow> bool) \<Rightarrow> watch_args \<Rightarrow>
    'db watch_sys \<Rightarrow> 'db watch_sys \<Rightarrow> bool"
  for L :: "'db leveldb" and C :: "'db \<Rightarrow> contents" and P :: codec and utf8 :: "string \<Rightarrow> bool"
    and a :: watch_args where
  sys_apply: "ws_bc s = B_idle \<Longrightarrow> ApplyCmdToStore L P (ws_db s) cmd ApplyResult_init = (db', res) \<Longrightarrow>
    cmd_fits utf8 cmd \<Longrightarrow> nn64 (m_rev (mvcc_of P (C (ws_db s))) + cmd_cost cmd) \<Longrightarrow>
    watch_sys_step L C P utf8 a s (s\<lparr>ws_db := db',
      ws_bc := (if ar_events res = [] then B_idle else B_pending (ar_events res)),
      ws_ev := record_events (ws_ev s) (ar_events res)\<rparr>)"
| sys_copy: "ws_bc s = B_pending es \<Longrightarrow>
    watch_sys_step L C P utf8 a s (s\<lparr>ws_bc := B_deliver es (wh_waiters (ws_hub s))\<rparr>)"
| sys_serve: "ws_bc s = B_deliver es (i # ids) \<Longrightarrow>
    watch_sys_step L C P utf8 a s (s\<lparr>ws_hub := Broadcast_one es i (ws_hub s), ws_bc := B_deliver es ids\<rparr>)"
| sys_done: "ws_bc s = B_deliver es [] \<Longrightarrow> watch_sys_step L C P utf8 a s (s\<lparr>ws_bc := B_idle\<rparr>)"
| sys_scan: "ws_pin s = None \<Longrightarrow> watch_sys_step L C P utf8 a s (s\<lparr>ws_pin := Some (ws_db s)\<rparr>)"
| sys_compact: "ws_pin s = Some db_it \<Longrightarrow>
    CompactionLocked L P db_it (ws_db s) keep = Inr (db', removed) \<Longrightarrow>
    watch_sys_step L C P utf8 a s (s\<lparr>ws_db := db', ws_pin := None\<rparr>)"
| sys_watch: "Watch_step L P a obs (ws_db s) (ws_hub s) (ws_pc s) = (hub', pc') \<Longrightarrow>
    watch_sys_step L C P utf8 a s (s\<lparr>ws_hub := hub', ws_pc := pc'\<rparr>)"

inductive_cases watch_sys_stepE [consumes 1, case_names applied copied served finished scanned compacted watched]:
  "watch_sys_step L C P utf8 a s s'"

section \<open>Invariant\<close>

definition log_ok :: "mvcc \<Rightarrow> ev_index \<Rightarrow> bool" where
  "log_ok m ev \<longleftrightarrow> (\<forall>r u kv. m_hist m (r, u) = Some kv \<longrightarrow> ev r = Some (s_event kv))"

definition ev_ok :: "ev_index \<Rightarrow> bool" where
  "ev_ok ev \<longleftrightarrow> (\<forall>r e. ev r = Some e \<longrightarrow> ev_revision e = r)"

text \<open>Events under way are those of the last revisions.\<close>

definition bc_events :: "ev_index \<Rightarrow> int \<Rightarrow> WatchEvent list \<Rightarrow> bool" where
  "bc_events ev R es \<longleftrightarrow> es \<noteq> [] \<and> ev_revision (hd es) \<le> R \<and>
     es = List.map_filter ev [ev_revision (hd es)..R]"

fun bc_ok :: "ev_index \<Rightarrow> int \<Rightarrow> bcast \<Rightarrow> bool" where
  "bc_ok ev R B_idle = True"
| "bc_ok ev R (B_pending es) = bc_events ev R es"
| "bc_ok ev R (B_deliver es ids) = (bc_events ev R es \<and> distinct ids)"

fun bc_ids :: "bcast \<Rightarrow> nat set" where
  "bc_ids (B_deliver es ids) = set ids"
| "bc_ids _ = {}"

text \<open>Up to which revision a registered waiter has been served.\<close>

fun served :: "nat \<Rightarrow> int \<Rightarrow> bcast \<Rightarrow> int" where
  "served w R B_idle = R"
| "served w R (B_pending es) = ev_revision (hd es) - 1"
| "served w R (B_deliver es ids) = (if w \<in> set ids then ev_revision (hd es) - 1 else R)"

text \<open>A revision read by the poll is before the events under way or the newest one.\<close>

fun cur_ok :: "int \<Rightarrow> int \<Rightarrow> bcast \<Rightarrow> bool" where
  "cur_ok cur R B_idle = (cur \<le> R)"
| "cur_ok cur R (B_pending es) = (cur < ev_revision (hd es) \<or> cur = R)"
| "cur_ok cur R (B_deliver es ids) = (cur < ev_revision (hd es) \<or> cur = R)"

text \<open>The buffer of a waiter served up to \<open>d\<close>; beyond \<open>cur\<close> it has every matching event.\<close>

definition buf_base :: "ev_index \<Rightarrow> int \<Rightarrow> Waiter \<Rightarrow> bool" where
  "buf_base ev d w \<longleftrightarrow> \<not> w_overflow w \<longrightarrow> sorted_wrt (<) (map ev_revision (w_events w)) \<and>
     (\<forall>e \<in> set (w_events w). ev (ev_revision e) = Some e \<and> key_match (w_key_filter w) e \<and> ev_revision e \<le> d)"

definition buf_full :: "ev_index \<Rightarrow> int \<Rightarrow> int \<Rightarrow> Waiter \<Rightarrow> bool" where
  "buf_full ev cur d w \<longleftrightarrow> \<not> w_overflow w \<longrightarrow>
     filter (\<lambda>e. cur < ev_revision e) (w_events w) = range_events ev (w_key_filter w) cur d"

lemma buf_full_fresh: "buf_base ev d w \<Longrightarrow> d \<le> cur \<Longrightarrow> buf_full ev cur d w"
  by (force simp: buf_full_def buf_base_def range_events_empty filter_empty_conv)

lemma bc_events_rev:
  assumes "bc_events ev R es" "ev_ok ev" "e \<in> set es"
  shows "ev (ev_revision e) = Some e" "ev_revision (hd es) \<le> ev_revision e" "ev_revision e \<le> R"
proof -
  have "e \<in> set (List.map_filter ev [ev_revision (hd es)..R])"
    using assms(1,3) unfolding bc_events_def by metis
  then obtain r where "r \<in> set [ev_revision (hd es)..R]" "ev r = Some e" unfolding set_map_filter by blast
  moreover from this(2) have "ev_revision e = r" using assms(2) unfolding ev_ok_def by blast
  ultimately show "ev (ev_revision e) = Some e" "ev_revision (hd es) \<le> ev_revision e" "ev_revision e \<le> R"
    by auto
qed

lemma map_filter_sorted:
  assumes "ev_ok ev"
  shows "sorted_wrt (<) (map ev_revision (List.map_filter ev [lo..hi]))"
proof -
  have "sorted_wrt (<) (map ev_revision (List.map_filter ev rs))" if "sorted_wrt (<) rs" for rs
    using that assms
    by (induction rs) (auto simp: map_filter_simps set_map_filter ev_ok_def split: option.split)
  then show ?thesis by simp
qed

text \<open>Recording the events of a command.\<close>

lemma record_ev_ok:
  assumes "map ev_revision es = [x..y]" "ev_ok ev"
  shows "ev_ok (record_events ev es)"
  unfolding ev_ok_def
proof (intro allI impI)
  fix r e assume r: "record_events ev es r = Some e"
  show "ev_revision e = r"
  proof (cases "r \<in> ev_revision ` set es")
    case True
    then obtain e' where "e' \<in> set es" "r = ev_revision e'" by blast
    with record_events_new [OF assms(1), of e'] r show ?thesis by simp
  next
    case False
    with r assms(2) record_events_old show ?thesis unfolding ev_ok_def by metis
  qed
qed

lemma record_bc_ok:
  assumes "map ev_revision es = [R + 1..R']"
  shows "bc_ok (record_events ev es) R' (if es = [] then B_idle else B_pending es)"
proof (cases "es = []")
  case False
  then have le: "R + 1 \<le> R'" using assms by (metis Nil_is_map_conv not_le upto_Nil)
  have "es = List.map_filter (record_events ev es) [R + 1..R']"
    using map_filter_section [of es "record_events ev es" ev_revision] record_events_new [OF assms] assms
    by simp
  moreover have "ev_revision (hd es) = R + 1"
    using False assms upto_rec1 [OF le] by (cases es) simp_all
  ultimately show ?thesis using False le by (simp add: bc_events_def)
qed simp

text \<open>Serving a waiter.\<close>

lemma serve_events:
  assumes "bc_events ev R es"
  shows "filter (key_match k) es = range_events ev k (ev_revision (hd es) - 1) R"
proof -
  have "es = List.map_filter ev [ev_revision (hd es)..R]" using assms by (simp add: bc_events_def)
  then show ?thesis unfolding range_events_def by simp
qed

lemma serve_base:
  assumes "ev_ok ev" "bc_events ev R es" "buf_base ev (ev_revision (hd es) - 1) w"
  shows "buf_base ev R (deliver n w es)"
  unfolding buf_base_def
proof (intro impI)
  let ?a = "ev_revision (hd es)" and ?ms = "filter (key_match (w_key_filter w)) es"
  have es: "es = List.map_filter ev [?a..R]" "?a \<le> R" using assms(2) by (simp_all add: bc_events_def)
  assume no: "\<not> w_overflow (deliver n w es)"
  then have "\<not> w_overflow w" using deliver_overflow_sticky by blast
  note old = assms(3) [unfolded buf_base_def, rule_format, OF this]
  have "sorted_wrt (<) (map ev_revision es)"
    using map_filter_sorted [OF assms(1), of ?a R] es(1) by simp
  then have "sorted_wrt (<) (map ev_revision ?ms)" by (simp add: sorted_wrt_map sorted_wrt_filter)
  then have "sorted_wrt (<) (map ev_revision (w_events w @ ?ms))"
    using old bc_events_rev(2) [OF assms(2,1)] by (fastforce simp: sorted_wrt_append)
  moreover have "ev (ev_revision e) = Some e \<and> key_match (w_key_filter w) e \<and> ev_revision e \<le> R"
    if "e \<in> set (w_events w @ ?ms)" for e
    using that old es(2) bc_events_rev(1,3) [OF assms(2,1)] by force
  ultimately show "sorted_wrt (<) (map ev_revision (w_events (deliver n w es))) \<and>
      (\<forall>e \<in> set (w_events (deliver n w es)). ev (ev_revision e) = Some e \<and>
        key_match (w_key_filter (deliver n w es)) e \<and> ev_revision e \<le> R)"
    unfolding deliver_events [OF no] deliver_filter by blast
qed

lemma serve_full:
  assumes "ev_ok ev" "bc_events ev R es" "buf_full ev cur (ev_revision (hd es) - 1) w"
    and cur: "cur < ev_revision (hd es) \<or> cur = R"
  shows "buf_full ev cur R (deliver n w es)"
  unfolding buf_full_def
proof (intro impI)
  let ?a = "ev_revision (hd es)" and ?ms = "filter (key_match (w_key_filter w)) es"
  have aR: "?a \<le> R" using assms(2) by (simp add: bc_events_def)
  assume no: "\<not> w_overflow (deliver n w es)"
  then have "\<not> w_overflow w" using deliver_overflow_sticky by blast
  then have old: "filter (\<lambda>e. cur < ev_revision e) (w_events w) = range_events ev (w_key_filter w) cur (?a - 1)"
    using assms(3) by (simp add: buf_full_def)
  show "filter (\<lambda>e. cur < ev_revision e) (w_events (deliver n w es)) =
      range_events ev (w_key_filter (deliver n w es)) cur R"
  proof (cases "cur < ?a")
    case True
    then have "filter (\<lambda>e. cur < ev_revision e) ?ms = ?ms"
      using bc_events_rev(2) [OF assms(2,1)] by (force simp: filter_id_conv simp del: filter_filter)
    with old True aR show ?thesis
      by (simp add: deliver_events [OF no] range_events_split [of cur "?a - 1" R]
          flip: serve_events [OF assms(2)])
  next
    case False
    with cur have "cur = R" by simp
    moreover have "filter (\<lambda>e. R < ev_revision e) ?ms = []"
      using bc_events_rev(3) [OF assms(2,1)] by (fastforce simp: filter_empty_conv)
    ultimately show ?thesis
      using old aR by (simp add: deliver_events [OF no] range_events_empty)
  qed
qed

section \<open>The waiter of the poll\<close>

text \<open>
  A live waiter served up to \<open>d\<close>: while it is registered or in the list being served, \<open>d\<close> is what
  the state machine's thread has done for it.
\<close>

definition waiter_ok :: "ev_index \<Rightarrow> watch_args \<Rightarrow> WatchHub \<Rightarrow> bcast \<Rightarrow> int \<Rightarrow> int option \<Rightarrow> bool" where
  "waiter_ok ev a hub bc R curo \<longleftrightarrow> (\<exists>ww d. wh_objs hub (wa_waiter a) = Some ww \<and>
     w_key_filter ww = wa_key a \<and> d \<le> R \<and> buf_base ev d ww \<and>
     (\<forall>cur. curo = Some cur \<longrightarrow> cur_ok cur R bc \<and> buf_full ev cur d ww) \<and>
     (wa_waiter a \<in> set (wh_waiters hub) \<union> bc_ids bc \<longrightarrow> d = served (wa_waiter a) R bc))"

lemma waiter_okI:
  "\<lbrakk>wh_objs hub (wa_waiter a) = Some ww; w_key_filter ww = wa_key a; d \<le> R; buf_base ev d ww;
    \<And>cur. curo = Some cur \<Longrightarrow> cur_ok cur R bc \<and> buf_full ev cur d ww;
    wa_waiter a \<in> set (wh_waiters hub) \<union> bc_ids bc \<Longrightarrow> d = served (wa_waiter a) R bc\<rbrakk> \<Longrightarrow>
   waiter_ok ev a hub bc R curo"
  unfolding waiter_ok_def by blast

lemma waiter_okE:
  assumes "waiter_ok ev a hub bc R curo"
  obtains ww d where "wh_objs hub (wa_waiter a) = Some ww" "w_key_filter ww = wa_key a" "d \<le> R"
    "buf_base ev d ww" "\<And>cur. curo = Some cur \<Longrightarrow> cur_ok cur R bc \<and> buf_full ev cur d ww"
    "wa_waiter a \<in> set (wh_waiters hub) \<union> bc_ids bc \<Longrightarrow> d = served (wa_waiter a) R bc"
  using assms unfolding waiter_ok_def by blast

lemma buf_cong:
  assumes "\<And>r. r \<le> d \<Longrightarrow> ev' r = ev r"
  shows "buf_base ev d w \<Longrightarrow> buf_base ev' d w" "buf_full ev' cur d w = buf_full ev cur d w"
  using assms range_events_cong [of cur d ev ev'] by (auto simp: buf_base_def buf_full_def)

lemma waiter_ok_apply:
  assumes "waiter_ok ev a hub B_idle R curo" "map ev_revision es = [R + 1..R']" "R \<le> R'"
  shows "waiter_ok (record_events ev es) a hub (if es = [] then B_idle else B_pending es) R' curo"
proof -
  obtain ww d where w: "wh_objs hub (wa_waiter a) = Some ww" "w_key_filter ww = wa_key a" "d \<le> R"
    "buf_base ev d ww" "\<And>cur. curo = Some cur \<Longrightarrow> cur_ok cur R B_idle \<and> buf_full ev cur d ww"
    "wa_waiter a \<in> set (wh_waiters hub) \<union> bc_ids B_idle \<Longrightarrow> d = served (wa_waiter a) R B_idle"
    using assms(1) unfolding waiter_ok_def by blast
  have "set (map ev_revision es) = {R + 1..R'}" using assms(2) by simp
  then have old: "record_events ev es r = ev r" if "r \<le> d" for r
    using that w(3) by (intro record_events_old) auto
  have empty: "R' = R" if "es = []" using assms(2,3) that by simp
  have hd: "ev_revision (hd es) = R + 1" if "es \<noteq> []"
  proof -
    have "ev_revision (hd es) = hd (map ev_revision es)" using that by (simp add: hd_map)
    also have "\<dots> = R + 1" using that assms(2,3) upto_rec1 [of "R + 1" R'] by (cases "R + 1 \<le> R'") auto
    finally show ?thesis .
  qed
  show ?thesis
  proof (rule waiter_okI [of hub a ww d])
    show "buf_base (record_events ev es) d ww" using old w(4) by (rule buf_cong(1))
    show "cur_ok cur R' (if es = [] then B_idle else B_pending es) \<and> buf_full (record_events ev es) cur d ww"
      if "curo = Some cur" for cur
      using w(5) [OF that] buf_cong(2) [OF old] empty hd by auto
    show "d = served (wa_waiter a) R' (if es = [] then B_idle else B_pending es)"
      if "wa_waiter a \<in> set (wh_waiters hub) \<union> bc_ids (if es = [] then B_idle else B_pending es)"
      using w(6) that empty hd by (auto split: if_splits)
  qed (use w(1-3) assms(3) in auto)
qed

lemma waiter_ok_copy:
  "waiter_ok ev a hub (B_pending es) R curo \<Longrightarrow> waiter_ok ev a hub (B_deliver es (wh_waiters hub)) R curo"
  unfolding waiter_ok_def by auto

lemma waiter_ok_done:
  "waiter_ok ev a hub (B_deliver es []) R curo \<Longrightarrow> bc_events ev R es \<Longrightarrow> waiter_ok ev a hub B_idle R curo"
  unfolding waiter_ok_def bc_events_def by fastforce

lemma waiter_ok_serve:
  assumes "waiter_ok ev a hub (B_deliver es (i # ids)) R curo" "ev_ok ev" "bc_events ev R es"
    and "distinct (i # ids)"
  shows "waiter_ok ev a (Broadcast_one es i hub) (B_deliver es ids) R curo"
proof (rule waiter_okE [OF assms(1)])
  fix ww d
  assume w: "wh_objs hub (wa_waiter a) = Some ww" "w_key_filter ww = wa_key a" "d \<le> R" "buf_base ev d ww"
    "\<And>cur. curo = Some cur \<Longrightarrow> cur_ok cur R (B_deliver es (i # ids)) \<and> buf_full ev cur d ww"
    "wa_waiter a \<in> set (wh_waiters hub) \<union> bc_ids (B_deliver es (i # ids)) \<Longrightarrow>
      d = served (wa_waiter a) R (B_deliver es (i # ids))"
  show ?thesis
  proof (cases "wa_waiter a = i")
    case True
    then have d: "d = ev_revision (hd es) - 1" using w(6) by simp
    show ?thesis
    proof (rule waiter_okI)
      show "wh_objs (Broadcast_one es i hub) (wa_waiter a) = Some (deliver (wh_max hub) ww es)"
        using True w(1) by (simp add: Broadcast_one_objs)
      show "buf_base ev R (deliver (wh_max hub) ww es)" 
        by (rule serve_base [OF assms(2,3) w(4) [unfolded d]])
      show "cur_ok cur R (B_deliver es ids) \<and> buf_full ev cur R (deliver (wh_max hub) ww es)"
        if "curo = Some cur" for cur
        using w(5) [OF that] serve_full [OF assms(2,3), of cur ww] d by auto
    qed (use True w(2) assms(4) in auto)
  next
    case False
    with w show ?thesis
      by (intro waiter_okI [of _ _ ww d]) (auto simp: Broadcast_one_objs)
  qed
qed

section \<open>What resuming gives\<close>

lemma range_events_sorted: "ev_ok ev \<Longrightarrow> sorted_wrt (<) (map ev_revision (range_events ev key lo hi))"
  using map_filter_sorted [of ev "lo + 1" hi] sorted_wrt_filter
  unfolding range_events_def sorted_wrt_map by blast

lemma range_events_bounds:
  "ev_ok ev \<Longrightarrow> e \<in> set (range_events ev key lo hi) \<Longrightarrow> lo < ev_revision e \<and> ev_revision e \<le> hi"
  unfolding range_events_iff ev_ok_def by auto

lemma range_events_upto:
  assumes "ev_ok ev" "hi' \<le> hi"
  shows "filter (\<lambda>e. ev_revision e \<le> hi') (range_events ev key lo hi) = range_events ev key lo hi'"
proof (cases "lo \<le> hi'")
  case True
  have "filter (\<lambda>e. ev_revision e \<le> hi') (range_events ev key lo hi') = range_events ev key lo hi'"
    "filter (\<lambda>e. ev_revision e \<le> hi') (range_events ev key hi' hi) = []"
    using range_events_bounds [OF assms(1)] by (fastforce simp: filter_id_conv filter_empty_conv)+
  then show ?thesis using range_events_split [OF True assms(2)] by simp
next
  case False
  then have "filter (\<lambda>e. ev_revision e \<le> hi') (range_events ev key lo hi) = []"
    using range_events_bounds [OF assms(1)] by (fastforce simp: filter_empty_conv)
  with False show ?thesis by (simp add: range_events_empty)
qed

lemma sorted_prefix_filter:
  assumes "sorted_wrt (<) (map f xs)" "xs = ys @ zs" "ys \<noteq> []"
  shows "filter (\<lambda>x. f x \<le> (f (last ys) :: int)) xs = ys"
proof -
  have split: "ys = butlast ys @ [last ys]" using assms(3) by simp
  have "sorted_wrt (<) (map f ys)" using assms(1,2) by (simp add: sorted_wrt_append)
  then have "sorted_wrt (<) (map f (butlast ys @ [last ys]))" using split by simp
  then have "\<forall>y \<in> set (butlast ys). f y < f (last ys)" by (simp add: sorted_wrt_append)
  moreover have "set ys = insert (last ys) (set (butlast ys))" using arg_cong [OF split, of set] by simp
  ultimately have "\<forall>y \<in> set ys. f y \<le> f (last ys)" by (metis insert_iff order_refl order.strict_implies_order)
  moreover have "\<forall>z \<in> set zs. f (last ys) < f z"
    using assms by (auto simp: sorted_wrt_append)
  ultimately show ?thesis
    using assms(2) by (simp add: filter_id_conv filter_empty_conv not_le)
qed

lemma take_range_events:
  assumes "ev_ok ev" "out = take n (range_events ev key lo hi)" "out \<noteq> []"
  shows "out = range_events ev key lo (ev_revision (last out))" "ev_revision (last out) \<le> hi"
proof -
  let ?xs = "range_events ev key lo hi"
  have "last out \<in> set ?xs" using assms(2,3) by (metis in_set_takeD last_in_set)
  then show le: "ev_revision (last out) \<le> hi" using range_events_bounds [OF assms(1)] by blast
  have "?xs = out @ drop n ?xs" using assms(2) by simp
  from sorted_prefix_filter [OF range_events_sorted [OF assms(1)] this assms(3)]
  show "out = range_events ev key lo (ev_revision (last out))"
    using range_events_upto [OF assms(1) le] by simp
qed

lemma index_of_records:
  assumes "log_ok m ev" "hist_from m lo kvs" "map kv_revision (filter (\<lambda>kv. kv_revision kv \<le> cur) kvs) = rs"
  shows "List.map_filter ev rs = map s_event (filter (\<lambda>kv. kv_revision kv \<le> cur) kvs)"
proof -
  have "ev (kv_revision kv) = Some (s_event kv)" if "kv \<in> set kvs" for kv
    using assms(1) hist_from_iff [OF assms(2)] that unfolding log_ok_def by blast
  then have "List.map_filter ev (map kv_revision ks) = map s_event ks" if "set ks \<subseteq> set kvs" for ks
    using that by (induction ks) (simp_all add: map_filter_simps)
  then show ?thesis using assms(3) by (metis (no_types, lifting) filter_is_subset)
qed

context store_env
begin

lemma replay_range:
  assumes inv: "store_inv P (C db_it)" and log: "log_ok (mvcc_of P (C db_it)) ev"
    and crev: "m_crev (mvcc_of P (C db_it)) \<le> m_crev (mvcc_of P (C db))"
    and cur: "cur \<le> m_rev (mvcc_of P (C db_it))" and mx: "0 < mx" "mx < 2 ^ 31" and frm: "0 \<le> frm"
  shows "ReplayEventsLocked L P db_it db frm cur key mx = Inr (False, [], COMPACTED) \<or>
    ReplayEventsLocked L P db_it db frm cur key mx =
      Inr (True, take (nat mx) (range_events ev key frm cur), OK)"
proof (rule replay_cases [OF inv mx cur, of db frm key])
  have mi: "mvcc_inv (mvcc_of P (C db_it))" using inv by (simp add: store_inv_def)
  have mf: "max 0 frm = frm" using frm by simp
  fix kvs assume h: "hist_from (mvcc_of P (C db_it)) (max 0 frm + 1) kvs"
    and run: "ReplayEventsLocked L P db_it db frm cur key mx = Inr (True, replay_spec key cur mx kvs, OK)"
    and "m_crev (mvcc_of P (C db)) \<le> max 0 frm"
  then have "m_crev (mvcc_of P (C db_it)) \<le> frm" using crev mf by linarith
  from hist_from_revisions [OF mi h [unfolded mf] this cur]
  have "List.map_filter ev [frm + 1..cur] = map s_event (filter (\<lambda>kv. kv_revision kv \<le> cur) kvs)"
    by (rule index_of_records [OF log h [unfolded mf]])
  moreover have "key_match key (s_event kv) = replay_match key kv" for kv
    by (simp add: key_match_def replay_match_def s_event_def)
  ultimately have "range_events ev key frm cur =
      map s_event (filter (\<lambda>kv. kv_revision kv \<le> cur \<and> replay_match key kv) kvs)"
    by (simp add: range_events_def filter_map comp_def conj_commute)
  with run show ?thesis by (simp add: replay_spec_def take_map)
qed (use frm in \<open>simp_all add: range_events_empty max_absorb2\<close>)

end

section \<open>The invariant of the system\<close>

definition answer_ok :: "ev_index \<Rightarrow> watch_args \<Rightarrow> int \<Rightarrow> WatchResult \<Rightarrow> bool" where
  "answer_ok ev a R out \<longleftrightarrow> (wr_events out \<noteq> [] \<longrightarrow>
     wr_current_revision out = ev_revision (last (wr_events out)) \<and> wr_current_revision out \<le> R \<and>
     filter (\<lambda>e. wa_from a < ev_revision e) (wr_events out) =
       range_events ev (wa_key a) (wa_from a) (wr_current_revision out))"

text \<open>A poll that found nothing up to a revision and is served beyond it.\<close>

definition quiet_ok :: "ev_index \<Rightarrow> watch_args \<Rightarrow> WatchHub \<Rightarrow> bcast \<Rightarrow> int \<Rightarrow> bool" where
  "quiet_ok ev a hub bc R \<longleftrightarrow> (\<exists>cur. waiter_ok ev a hub bc R (Some cur) \<and> wa_from a \<le> cur \<and>
     range_events ev (wa_key a) (wa_from a) cur = [])"

fun pc_inv ::
  "('db \<Rightarrow> contents) \<Rightarrow> codec \<Rightarrow> watch_args \<Rightarrow> 'db \<Rightarrow> ev_index \<Rightarrow> WatchHub \<Rightarrow> bcast \<Rightarrow> 'db watch_pc \<Rightarrow> bool" where
  "pc_inv C P a db ev hub bc W_quick \<longleftrightarrow> wa_waiter a \<notin> set (wh_waiters hub) \<union> bc_ids bc"
| "pc_inv C P a db ev hub bc (W_catchup _) \<longleftrightarrow> wa_waiter a \<notin> set (wh_waiters hub) \<union> bc_ids bc"
| "pc_inv C P a db ev hub bc W_register \<longleftrightarrow> wa_waiter a \<notin> set (wh_waiters hub) \<union> bc_ids bc \<and>
     wa_from a \<le> m_rev (mvcc_of P (C db))"
| "pc_inv C P a db ev hub bc W_current \<longleftrightarrow> waiter_ok ev a hub bc (m_rev (mvcc_of P (C db))) None \<and>
     wa_from a \<le> m_rev (mvcc_of P (C db))"
| "pc_inv C P a db ev hub bc (W_iter cur) \<longleftrightarrow>
     waiter_ok ev a hub bc (m_rev (mvcc_of P (C db))) (Some cur) \<and> wa_from a \<le> cur"
| "pc_inv C P a db ev hub bc (W_replay cur db_it) \<longleftrightarrow>
     waiter_ok ev a hub bc (m_rev (mvcc_of P (C db))) (Some cur) \<and> wa_from a \<le> cur \<and>
     store_inv P (C db_it) \<and> log_ok (mvcc_of P (C db_it)) ev \<and>
     m_crev (mvcc_of P (C db_it)) \<le> m_crev (mvcc_of P (C db)) \<and>
     cur \<le> m_rev (mvcc_of P (C db_it)) \<and> m_rev (mvcc_of P (C db_it)) \<le> m_rev (mvcc_of P (C db))"
| "pc_inv C P a db ev hub bc W_deadline \<longleftrightarrow> quiet_ok ev a hub bc (m_rev (mvcc_of P (C db)))"
| "pc_inv C P a db ev hub bc (W_wait _) \<longleftrightarrow> quiet_ok ev a hub bc (m_rev (mvcc_of P (C db)))"
| "pc_inv C P a db ev hub bc W_unregister \<longleftrightarrow> quiet_ok ev a hub bc (m_rev (mvcc_of P (C db)))"
| "pc_inv C P a db ev hub bc W_collect \<longleftrightarrow> quiet_ok ev a hub bc (m_rev (mvcc_of P (C db)))"
| "pc_inv C P a db ev hub bc (W_last _) \<longleftrightarrow> True"
| "pc_inv C P a db ev hub bc (W_return ok out) \<longleftrightarrow> answer_ok ev a (m_rev (mvcc_of P (C db))) out"
| "pc_inv C P a db ev hub bc (W_throw _) \<longleftrightarrow> False"

definition watch_inv :: "('db \<Rightarrow> contents) \<Rightarrow> codec \<Rightarrow> watch_args \<Rightarrow> 'db watch_sys \<Rightarrow> bool" where
  "watch_inv C P a s \<longleftrightarrow> sys_inv C P (ws_db s, ws_pin s) \<and>
     log_ok (mvcc_of P (C (ws_db s))) (ws_ev s) \<and> ev_ok (ws_ev s) \<and>
     bc_ok (ws_ev s) (m_rev (mvcc_of P (C (ws_db s)))) (ws_bc s) \<and>
     distinct (wh_waiters (ws_hub s)) \<and> 0 < wh_max (ws_hub s) \<and> wh_max (ws_hub s) < 2 ^ 31 \<and>
     0 < wa_from a \<and> pc_inv C P a (ws_db s) (ws_ev s) (ws_hub s) (ws_bc s) (ws_pc s)"

lemma watch_invD:
  assumes "watch_inv C P a s"
  shows "sys_inv C P (ws_db s, ws_pin s)" "log_ok (mvcc_of P (C (ws_db s))) (ws_ev s)" "ev_ok (ws_ev s)"
    "bc_ok (ws_ev s) (m_rev (mvcc_of P (C (ws_db s)))) (ws_bc s)" "distinct (wh_waiters (ws_hub s))"
    "0 < wh_max (ws_hub s)" "wh_max (ws_hub s) < 2 ^ 31" "0 < wa_from a"
    "pc_inv C P a (ws_db s) (ws_ev s) (ws_hub s) (ws_bc s) (ws_pc s)"
  using assms by (simp_all add: watch_inv_def)

section \<open>Steps of the other threads\<close>

lemma cur_ok_le: "bc_ok ev R bc \<Longrightarrow> cur_ok cur R bc \<Longrightarrow> cur \<le> R"
  by (cases bc) (auto simp: bc_events_def)

lemma waiter_ok_cur: "bc_ok ev R bc \<Longrightarrow> waiter_ok ev a hub bc R (Some cur) \<Longrightarrow> cur \<le> R"
  unfolding waiter_ok_def using cur_ok_le by blast

lemma log_ok_mono:
  assumes "log_ok m ev" "mvcc_inv m" "m_rev m \<le> R" "\<And>r. r \<le> R \<Longrightarrow> ev' r = ev r"
  shows "log_ok m ev'"
  unfolding log_ok_def
proof (intro allI impI)
  fix r u kv assume h: "m_hist m (r, u) = Some kv"
  have "r \<le> R" using hist_bounds(2) [OF assms(2) h] assms(3) by simp
  with assms(1,4) h show "ev' r = Some (s_event kv)" unfolding log_ok_def by simp
qed

lemma pc_inv_env:
  assumes pc: "pc_inv C P a db ev hub bc pc" and bc: "bc_ok ev (m_rev (mvcc_of P (C db))) bc"
    and w: "\<And>curo. waiter_ok ev a hub bc (m_rev (mvcc_of P (C db))) curo \<Longrightarrow>
        waiter_ok ev' a hub' bc' (m_rev (mvcc_of P (C db'))) curo"
    and absent: "wa_waiter a \<notin> set (wh_waiters hub) \<union> bc_ids bc \<Longrightarrow>
        wa_waiter a \<notin> set (wh_waiters hub') \<union> bc_ids bc'"
    and ev: "\<And>r. r \<le> m_rev (mvcc_of P (C db)) \<Longrightarrow> ev' r = ev r"
    and grow: "m_rev (mvcc_of P (C db)) \<le> m_rev (mvcc_of P (C db'))"
      "m_crev (mvcc_of P (C db)) \<le> m_crev (mvcc_of P (C db'))"
  shows "pc_inv C P a db' ev' hub' bc' pc"
proof -
  have quiet: "quiet_ok ev' a hub' bc' (m_rev (mvcc_of P (C db')))"
    if q: "quiet_ok ev a hub bc (m_rev (mvcc_of P (C db)))"
  proof -
    obtain cur where cur: "waiter_ok ev a hub bc (m_rev (mvcc_of P (C db))) (Some cur)" "wa_from a \<le> cur"
        "range_events ev (wa_key a) (wa_from a) cur = []"
      using q unfolding quiet_ok_def by blast
    have "cur \<le> m_rev (mvcc_of P (C db))" by (rule waiter_ok_cur [OF bc cur(1)])
    then have "range_events ev' (wa_key a) (wa_from a) cur = []"
      using cur(3) range_events_cong [of "wa_from a" cur ev' ev] ev by simp
    with w [OF cur(1)] cur(2) show ?thesis unfolding quiet_ok_def by blast
  qed
  have answer: "answer_ok ev' a (m_rev (mvcc_of P (C db'))) out"
    if "answer_ok ev a (m_rev (mvcc_of P (C db))) out" for out
    using that grow(1) ev range_events_cong [of "wa_from a" "wr_current_revision out" ev' ev]
    unfolding answer_ok_def by auto
  have log: "log_ok (mvcc_of P (C db_it)) ev'"
    if "log_ok (mvcc_of P (C db_it)) ev" "store_inv P (C db_it)"
      "m_rev (mvcc_of P (C db_it)) \<le> m_rev (mvcc_of P (C db))" for db_it
    using log_ok_mono [OF that(1) _ that(3) ev] that(2) by (simp add: store_inv_def)
  show ?thesis
    using pc w absent grow quiet answer log by (cases pc) (auto simp del: mvcc_of_sel)
qed

context store_env
begin

lemma apply_log_ok:
  assumes "store_inv P (C db)" "cmd_fits utf8 cmd" "nn64 (m_rev (mvcc_of P (C db)) + cmd_cost cmd)"
    and "ApplyCmdToStore L P db cmd ApplyResult_init = (db', res)"
    and "log_ok (mvcc_of P (C db)) ev" "ev_ok ev"
  shows "log_ok (mvcc_of P (C db')) (record_events ev (ar_events res))"
    and "ev_ok (record_events ev (ar_events res))"
    and "bc_ok (record_events ev (ar_events res)) (m_rev (mvcc_of P (C db')))
      (if ar_events res = [] then B_idle else B_pending (ar_events res))"
    and "r \<le> m_rev (mvcc_of P (C db)) \<Longrightarrow> record_events ev (ar_events res) r = ev r"
proof -
  let ?m = "mvcc_of P (C db)" and ?m' = "mvcc_of P (C db')" and ?es = "ar_events res"
  note st = apply_step [OF assms(1-4)]
  have mi: "mvcc_inv ?m" using assms(1) by (simp add: store_inv_def)
  have "store_inv P (C db')" by (rule apply_keeps_inv [OF assms(1-4)])
  then have mi': "mvcc_inv ?m'" by (simp add: store_inv_def)
  note new = record_events_new [OF st(3)]
  have "set (map ev_revision ?es) = {m_rev ?m + 1..m_rev ?m'}" using st(3) by simp
  then have old: "record_events ev ?es r = ev r" if "r \<le> m_rev ?m" for r
    using that by (intro record_events_old) auto
  then show "r \<le> m_rev ?m \<Longrightarrow> record_events ev ?es r = ev r" by simp
  show "log_ok ?m' (record_events ev ?es)"
    unfolding log_ok_def
  proof (intro allI impI)
    fix r u kv assume h: "m_hist ?m' (r, u) = Some kv"
    have "m_hist ?m (r, u) = Some kv \<or> s_event kv \<in> set ?es"
      using apply_refines [OF assms(1-4)] h s_apply_hist [of ?m cmd r u kv] refused_unchanged [of db db' res]
      unfolding cmd_done_def by (metis fst_conv snd_conv)
    then show "record_events ev ?es r = Some (s_event kv)"
    proof
      assume o: "m_hist ?m (r, u) = Some kv"
      with assms(5) old hist_bounds(2) [OF mi o] show ?thesis unfolding log_ok_def by simp
    next
      assume "s_event kv \<in> set ?es"
      with new hist_okD(2) [OF mvcc_invD(5) [OF mi'] h] show ?thesis by fastforce
    qed
  qed
  show "ev_ok (record_events ev ?es)" by (rule record_ev_ok [OF st(3) assms(6)])
  show "bc_ok (record_events ev ?es) (m_rev ?m') (if ?es = [] then B_idle else B_pending ?es)"
    by (rule record_bc_ok [OF st(3)])
qed

end

section \<open>Steps of the poll\<close>

text \<open>The buffer of a quiet poll makes a right answer.\<close>

lemma buffer_answer:
  assumes "ev_ok ev" "buf_base ev d ww" "buf_full ev cur d ww" "d \<le> R" "w_key_filter ww = wa_key a"
    and "wa_from a \<le> cur" "range_events ev (wa_key a) (wa_from a) cur = []"
    and "\<not> w_overflow ww" "w_events ww \<noteq> []"
  shows "answer_ok ev a R (WatchResult_init\<lparr>wr_events := w_events ww,
    wr_current_revision := ev_revision (last (w_events ww))\<rparr>)"
proof -
  let ?es = "w_events ww" and ?x = "ev_revision (last (w_events ww))" and ?f = "wa_from a" and ?k = "wa_key a"
  note base = assms(2) [unfolded buf_base_def, rule_format, OF assms(8)]
  have x: "?x \<le> d" using base assms(9) by simp
  have stale: "ev_revision e \<le> ?f" if "e \<in> set ?es" "ev_revision e \<le> cur" for e
  proof (rule ccontr)
    assume "\<not> ev_revision e \<le> ?f"
    with that base assms(5) have "e \<in> set (range_events ev ?k ?f cur)" unfolding range_events_iff by force
    with assms(7) show False by simp
  qed
  have "filter (\<lambda>e. ?f < ev_revision e) ?es = filter (\<lambda>e. cur < ev_revision e) ?es"
    using stale assms(6) by (intro filter_cong) force+
  also have "\<dots> = filter (\<lambda>e. cur < ev_revision e) (filter (\<lambda>e. ev_revision e \<le> ?x) ?es)"
    using sorted_prefix_filter [of ev_revision ?es ?es "[]"] base assms(9) by simp
  also have "\<dots> = filter (\<lambda>e. ev_revision e \<le> ?x) (filter (\<lambda>e. cur < ev_revision e) ?es)"
    unfolding filter_filter by (rule filter_cong) auto
  also have "\<dots> = filter (\<lambda>e. ev_revision e \<le> ?x) (range_events ev ?k cur d)"
    using assms(3,5,8) by (simp only: buf_full_def simp_thms)
  also have "\<dots> = range_events ev ?k cur ?x" by (rule range_events_upto [OF assms(1) x])
  also have "\<dots> = range_events ev ?k ?f ?x"
  proof (cases "cur \<le> ?x")
    case True
    then show ?thesis using range_events_split [of ?f cur ?x ev ?k] assms(6,7) by simp
  next
    case False
    then have "range_events ev ?k ?f ?x = []"
      using range_events_upto [OF assms(1), of ?x cur ?k ?f] assms(7) by simp
    with False show ?thesis by (simp add: range_events_empty)
  qed
  finally show ?thesis using x assms(4) by (simp add: answer_ok_def)
qed

lemma answer_no_events: "wr_events out = [] \<Longrightarrow> answer_ok ev a R out"
  by (simp add: answer_ok_def)

lemma register_ok:
  assumes "wa_waiter a \<notin> set (wh_waiters hub) \<union> bc_ids bc" "bc_ok ev R bc"
  shows "waiter_ok ev a (Register (hub\<lparr>wh_objs := (wh_objs hub)(wa_waiter a \<mapsto>
      \<lparr>w_key_filter = wa_key a, w_events = [], w_overflow = False\<rparr>)\<rparr>) (wa_waiter a)) bc R None"
proof (rule waiter_okI [where d = "served (wa_waiter a) R bc" and
      ww = "\<lparr>w_key_filter = wa_key a, w_events = [], w_overflow = False\<rparr>"])
  show "served (wa_waiter a) R bc \<le> R" using assms(2) by (cases bc) (auto simp: bc_events_def)
qed (simp_all add: buf_base_def)

lemma read_current_ok:
  assumes "waiter_ok ev a hub bc R None" "bc_ok ev R bc"
  shows "waiter_ok ev a hub bc R (Some R)"
proof -
  have "cur_ok R R bc" by (cases bc) simp_all
  with assms(1) buf_full_fresh show ?thesis unfolding waiter_ok_def by blast
qed

lemma waiter_ok_unregister:
  "waiter_ok ev a hub bc R curo \<Longrightarrow> waiter_ok ev a (Unregister hub w) bc R curo"
  unfolding waiter_ok_def using Unregister_waiters(1) [of hub w] by auto

context store_env
begin

lemma watch_step_replay:
  assumes inv: "pc_inv C P a db ev hub bc (W_replay cur db_it)" and ev: "ev_ok ev"
    and mx: "0 < wh_max hub" "wh_max hub < 2 ^ 31" and frm: "0 < wa_from a"
    and step: "Watch_step L P a obs db hub (W_replay cur db_it) = (hub', pc')"
  shows "pc_inv C P a db ev hub' bc pc'"
proof -
  let ?R = "m_rev (mvcc_of P (C db))" and ?all = "range_events ev (wa_key a) (wa_from a) cur"
  have i32: "i32 (int (wh_max hub)) = int (wh_max hub)" using mx by (intro i32_id) simp_all
  have facts: "waiter_ok ev a hub bc ?R (Some cur)" "wa_from a \<le> cur" "store_inv P (C db_it)"
      "log_ok (mvcc_of P (C db_it)) ev" "m_crev (mvcc_of P (C db_it)) \<le> m_crev (mvcc_of P (C db))"
      "cur \<le> m_rev (mvcc_of P (C db_it))" "m_rev (mvcc_of P (C db_it)) \<le> ?R"
    using inv by simp_all
  have mx': "(0 :: int) < int (wh_max hub)" "int (wh_max hub) < 2 ^ 31" "0 \<le> wa_from a" using mx frm by simp_all
  define out where "out = take (wh_max hub) ?all"
  from replay_range [OF facts(3-6) mx', of "wa_key a"]
  consider (compacted) "ReplayEventsLocked L P db_it db (wa_from a) cur (wa_key a) (int (wh_max hub)) = Inr (False, [], COMPACTED)"
    | (events) "ReplayEventsLocked L P db_it db (wa_from a) cur (wa_key a) (int (wh_max hub)) = Inr (True, out, OK)"
    unfolding out_def by auto
  then show ?thesis
  proof cases
    case compacted
    with step i32 have "pc' = W_return False (WatchResult_init\<lparr>wr_code := COMPACTED, wr_message := compacted_message,
        wr_current_revision := CurrentRevisionLocked L db\<rparr>)" by auto
    then show ?thesis by (simp add: answer_no_events WatchResult_init_def)
  next
    case events
    show ?thesis
    proof (cases "out = []")
      case True
      then have "?all = []" using mx(1) by (simp add: out_def)
      moreover have "hub' = hub" "pc' = W_deadline" using step events i32 True by auto
      ultimately show ?thesis using facts(1,2) by (auto simp: quiet_ok_def simp del: mvcc_of_sel)
    next
      case False
      then have pc': "pc' = W_return True (WatchResult_init\<lparr>wr_events := out,
          wr_current_revision := ev_revision (last out)\<rparr>)" using step events i32 by auto
      note tk = take_range_events [OF ev out_def False]
      have "ev_revision (last out) \<le> ?R" using tk(2) facts(6,7) by linarith
      moreover have "filter (\<lambda>e. wa_from a < ev_revision e) out = out"
        using tk(1) range_events_bounds [OF ev] by (metis (no_types, lifting) filter_True)
      ultimately show ?thesis using pc' tk(1) by (simp add: answer_ok_def del: mvcc_of_sel)
    qed
  qed
qed

lemma watch_step_collect:
  assumes q: "quiet_ok ev a hub bc (m_rev (mvcc_of P (C db)))" and ev: "ev_ok ev"
    and step: "Watch_step L P a obs db hub W_collect = (hub', pc')"
  shows "pc_inv C P a db ev hub' bc pc'"
proof -
  obtain cur ww d where w: "wh_objs hub (wa_waiter a) = Some ww" "w_key_filter ww = wa_key a"
      "d \<le> m_rev (mvcc_of P (C db))" "buf_base ev d ww" "buf_full ev cur d ww" "wa_from a \<le> cur"
      "range_events ev (wa_key a) (wa_from a) cur = []"
    using q unfolding quiet_ok_def waiter_ok_def by blast
  show ?thesis
    using step w(1) buffer_answer [OF ev w(4,5,3,2,6,7)] by (auto split: if_splits simp del: mvcc_of_sel)
qed

lemma watch_step_pc:
  assumes pc: "pc_inv C P a db ev hub bc pc" and bc: "bc_ok ev (m_rev (mvcc_of P (C db))) bc"
    and ev: "ev_ok ev" and db: "store_inv P (C db)" "log_ok (mvcc_of P (C db)) ev"
    and mx: "0 < wh_max hub" "wh_max hub < 2 ^ 31" and frm: "0 < wa_from a"
    and step: "Watch_step L P a obs db hub pc = (hub', pc')"
  shows "pc_inv C P a db ev hub' bc pc'"
proof (cases pc)
  case W_quick
  with pc step frm show ?thesis by (auto simp: answer_no_events WatchResult_init_def split: if_splits)
next
  case (W_catchup t)
  with pc step show ?thesis
    by (auto simp: answer_no_events WatchResult_init_def CurrentRevision_refines split: if_splits)
next
  case W_register
  with pc step frm register_ok [OF _ bc, of a hub] show ?thesis by (auto simp del: mvcc_of_sel)
next
  case W_current
  with pc step read_current_ok [OF _ bc, of a hub] show ?thesis
    by (auto simp: CurrentRevision_refines simp del: mvcc_of_sel)
next
  case (W_iter cur)
  with pc step db waiter_ok_cur [OF bc] show ?thesis by (auto simp del: mvcc_of_sel)
next
  case (W_replay cur db_it)
  with pc step watch_step_replay [OF _ ev mx frm] show ?thesis by blast
next
  case W_deadline
  with pc step show ?thesis by (auto simp del: mvcc_of_sel)
next
  case (W_wait t)
  with pc step show ?thesis by (auto split: option.splits if_splits simp del: mvcc_of_sel)
next
  case W_unregister
  with pc step waiter_ok_unregister show ?thesis by (fastforce simp: quiet_ok_def simp del: mvcc_of_sel)
next
  case W_collect
  with pc step watch_step_collect [OF _ ev] show ?thesis by simp
next
  case (W_last b)
  with step show ?thesis by (auto simp: answer_no_events WatchResult_init_def)
qed (use pc step in \<open>auto simp del: mvcc_of_sel\<close>)

text \<open>Every step of every thread keeps the invariant.\<close>

lemma Watch_step_hub:
  assumes "Watch_step L P a obs db hub pc = (hub', pc')" "distinct (wh_waiters hub)"
    and "pc = W_register \<Longrightarrow> wa_waiter a \<notin> set (wh_waiters hub)"
  shows "wh_max hub' = wh_max hub" "distinct (wh_waiters hub')"
  using assms Unregister_waiters(3) [of hub "wa_waiter a"]
  by (cases pc; auto split: sum.splits prod.splits bool.splits if_splits option.splits)+

lemma keeps_apply:
  assumes I: "watch_inv C P a s" and idle: "ws_bc s = B_idle"
    and run: "ApplyCmdToStore L P (ws_db s) cmd ApplyResult_init = (db', res)" "cmd_fits utf8 cmd"
      "nn64 (m_rev (mvcc_of P (C (ws_db s))) + cmd_cost cmd)"
  shows "watch_inv C P a (s\<lparr>ws_db := db',
    ws_bc := (if ar_events res = [] then B_idle else B_pending (ar_events res)),
    ws_ev := record_events (ws_ev s) (ar_events res)\<rparr>)"
proof -
  note inv = watch_invD [OF I]
  have db: "store_inv P (C (ws_db s))" using inv(1) by (simp add: sys_inv_def)
  note ap = db run(2,3,1)
  note st = apply_step [OF ap] and lg = apply_log_ok [OF ap inv(2,3)]
  have gr: "grows (mvcc_of P (C (ws_db s))) (mvcc_of P (C db'))" by (rule apply_grows [OF ap])
  have "sys_inv C P (db', ws_pin s)"
    using step_keeps [OF step_apply [where C = C, OF run] inv(1)] by simp
  moreover have "pc_inv C P a db' (record_events (ws_ev s) (ar_events res)) (ws_hub s)
      (if ar_events res = [] then B_idle else B_pending (ar_events res)) (ws_pc s)"
  proof (rule pc_inv_env [OF inv(9,4)])
    show "waiter_ok (record_events (ws_ev s) (ar_events res)) a (ws_hub s)
        (if ar_events res = [] then B_idle else B_pending (ar_events res)) (m_rev (mvcc_of P (C db'))) curo"
      if "waiter_ok (ws_ev s) a (ws_hub s) (ws_bc s) (m_rev (mvcc_of P (C (ws_db s)))) curo" for curo
      using waiter_ok_apply [OF _ st(3,1)] that idle by simp
  qed (use lg(4) gr in \<open>auto simp: grows_def simp del: mvcc_of_sel\<close>)
  ultimately show ?thesis using lg inv(5-8) by (simp add: watch_inv_def)
qed

lemma keeps_compact:
  assumes I: "watch_inv C P a s" and pin: "ws_pin s = Some db_it"
    and run: "CompactionLocked L P db_it (ws_db s) keep = Inr (db', removed)"
  shows "watch_inv C P a (s\<lparr>ws_db := db', ws_pin := None\<rparr>)"
proof -
  note inv = watch_invD [OF I]
  have it: "store_inv P (C db_it)" "store_inv P (C (ws_db s))"
      "main_mono (mvcc_of P (C db_it)) (mvcc_of P (C (ws_db s)))"
    using inv(1) pin by (simp_all add: sys_inv_def)
  note ck = compaction_keeps [OF it run]
  have R: "m_rev (mvcc_of P (C db')) = m_rev (mvcc_of P (C (ws_db s)))" using ck(3) by (simp add: agree_def)
  have "pc_inv C P a db' (ws_ev s) (ws_hub s) (ws_bc s) (ws_pc s)"
    by (rule pc_inv_env [OF inv(9,4)]) (use ck(2) R in \<open>auto simp: grows_def simp del: mvcc_of_sel\<close>)
  moreover have "log_ok (mvcc_of P (C db')) (ws_ev s)"
    using inv(2) ck(4) unfolding log_ok_def by blast
  moreover have "sys_inv C P (db', None)" using ck(1) by (simp add: sys_inv_def)
  ultimately show ?thesis using inv(3-8) R by (simp add: watch_inv_def del: mvcc_of_sel)
qed

lemma keeps_watch:
  assumes I: "watch_inv C P a s"
    and run: "Watch_step L P a obs (ws_db s) (ws_hub s) (ws_pc s) = (hub', pc')"
  shows "watch_inv C P a (s\<lparr>ws_hub := hub', ws_pc := pc'\<rparr>)"
proof -
  note inv = watch_invD [OF I]
  have "store_inv P (C (ws_db s))" using inv(1) by (simp add: sys_inv_def)
  then have "pc_inv C P a (ws_db s) (ws_ev s) hub' (ws_bc s) pc'"
    by (rule watch_step_pc [OF inv(9,4,3) _ inv(2,6,7,8) run])
  moreover have "wa_waiter a \<notin> set (wh_waiters (ws_hub s))" if "ws_pc s = W_register"
    using inv(9) that by simp
  moreover note Watch_step_hub [OF run inv(5) this]
  ultimately show ?thesis using inv(1-8) by (simp add: watch_inv_def)
qed

lemma sys_step_keeps:
  assumes "watch_sys_step L C P utf8 a s s'" "watch_inv C P a s"
  shows "watch_inv C P a s'"
proof -
  note inv = watch_invD [OF assms(2)]
  note env = pc_inv_env [OF inv(9,4)]
  from assms(1) show ?thesis
  proof (cases rule: watch_sys_stepE)
    case (applied cmd db' res)
    with keeps_apply [OF assms(2)] show ?thesis by simp
  next
    case (copied es)
    have "pc_inv C P a (ws_db s) (ws_ev s) (ws_hub s) (B_deliver es (wh_waiters (ws_hub s))) (ws_pc s)"
      by (rule env) (use copied(2) waiter_ok_copy in auto)
    with inv copied show ?thesis by (simp add: watch_inv_def)
  next
    case (served es i ids)
    have b: "bc_events (ws_ev s) (m_rev (mvcc_of P (C (ws_db s)))) es" "distinct (i # ids)"
      using inv(4) served(2) by simp_all
    have "pc_inv C P a (ws_db s) (ws_ev s) (Broadcast_one es i (ws_hub s)) (B_deliver es ids) (ws_pc s)"
      by (rule env) (use served(2) waiter_ok_serve [OF _ inv(3) b] in auto)
    with inv served b show ?thesis by (simp add: watch_inv_def)
  next
    case (finished es)
    have "pc_inv C P a (ws_db s) (ws_ev s) (ws_hub s) B_idle (ws_pc s)"
      by (rule env) (use finished(2) inv(4) waiter_ok_done in auto)
    with inv finished show ?thesis by (simp add: watch_inv_def)
  next
    case scanned
    with inv show ?thesis by (simp add: watch_inv_def sys_inv_def)
  next
    case (compacted db_it keep db' removed)
    with keeps_compact [OF assms(2)] show ?thesis by simp
  next
    case (watched obs hub' pc')
    with keeps_watch [OF assms(2)] show ?thesis by simp
  qed
qed

lemma sys_steps_keep:
  "(watch_sys_step L C P utf8 a)\<^sup>*\<^sup>* s s' \<Longrightarrow> watch_inv C P a s \<Longrightarrow> watch_inv C P a s'"
  by (induction rule: rtranclp_induct) (auto dest: sys_step_keeps)

end

section \<open>Properties\<close>

text \<open>The state in which a poll begins; \<open>ev\<close> has the events of the history.\<close>

definition watch_start :: "('db \<Rightarrow> contents) \<Rightarrow> codec \<Rightarrow> watch_args \<Rightarrow> 'db watch_sys \<Rightarrow> bool" where
  "watch_start C P a s \<longleftrightarrow> store_inv P (C (ws_db s)) \<and> ws_pin s = None \<and> ws_bc s = B_idle \<and>
     ws_pc s = W_quick \<and> log_ok (mvcc_of P (C (ws_db s))) (ws_ev s) \<and> ev_ok (ws_ev s) \<and>
     distinct (wh_waiters (ws_hub s)) \<and> wa_waiter a \<notin> set (wh_waiters (ws_hub s)) \<and>
     0 < wh_max (ws_hub s) \<and> wh_max (ws_hub s) < 2 ^ 31"

lemma watch_start_inv: "watch_start C P a s \<Longrightarrow> 0 < wa_from a \<Longrightarrow> watch_inv C P a s"
  by (simp add: watch_start_def watch_inv_def sys_inv_def)


text \<open>Runs of the poll alone.\<close>

definition poll :: "'db leveldb \<Rightarrow> codec \<Rightarrow> watch_args \<Rightarrow> watch_obs list \<Rightarrow> 'db watch_sys \<Rightarrow> 'db watch_sys" where
  "poll L P a obss s =
    (case foldl (\<lambda>(hub, pc) obs. Watch_step L P a obs (ws_db s) hub pc) (ws_hub s, ws_pc s) obss of
       (hub, pc) \<Rightarrow> s\<lparr>ws_hub := hub, ws_pc := pc\<rparr>)"

lemma poll_steps: "(watch_sys_step L C P utf8 a)\<^sup>*\<^sup>* s (poll L P a obss s)"
proof (induction obss arbitrary: s)
  case Nil
  have "poll L P a [] s = s" by (simp add: poll_def)
  then show ?case by simp
next
  case (Cons obs obss)
  obtain hub pc where st: "Watch_step L P a obs (ws_db s) (ws_hub s) (ws_pc s) = (hub, pc)" by fastforce
  have "poll L P a (obs # obss) s = poll L P a obss (s\<lparr>ws_hub := hub, ws_pc := pc\<rparr>)"
    by (simp add: poll_def st split: prod.split)
  then show ?case
    using sys_watch [OF st, of C utf8] Cons.IH by (metis converse_rtranclp_into_rtranclp)
qed

definition calm :: watch_obs where
  "calm = \<lparr>o_now = 0, o_canceled = False, o_from_now = (\<lambda>us. FromEpochUs us), o_timed_out = False\<rparr>"

definition late :: watch_obs where
  "late = calm\<lparr>o_timed_out := True\<rparr>"

definition poll_args :: watch_args where
  "poll_args = watch_args_init ''a'' 1 1000 0 7"

definition apply_sys :: "RaftCmd \<Rightarrow> mem_db watch_sys \<Rightarrow> mem_db watch_sys" where
  "apply_sys cmd s = (case ApplyCmdToStore mem_leveldb ref_codec (ws_db s) cmd ApplyResult_init of (db', res) \<Rightarrow>
     s\<lparr>ws_db := db', ws_bc := (if ar_events res = [] then B_idle else B_pending (ar_events res)),
       ws_ev := record_events (ws_ev s) (ar_events res)\<rparr>)"

definition broadcast_sys :: "mem_db watch_sys \<Rightarrow> mem_db watch_sys" where
  "broadcast_sys s = (case ws_bc s of B_pending es \<Rightarrow>
     s\<lparr>ws_hub := fold (Broadcast_one es) (wh_waiters (ws_hub s)) (ws_hub s), ws_bc := B_idle\<rparr> | _ \<Rightarrow> s)"

definition fresh_sys :: "mem_db watch_sys" where
  "fresh_sys = \<lparr>ws_db = [], ws_pin = None, ws_hub = WatchHub_init 0, ws_bc = B_idle, ws_pc = W_quick,
     ws_ev = Map.empty\<rparr>"

lemma fresh_start: "watch_start map_of ref_codec a fresh_sys"
  by (simp add: watch_start_def fresh_sys_def store_inv_empty WatchHub_init_def kMaxWatchEvents_def
      log_ok_def ev_ok_def mvcc_empty_def)

lemma apply_sys_step:
  assumes "ws_bc s = B_idle" "cmd_fits (\<lambda>_. True) cmd"
    and "nn64 (m_rev (mvcc_of ref_codec (map_of (ws_db s))) + cmd_cost cmd)"
  shows "watch_sys_step mem_leveldb map_of ref_codec (\<lambda>_. True) a s (apply_sys cmd s)"
  using sys_apply [OF assms(1) _ assms(2), where C = map_of, OF _ assms(3)]
  by (auto simp: apply_sys_def split: prod.split)

lemma broadcast_sys_steps:
  "(watch_sys_step mem_leveldb map_of ref_codec (\<lambda>_. True) a)\<^sup>*\<^sup>* s (broadcast_sys s)"
proof (cases "ws_bc s")
  case (B_pending es)
  let ?step = "watch_sys_step mem_leveldb map_of ref_codec (\<lambda>_. True) a"
  have serve: "?step\<^sup>*\<^sup>* (t\<lparr>ws_bc := B_deliver es ids\<rparr>)
      (t\<lparr>ws_hub := fold (Broadcast_one es) ids (ws_hub t), ws_bc := B_deliver es []\<rparr>)" for t ids
  proof (induction ids arbitrary: t)
    case (Cons i ids)
    have "?step (t\<lparr>ws_bc := B_deliver es (i # ids)\<rparr>)
        (t\<lparr>ws_hub := Broadcast_one es i (ws_hub t), ws_bc := B_deliver es ids\<rparr>)"
      using sys_serve [of "t\<lparr>ws_bc := B_deliver es (i # ids)\<rparr>" es i ids] by simp
    then show ?case
      using Cons.IH [of "t\<lparr>ws_hub := Broadcast_one es i (ws_hub t)\<rparr>"]
      by (simp add: converse_rtranclp_into_rtranclp)
  qed simp
  have "?step s (s\<lparr>ws_bc := B_deliver es (wh_waiters (ws_hub s))\<rparr>)" by (rule sys_copy [OF B_pending])
  then have "?step\<^sup>*\<^sup>* s (s\<lparr>ws_hub := fold (Broadcast_one es) (wh_waiters (ws_hub s)) (ws_hub s), ws_bc := B_deliver es []\<rparr>)"
    using serve [where t = s and ids = "wh_waiters (ws_hub s)"] by (rule converse_rtranclp_into_rtranclp)
  moreover have "?step (s\<lparr>ws_hub := fold (Broadcast_one es) (wh_waiters (ws_hub s)) (ws_hub s), ws_bc := B_deliver es []\<rparr>)
      (broadcast_sys s)"
    using sys_done [of "s\<lparr>ws_hub := fold (Broadcast_one es) (wh_waiters (ws_hub s)) (ws_hub s), ws_bc := B_deliver es []\<rparr>" es]
    by (simp add: broadcast_sys_def B_pending)
  ultimately show ?thesis by (rule rtranclp.rtrancl_into_rtrancl)
qed (simp_all add: broadcast_sys_def)

definition reached :: "mem_db watch_sys \<Rightarrow> bool" where
  "reached s \<longleftrightarrow> (watch_sys_step mem_leveldb map_of ref_codec (\<lambda>_. True) poll_args)\<^sup>*\<^sup>* fresh_sys s"

lemma reached_intros:
  "reached fresh_sys" "reached s \<Longrightarrow> reached (poll mem_leveldb ref_codec poll_args obss s)"
  "reached s \<Longrightarrow> reached (broadcast_sys s)"
  "reached s \<Longrightarrow> ws_bc s = B_idle \<Longrightarrow> cmd_fits (\<lambda>_. True) cmd \<Longrightarrow>
    nn64 (m_rev (mvcc_of ref_codec (map_of (ws_db s))) + cmd_cost cmd) \<Longrightarrow> reached (apply_sys cmd s)"
  unfolding reached_def
  using poll_steps broadcast_sys_steps apply_sys_step
  by (blast intro: rtranclp_trans rtranclp.rtrancl_into_rtrancl)+

text \<open>
  The state machine commits the first put while the poll from revision 1 waits in its catch-up
  loop; the poll then registers and waits; a second put is broadcast to it and it answers.
\<close>

definition served_sys :: "mem_db watch_sys" where
  "served_sys = broadcast_sys (apply_sys (Cmd_put ''a'' ''2'') (poll mem_leveldb ref_codec poll_args
     [calm, calm, calm, calm, calm, calm] (broadcast_sys (apply_sys (Cmd_put ''a'' ''1'')
       (poll mem_leveldb ref_codec poll_args [calm, calm] fresh_sys)))))"

definition answered_sys :: "mem_db watch_sys" where
  "answered_sys = poll mem_leveldb ref_codec poll_args [calm, calm, calm, calm] served_sys"


definition lost_sys :: "mem_db watch_sys" where
  "lost_sys = poll mem_leveldb ref_codec poll_args [late, late] (apply_sys (Cmd_put ''a'' ''2'')
     (poll mem_leveldb ref_codec poll_args [late, late, late, late, late, late, late, late, late]
       (broadcast_sys (apply_sys (Cmd_put ''a'' ''1'') fresh_sys))))"

text \<open>
  (C33) A poll can lose an event.  The wait times out and the waiter is taken off the list; the
  state machine then commits a put of the watched key, whose broadcast no longer reaches the
  waiter; the poll answers without events but with the new revision as the anchor to resume
  from, so the event of that put is never delivered to this client.
\<close>

theorem watch_timeout_loses_event:
  "reached lost_sys \<and> (case ws_pc lost_sys of
     W_return ok out \<Rightarrow> ok \<and> wr_code out = OK \<and> wr_events out = [] \<and> wr_current_revision out = 2 \<and>
       map ev_revision (range_events (ws_ev lost_sys) (wa_key poll_args) (wa_from poll_args) (wr_current_revision out)) = [2]
   | _ \<Rightarrow> False)"
proof
  show "reached lost_sys"
    unfolding lost_sys_def by (intro reached_intros; (code_simp | simp))
qed code_simp

definition repeated_sys :: "mem_db watch_sys" where
  "repeated_sys = poll mem_leveldb ref_codec poll_args [calm, calm, calm]
     (broadcast_sys (poll mem_leveldb ref_codec poll_args [calm, calm, calm, calm, calm, calm, calm]
       (apply_sys (Cmd_put ''a'' ''1'') fresh_sys)))"

text \<open>
  (C37) A poll can repeat an event.  Revision 1 is committed but not yet broadcast when a poll
  from revision 1 registers; there is nothing to replay, and the late broadcast hands it the
  event of revision 1, which the client already has.
\<close>

theorem watch_repeats_event:
  "reached repeated_sys \<and> (case ws_pc repeated_sys of
     W_return ok out \<Rightarrow> ok \<and> map ev_revision (wr_events out) = [1] \<and> wa_from poll_args = 1
   | _ \<Rightarrow> False)"
proof
  show "reached repeated_sys"
    unfolding repeated_sys_def by (intro reached_intros; (code_simp | simp))
qed code_simp

end
