(* ===== verification/WatchLive.thy ===== *)
theory WatchLive
  imports WatchSystem Progress
begin

text \<open>
  Progress of the long poll of src/src/watch/watch_hub.cpp.  A run is an infinite sequence of states
  of the system of \<open>WatchSystem\<close>; at each instant either the poll takes a step, with the observation
  it makes then, or the other threads do.  The run is fair when the poll is scheduled again and
  again, at clock times beyond every bound, and its timed wait does end with ETIMEDOUT.
\<close>

section \<open>Runs\<close>

definition poll_step :: "'db leveldb \<Rightarrow> codec \<Rightarrow> watch_args \<Rightarrow> watch_obs \<Rightarrow> 'db watch_sys \<Rightarrow> 'db watch_sys" where
  "poll_step L P a obs s =
    (case Watch_step L P a obs (ws_db s) (ws_hub s) (ws_pc s) of
       (hub, pc) \<Rightarrow> s\<lparr>ws_hub := hub, ws_pc := pc\<rparr>)"

text \<open>A step of the other threads, or none.\<close>

definition others_step ::
  "'db leveldb \<Rightarrow> ('db \<Rightarrow> contents) \<Rightarrow> codec \<Rightarrow> (string \<Rightarrow> bool) \<Rightarrow> watch_args \<Rightarrow>
    'db watch_sys \<Rightarrow> 'db watch_sys \<Rightarrow> bool" where
  "others_step L C P utf8 a s s' \<longleftrightarrow>
     s' = s \<or> watch_sys_step L C P utf8 a s s' \<and> (\<forall>obs. s' \<noteq> poll_step L P a obs s)"

definition poll_run ::
  "'db leveldb \<Rightarrow> ('db \<Rightarrow> contents) \<Rightarrow> codec \<Rightarrow> (string \<Rightarrow> bool) \<Rightarrow> watch_args \<Rightarrow>
    (nat \<Rightarrow> watch_obs option) \<Rightarrow> (nat \<Rightarrow> 'db watch_sys) \<Rightarrow> bool" where
  "poll_run L C P utf8 a ob s \<longleftrightarrow> (\<forall>i. case ob i of
     Some obs \<Rightarrow> s (Suc i) = poll_step L P a obs (s i)
   | None \<Rightarrow> others_step L C P utf8 a (s i) (s (Suc i)))"

definition fair_poll :: "(nat \<Rightarrow> watch_obs option) \<Rightarrow> bool" where
  "fair_poll ob \<longleftrightarrow> (\<forall>i now. \<exists>j\<ge>i. \<exists>obs. ob j = Some obs \<and> now \<le> o_now obs \<and> o_timed_out obs)"

lemma poll_step_sel [simp]:
  "ws_db (poll_step L P a obs s) = ws_db s" "ws_pin (poll_step L P a obs s) = ws_pin s"
  "ws_bc (poll_step L P a obs s) = ws_bc s" "ws_ev (poll_step L P a obs s) = ws_ev s"
  "ws_hub (poll_step L P a obs s) = fst (Watch_step L P a obs (ws_db s) (ws_hub s) (ws_pc s))"
  "ws_pc (poll_step L P a obs s) = snd (Watch_step L P a obs (ws_db s) (ws_hub s) (ws_pc s))"
  by (simp_all add: poll_step_def split: prod.split)

lemma poll_step_is_step: "watch_sys_step L C P utf8 a s (poll_step L P a obs s)"
  unfolding poll_step_def by (auto intro: sys_watch split: prod.split)

text \<open>The steps of the others leave the poll's place alone, and its waiter alive.\<close>

lemma others_step_cases:
  assumes "others_step L C P utf8 a s s'"
  shows "ws_pc s' = ws_pc s"
    and "ws_hub s' = ws_hub s \<or> (\<exists>es i. ws_hub s' = Broadcast_one es i (ws_hub s))"
proof -
  have "ws_pc s' = ws_pc s \<and> (ws_hub s' = ws_hub s \<or> (\<exists>es i. ws_hub s' = Broadcast_one es i (ws_hub s)))"
  proof (cases "s' = s")
    case False
    then have step: "watch_sys_step L C P utf8 a s s'" and other: "\<And>obs. s' \<noteq> poll_step L P a obs s"
      using assms by (auto simp: others_step_def)
    from step show ?thesis
    proof (cases rule: watch_sys_stepE)
      case (watched obs hub' pc')
      then have "s' = poll_step L P a obs s" by (simp add: poll_step_def)
      with other show ?thesis by blast
    qed auto
  qed simp
  then show "ws_pc s' = ws_pc s" "ws_hub s' = ws_hub s \<or> (\<exists>es i. ws_hub s' = Broadcast_one es i (ws_hub s))"
    by blast+
qed

lemma poll_run_cases [consumes 1, case_names others poll]:
  assumes "poll_run L C P utf8 a ob s"
  obtains (others) "ob i = None" "others_step L C P utf8 a (s i) (s (Suc i))"
  | (poll) obs where "ob i = Some obs" "s (Suc i) = poll_step L P a obs (s i)"
  using assms [unfolded poll_run_def, rule_format, of i] by (cases "ob i") simp_all

lemma poll_run_steps:
  assumes "poll_run L C P utf8 a ob s"
  shows "(watch_sys_step L C P utf8 a)\<^sup>*\<^sup>* (s 0) (s i)"
proof (induction i)
  case (Suc i)
  have "s (Suc i) = s i \<or> watch_sys_step L C P utf8 a (s i) (s (Suc i))"
    by (cases rule: poll_run_cases [OF assms, of i]) (auto simp: others_step_def poll_step_is_step)
  with Suc show ?case by (auto intro: rtranclp.rtrancl_into_rtrancl)
qed simp

section \<open>The rank of the poll\<close>

fun poll_rank :: "'db watch_pc \<Rightarrow> nat" where
  "poll_rank W_quick = 11"
| "poll_rank (W_catchup _) = 10"
| "poll_rank W_register = 9"
| "poll_rank W_current = 8"
| "poll_rank (W_iter _) = 7"
| "poll_rank (W_replay _ _) = 6"
| "poll_rank W_deadline = 5"
| "poll_rank (W_wait _) = 4"
| "poll_rank W_unregister = 3"
| "poll_rank W_collect = 2"
| "poll_rank (W_last _) = 1"
| "poll_rank (W_return _ _) = 0"
| "poll_rank (W_throw _) = 0"

text \<open>A step of the poll lowers the rank, but for the two loops, which leave the place as it is.\<close>

lemma Watch_step_rank:
  assumes "Watch_step L P a obs db hub pc = (hub', pc')"
  shows "poll_rank pc' < poll_rank pc \<or> pc' = pc"
  using assms by (cases pc) (auto split: sum.splits prod.splits bool.splits if_splits option.splits)

text \<open>Late enough, and with the wait timed out, the loops end too.\<close>

lemma Watch_step_falls:
  assumes "Watch_step L P a obs db hub pc = (hub', pc')" "0 < poll_rank pc" "o_timed_out obs"
    and "\<And>deadline. pc = W_catchup deadline \<Longrightarrow> deadline \<le> o_now obs"
  shows "poll_rank pc' < poll_rank pc"
  using assms by (cases pc) (auto split: sum.splits prod.splits bool.splits if_splits option.splits)

lemma poll_progress:
  assumes run: "poll_run L C P utf8 a ob s" and fair: "fair_poll ob" and pos: "0 < poll_rank (ws_pc (s i))"
  shows "\<exists>j>i. poll_rank (ws_pc (s j)) < poll_rank (ws_pc (s i))"
proof -
  let ?rank = "\<lambda>s. poll_rank (ws_pc s)" and ?pc = "ws_pc (s i)"
  have step: "?rank (s (Suc k)) < ?rank (s k) \<or> ws_pc (s (Suc k)) = ws_pc (s k)" for k
    using run
  proof (cases rule: poll_run_cases [where i = k])
    case others
    then show ?thesis by (simp add: others_step_cases)
  next
    case (poll obs)
    then show ?thesis using Watch_step_rank [OF surjective_pairing] by simp
  qed
  define now where "now = (case ?pc of W_catchup deadline \<Rightarrow> deadline | _ \<Rightarrow> 0)"
  obtain j obs where j: "i \<le> j" "ob j = Some obs" "now \<le> o_now obs" "o_timed_out obs"
    using fair unfolding fair_poll_def by blast
  show ?thesis
  proof (rule rank_falls [where Q = "\<lambda>s. ws_pc s = ?pc" and rank = ?rank and s = s and j = j])
    show "?rank (s (Suc j)) < ?rank (s j)" if "ws_pc (s j) = ?pc"
    proof -
      have "s (Suc j) = poll_step L P a obs (s j)"
        using j(2) by (cases rule: poll_run_cases [OF run, of j]) simp_all
      moreover have "poll_rank (snd (Watch_step L P a obs (ws_db (s j)) (ws_hub (s j)) ?pc)) < poll_rank ?pc"
        by (rule Watch_step_falls [OF surjective_pairing pos j(4)]) (use j(3) in \<open>simp add: now_def\<close>)
      ultimately show ?thesis by (simp add: that)
    qed
    show "?rank (s (Suc k)) \<le> ?rank (s k)" for k using step [of k] by auto
    show "ws_pc (s (Suc k)) = ?pc" if "?rank (s (Suc k)) = ?rank (s k)" "ws_pc (s k) = ?pc" for k
      using step [of k] that by auto
  qed (use j(1) in simp_all)
qed

lemma poll_ends:
  assumes "poll_run L C P utf8 a ob s" "fair_poll ob"
  shows "\<exists>j\<ge>i. poll_rank (ws_pc (s j)) = 0"
  using rank_reaches_zero [of "\<lambda>s. poll_rank (ws_pc s)" s i] poll_progress [OF assms] by blast

section \<open>The poll does not throw\<close>

text \<open>A poll from now on neither catches up nor replays.\<close>

fun plain_place :: "'db watch_pc \<Rightarrow> bool" where
  "plain_place (W_catchup _) = False"
| "plain_place W_current = False"
| "plain_place (W_iter _) = False"
| "plain_place (W_replay _ _) = False"
| "plain_place (W_throw _) = False"
| "plain_place _ = True"

lemma plain_place_step:
  assumes "plain_place pc" "\<not> 0 < wa_from a"
  shows "plain_place (snd (Watch_step L P a obs db hub pc))"
  using assms by (cases pc) (auto split: option.split)

lemma plain_place_run:
  assumes "poll_run L C P utf8 a ob s" "\<not> 0 < wa_from a" "plain_place (ws_pc (s 0))"
  shows "plain_place (ws_pc (s i))"
proof (rule kept_along_run [where Q = "\<lambda>s. plain_place (ws_pc s)" and i = 0])
  show "plain_place (ws_pc (s (Suc i)))" if "plain_place (ws_pc (s i))" for i
    using assms(1) by (cases rule: poll_run_cases [where i = i])
      (use that in \<open>simp_all add: others_step_cases plain_place_step assms(2)\<close>)
qed (simp_all add: assms(3))

lemma poll_no_throw:
  assumes "store_env L C P utf8" "watch_start C P a (s 0)" "poll_run L C P utf8 a ob s"
  shows "ws_pc (s i) \<noteq> W_throw e"
proof (cases "0 < wa_from a")
  case True
  then have "watch_inv C P a (s i)"
    using store_env.sys_steps_keep [OF assms(1) poll_run_steps [OF assms(3)] watch_start_inv [OF assms(2)]] by blast
  from watch_invD(9) [OF this] show ?thesis by auto
next
  case False
  have "ws_pc (s 0) = W_quick" using assms(2) by (simp add: watch_start_def)
  with plain_place_run [OF assms(3) False] show ?thesis by (metis plain_place.simps(5,6))
qed

lemma rank_zero:
  assumes "poll_rank pc = 0" "\<And>e. pc \<noteq> W_throw e"
  obtains ok out where "pc = W_return ok out"
  using assms by (cases pc) auto

section \<open>Delivery\<close>

text \<open>The poll has looked at the history and will look at its waiter.\<close>

fun listening :: "'db watch_pc \<Rightarrow> bool" where
  "listening W_deadline = True"
| "listening (W_wait _) = True"
| "listening W_unregister = True"
| "listening W_collect = True"
| "listening _ = False"

text \<open>The poll has the event, or has overflowed; it will answer so.\<close>

definition holds_event :: "WatchEvent \<Rightarrow> Waiter \<Rightarrow> bool" where
  "holds_event e w \<longleftrightarrow> e \<in> set (w_events w) \<or> w_overflow w"

definition will_answer :: "watch_args \<Rightarrow> WatchEvent \<Rightarrow> 'db watch_sys \<Rightarrow> bool" where
  "will_answer a e s \<longleftrightarrow>
     listening (ws_pc s) \<and> (\<exists>w. wh_objs (ws_hub s) (wa_waiter a) = Some w \<and> holds_event e w) \<or>
     ws_pc s = W_last True \<or>
     (\<exists>ok out. ws_pc s = W_return ok out \<and> (e \<in> set (wr_events out) \<or> wr_code out = INTERNAL))"

lemma deliver_holds:
  "holds_event e w \<or> e \<in> set es \<and> key_match (w_key_filter w) e \<Longrightarrow> holds_event e (deliver n w es)"
  by (induction n w es rule: deliver.induct) (auto simp: holds_event_def Matches_eq)

lemma deliver_keeps: "holds_event e w \<Longrightarrow> holds_event e (deliver n w es)"
  using deliver_holds by blast

lemma will_answer_poll:
  assumes "will_answer a e s"
  shows "will_answer a e (poll_step L P a obs s)"
proof -
  have "e \<notin> set []" by simp
  with assms show ?thesis
    by (cases "ws_pc s")
      (auto simp: will_answer_def holds_event_def split: option.splits if_splits)
qed

lemma will_answer_run:
  assumes "poll_run L C P utf8 a ob s" "will_answer a e (s i)" "i \<le> j"
  shows "will_answer a e (s j)"
proof (rule kept_along_run [where Q = "will_answer a e" and s = s, OF _ assms(2,3)])
  fix i assume w: "will_answer a e (s i)"
  from assms(1) show "will_answer a e (s (Suc i))"
  proof (cases rule: poll_run_cases [where i = i])
    case others
    with w others_step_cases [OF others(2)] show ?thesis
      by (auto simp: will_answer_def Broadcast_one_objs deliver_keeps)
  next
    case (poll obs)
    with w will_answer_poll show ?thesis by simp
  qed
qed

text \<open>While it listens, its waiter is alive and filters by its key.\<close>

definition waiter_alive :: "watch_args \<Rightarrow> 'db watch_sys \<Rightarrow> bool" where
  "waiter_alive a s \<longleftrightarrow> (2 \<le> poll_rank (ws_pc s) \<and> poll_rank (ws_pc s) \<le> 8 \<longrightarrow>
     (\<exists>w. wh_objs (ws_hub s) (wa_waiter a) = Some w \<and> w_key_filter w = wa_key a))"

lemma waiter_alive_run:
  assumes "poll_run L C P utf8 a ob s" "ws_pc (s 0) = W_quick"
  shows "waiter_alive a (s i)"
proof (rule kept_along_run [where Q = "waiter_alive a" and i = 0])
  show "waiter_alive a (s 0)" using assms(2) by (simp add: waiter_alive_def)
  show "waiter_alive a (s (Suc i))" if w: "waiter_alive a (s i)" for i
    using assms(1)
  proof (cases rule: poll_run_cases [where i = i])
    case others
    with w others_step_cases [OF others(2)] show ?thesis
      by (auto simp: waiter_alive_def Broadcast_one_objs)
  next
    case (poll obs)
    with w show ?thesis
      by (cases "ws_pc (s i)")
        (auto simp: waiter_alive_def split: sum.splits prod.splits bool.splits option.splits if_splits)
  qed
qed simp

section \<open>Properties\<close>

text \<open>
  (C8) Every long poll returns.  Whatever the state machine, the broadcasts and the compaction do,
  a poll that is scheduled again and again while the clock goes on and its timed wait ends
  returns an answer, from any revision, and never leaves by an exception.
\<close>

theorem watch_returns:
  assumes "store_env L C P utf8" "watch_start C P a (s 0)" "poll_run L C P utf8 a ob s" "fair_poll ob"
  shows "\<exists>j ok out. ws_pc (s j) = W_return ok out"
proof -
  obtain j where "poll_rank (ws_pc (s j)) = 0" using poll_ends [OF assms(3,4), of 0] by blast
  then show ?thesis using rank_zero [OF _ poll_no_throw [OF assms(1-3)]] by metis
qed

text \<open>A clock that ticks and waits that time out; a poll that is alone, from revision 1.\<close>

definition tick :: "nat \<Rightarrow> watch_obs" where
  "tick i = late\<lparr>o_now := int i\<rparr>"

primrec lone_run :: "nat \<Rightarrow> mem_db watch_sys" where
  "lone_run 0 = fresh_sys"
| "lone_run (Suc i) = poll_step mem_leveldb ref_codec poll_args (tick i) (lone_run i)"

lemma fair_from:
  assumes "\<And>i. n \<le> i \<Longrightarrow> ob i = Some (tick i)"
  shows "fair_poll ob"
  unfolding fair_poll_def
proof (intro allI)
  fix i :: nat and now :: int
  let ?j = "max (max n i) (nat now)"
  have "i \<le> ?j" "ob ?j = Some (tick ?j)" "now \<le> o_now (tick ?j)" "o_timed_out (tick ?j)"
    using assms [of ?j] by (auto simp: tick_def late_def)
  then show "\<exists>j\<ge>i. \<exists>obs. ob j = Some obs \<and> now \<le> o_now obs \<and> o_timed_out obs" by blast
qed

theorem watch_returns_witness: "\<exists>j ok out. ws_pc (lone_run j) = W_return ok out"
proof -
  have "poll_run mem_leveldb map_of ref_codec (\<lambda>_. True) poll_args (\<lambda>i. Some (tick i)) lone_run"
    by (simp add: poll_run_def)
  moreover have "watch_start map_of ref_codec poll_args (lone_run 0)" by (simp add: fresh_start)
  moreover have "fair_poll (\<lambda>i. Some (tick i))" by (rule fair_from [of 0]) simp
  ultimately show ?thesis using watch_returns [OF mem_env.store_env_axioms] by blast
qed

text \<open>
  (C9) An event that is broadcast to a listening poll is answered.  When a broadcast reaches the
  waiter with an event of its key while the poll is past its replay and has not yet looked at its
  buffer, the poll returns an answer that contains the event, or INTERNAL because its buffer
  overflowed, in which case the client has to resume.
\<close>

theorem watch_delivers:
  assumes "store_env L C P utf8" "watch_start C P a (s 0)" "poll_run L C P utf8 a ob s" "fair_poll ob"
    and "ws_bc (s i) = B_deliver es (wa_waiter a # ids)"
    and "s (Suc i) = (s i)\<lparr>ws_hub := Broadcast_one es (wa_waiter a) (ws_hub (s i)), ws_bc := B_deliver es ids\<rparr>"
    and "listening (ws_pc (s i))" "e \<in> set es" "key_match (wa_key a) e"
  shows "\<exists>j>i. \<exists>ok out. ws_pc (s j) = W_return ok out \<and> (e \<in> set (wr_events out) \<or> wr_code out = INTERNAL)"
proof -
  have "2 \<le> poll_rank (ws_pc (s i)) \<and> poll_rank (ws_pc (s i)) \<le> 8" using assms(7) by (cases "ws_pc (s i)") auto
  then obtain w where w: "wh_objs (ws_hub (s i)) (wa_waiter a) = Some w" "w_key_filter w = wa_key a"
    using waiter_alive_run [OF assms(3), of i] assms(2) unfolding waiter_alive_def watch_start_def by blast
  have "will_answer a e (s (Suc i))"
    using assms(6-9) w by (simp add: will_answer_def Broadcast_one_objs deliver_holds)
  note answer = will_answer_run [OF assms(3) this]
  obtain j where j: "Suc i \<le> j" "poll_rank (ws_pc (s j)) = 0" using poll_ends [OF assms(3,4)] by blast
  obtain ok out where "ws_pc (s j) = W_return ok out"
    by (rule rank_zero [OF j(2) poll_no_throw [OF assms(1-3)]])
  moreover have "i < j" using j(1) by simp
  ultimately show ?thesis using answer [OF j(1)] unfolding will_answer_def by auto
qed

text \<open>A poll from now on waits; a put is committed, copied out and served to it.\<close>

definition now_args :: watch_args where
  "now_args = watch_args_init ''a'' 0 1000 0 7"

definition copy_sys :: "mem_db watch_sys \<Rightarrow> mem_db watch_sys" where
  "copy_sys s = (case ws_bc s of B_pending es \<Rightarrow> s\<lparr>ws_bc := B_deliver es (wh_waiters (ws_hub s))\<rparr> | _ \<Rightarrow> s)"

definition serve_sys :: "mem_db watch_sys \<Rightarrow> mem_db watch_sys" where
  "serve_sys s = (case ws_bc s of
     B_deliver es (i # ids) \<Rightarrow> s\<lparr>ws_hub := Broadcast_one es i (ws_hub s), ws_bc := B_deliver es ids\<rparr> | _ \<Rightarrow> s)"

primrec told_run :: "nat \<Rightarrow> mem_db watch_sys" where
  "told_run 0 = fresh_sys"
| "told_run (Suc i) =
    (if i = 3 then apply_sys (Cmd_put ''a'' ''1'') (told_run i)
     else if i = 4 then copy_sys (told_run i)
     else if i = 5 then serve_sys (told_run i)
     else poll_step mem_leveldb ref_codec now_args (tick i) (told_run i))"

definition told_obs :: "nat \<Rightarrow> watch_obs option" where
  "told_obs i = (if i = 3 \<or> i = 4 \<or> i = 5 then None else Some (tick i))"

lemma others_stepI:
  "watch_sys_step L C P utf8 a s s' \<Longrightarrow> ws_ev s' \<noteq> ws_ev s \<or> ws_bc s' \<noteq> ws_bc s \<Longrightarrow> others_step L C P utf8 a s s'"
  by (auto simp: others_step_def)

lemma told_next:
  "told_run 4 = apply_sys (Cmd_put ''a'' ''1'') (told_run 3)" "told_run 5 = copy_sys (told_run 4)"
  "told_run 6 = serve_sys (told_run 5)"
  using told_run.simps(2) [of 3] told_run.simps(2) [of 4] told_run.simps(2) [of 5] by (simp_all del: told_run.simps)

lemma told_steps:
  "others_step mem_leveldb map_of ref_codec (\<lambda>_. True) now_args (told_run 3) (told_run 4)"
  "others_step mem_leveldb map_of ref_codec (\<lambda>_. True) now_args (told_run 4) (told_run 5)"
  "others_step mem_leveldb map_of ref_codec (\<lambda>_. True) now_args (told_run 5) (told_run 6)"
proof -
  have bc: "ws_bc (told_run 3) = B_idle" "(case ws_bc (told_run 4) of B_pending es \<Rightarrow> True | _ \<Rightarrow> False)"
    "(case ws_bc (told_run 5) of B_deliver es (i # ids) \<Rightarrow> True | _ \<Rightarrow> False)"
    "ws_bc (apply_sys (Cmd_put ''a'' ''1'') (told_run 3)) \<noteq> B_idle"
    by code_simp+
  have "watch_sys_step mem_leveldb map_of ref_codec (\<lambda>_. True) now_args (told_run 3)
      (apply_sys (Cmd_put ''a'' ''1'') (told_run 3))"
    by (rule apply_sys_step [OF bc(1)]) (simp, code_simp)
  then show "others_step mem_leveldb map_of ref_codec (\<lambda>_. True) now_args (told_run 3) (told_run 4)"
    using bc(1,4) by (simp add: others_stepI told_next)
  show "others_step mem_leveldb map_of ref_codec (\<lambda>_. True) now_args (told_run 4) (told_run 5)"
    using bc(2) sys_copy [of "told_run 4"]
    by (auto simp: told_next(2) copy_sys_def intro!: others_stepI split: bcast.splits)
  show "others_step mem_leveldb map_of ref_codec (\<lambda>_. True) now_args (told_run 5) (told_run 6)"
    using bc(3) sys_serve [of "told_run 5"]
    by (auto simp: told_next(3) serve_sys_def intro!: others_stepI split: bcast.splits list.splits)
qed

lemma told_poll_run: "poll_run mem_leveldb map_of ref_codec (\<lambda>_. True) now_args told_obs told_run"
  unfolding poll_run_def
proof
  fix i :: nat
  consider "i = 3" | "i = 4" | "i = 5" | "i \<noteq> 3" "i \<noteq> 4" "i \<noteq> 5" by blast
  then show "case told_obs i of Some obs \<Rightarrow> told_run (Suc i) = poll_step mem_leveldb ref_codec now_args obs (told_run i)
      | None \<Rightarrow> others_step mem_leveldb map_of ref_codec (\<lambda>_. True) now_args (told_run i) (told_run (Suc i))"
    by cases (simp_all add: told_obs_def told_steps del: told_run.simps, simp)
qed

theorem watch_delivers_witness:
  "\<exists>j>5. \<exists>ok out e. ws_pc (told_run j) = W_return ok out \<and> ev_revision e = 1 \<and>
     (e \<in> set (wr_events out) \<or> wr_code out = INTERNAL)"
proof -
  have "(case ws_bc (told_run 5) of B_deliver [e] [w] \<Rightarrow>
      w = wa_waiter now_args \<and> key_match (wa_key now_args) e \<and> ev_revision e = 1 | _ \<Rightarrow> False)"
    by code_simp
  then obtain e where bc: "ws_bc (told_run 5) = B_deliver [e] [wa_waiter now_args]"
      "key_match (wa_key now_args) e" "ev_revision e = 1"
    by (auto split: bcast.splits list.splits)
  have "told_run (Suc 5) = (told_run 5)\<lparr>ws_hub := Broadcast_one [e] (wa_waiter now_args) (ws_hub (told_run 5)),
      ws_bc := B_deliver [e] []\<rparr>"
    using bc(1) told_next(3) by (simp add: serve_sys_def)
  moreover have "watch_start map_of ref_codec now_args (told_run 0)" by (simp add: fresh_start)
  moreover have "fair_poll told_obs" by (rule fair_from [of 6]) (simp add: told_obs_def)
  moreover have "listening (ws_pc (told_run 5))" by code_simp
  ultimately obtain j ok out where "5 < j" "ws_pc (told_run j) = W_return ok out"
      "e \<in> set (wr_events out) \<or> wr_code out = INTERNAL"
    using watch_delivers [OF mem_env.store_env_axioms _ told_poll_run _ bc(1), of e] bc(2) by auto
  with bc(3) show ?thesis by blast
qed

text \<open>
  Between Unregister and the look at the buffer a broadcast that copied the list earlier still
  finds the waiter alive: the poll reads the buffer without the waiter's mutex while the
  broadcast may append to it.
\<close>

definition race_sys :: "mem_db watch_sys" where
  "race_sys = poll mem_leveldb ref_codec now_args [late, late] (copy_sys (apply_sys (Cmd_put ''a'' ''1'')
     (poll mem_leveldb ref_codec now_args [calm, calm, calm] fresh_sys)))"

lemma race_reachable: "(watch_sys_step mem_leveldb map_of ref_codec (\<lambda>_. True) now_args)\<^sup>*\<^sup>* fresh_sys race_sys"
proof -
  let ?step = "watch_sys_step mem_leveldb map_of ref_codec (\<lambda>_. True) now_args"
  let ?waits = "poll mem_leveldb ref_codec now_args [calm, calm, calm] fresh_sys"
  have bc: "ws_bc ?waits = B_idle" "case ws_bc (apply_sys (Cmd_put ''a'' ''1'') ?waits) of B_pending es \<Rightarrow> True | _ \<Rightarrow> False"
    by code_simp+
  have "?step\<^sup>*\<^sup>* fresh_sys ?waits" by (rule poll_steps)
  also have "?step ?waits (apply_sys (Cmd_put ''a'' ''1'') ?waits)"
    by (rule apply_sys_step [OF bc(1)]) (simp, code_simp)
  also have "?step (apply_sys (Cmd_put ''a'' ''1'') ?waits) (copy_sys (apply_sys (Cmd_put ''a'' ''1'') ?waits))"
    using bc(2) sys_copy by (auto simp: copy_sys_def split: bcast.splits)
  also have "?step\<^sup>*\<^sup>* (copy_sys (apply_sys (Cmd_put ''a'' ''1'') ?waits)) race_sys"
    unfolding race_sys_def by (rule poll_steps)
  finally show ?thesis .
qed

lemma collect_races_with_broadcast:
  "ws_pc race_sys = W_collect \<and> wa_waiter now_args \<notin> set (wh_waiters (ws_hub race_sys)) \<and>
   wh_objs (ws_hub race_sys) (wa_waiter now_args) \<noteq> None \<and>
   (case ws_bc race_sys of B_deliver es (i # ids) \<Rightarrow> i = wa_waiter now_args \<and>
      wh_objs (Broadcast_one es i (ws_hub race_sys)) i \<noteq> wh_objs (ws_hub race_sys) i | _ \<Rightarrow> False)"
  by code_simp

end
