(* ===== verification/Cluster.thy ===== *)
theory Cluster
  imports RaftSnapshot LinearRead
begin

text \<open>
  The cluster: replicas, each with its state machine (src/src/raft/state_machine.cpp), its store
  and its compaction thread, over one committed log.  braft commits entries, gives every replica the
  next ones in batches, has snapshots saved and installed; each replica compacts on its own clock
  and may restart, which loads its last snapshot and goes on from there; leadership comes and goes.
  The step relation interleaves all of this.

  Two of braft's guarantees are in the guards: entries reach a replica in the order of the log, and
  a snapshot stands for the index at which it was asked for.  Three limits of the code are there too:
  no command of the log is a rollback to a named version, which the replicas do not execute alike
  once they compact differently, the thread of a snapshot exports the store before the next
  entry is applied, and a node that restarts has a snapshot; the counterexamples are in \<open>Replicas\<close>,
  in \<open>RaftSnapshot\<close> and at the end of this theory.
\<close>

section \<open>States and steps\<close>

record 'db replica =
  rp_sm :: "'db ConfigraftStateMachine"
  rp_pin :: "'db option"
  rp_applied :: nat
  rp_saving :: "(nat \<times> SnapshotArg) option"

record ('db, 'sn) cluster =
  ct_log :: "bytes option list"
  ct_node :: "nat \<Rightarrow> 'db replica"
  ct_snaps :: "(nat \<times> 'sn \<times> string) list"

text \<open>The commands of a log: None for an entry of braft's own, and for bytes that do not parse.\<close>

definition log_cmds :: "cmd_codec \<Rightarrow> bytes option list \<Rightarrow> RaftCmd option list" where
  "log_cmds Q log = map (\<lambda>e. Option.bind e (parse_cmd Q)) log"

definition log_fits :: "cmd_codec \<Rightarrow> (string \<Rightarrow> bool) \<Rightarrow> bytes option list \<Rightarrow> bool" where
  "log_fits Q utf8 log \<longleftrightarrow> (\<forall>cmd. Some cmd \<in> set (log_cmds Q log) \<longrightarrow> cmd_fits utf8 cmd \<and> index_free cmd) \<and>
     nn64 (log_cost (List.map_filter id (log_cmds Q log)))"

definition set_node :: "nat \<Rightarrow> 'db replica \<Rightarrow> ('db, 'sn) cluster \<Rightarrow> ('db, 'sn) cluster" where
  "set_node i r c = c\<lparr>ct_node := (ct_node c)(i := r)\<rparr>"

inductive cluster_step ::
  "'db leveldb \<Rightarrow> codec \<Rightarrow> cmd_codec \<Rightarrow> (string \<Rightarrow> bool) \<Rightarrow> ('fs, 'db) disk \<Rightarrow> 'sn snapshot_files \<Rightarrow>
    ('db, 'sn) cluster \<Rightarrow> ('db, 'sn) cluster \<Rightarrow> bool"
  for L :: "'db leveldb" and P :: codec and Q :: cmd_codec and utf8 :: "string \<Rightarrow> bool"
    and D :: "('fs, 'db) disk" and F :: "'sn snapshot_files" where
  ct_commit: "log_fits Q utf8 (ct_log c @ [e]) \<Longrightarrow> cluster_step L P Q utf8 D F c (c\<lparr>ct_log := ct_log c @ [e]\<rparr>)"
| ct_apply: "rp_applied (ct_node c i) + m \<le> length (ct_log c) \<Longrightarrow>
    map le_data es = List.map_filter id (take m (drop (rp_applied (ct_node c i)) (ct_log c))) \<Longrightarrow>
    on_apply L P Q es (rp_sm (ct_node c i)) cls = (sm', cls', runs) \<Longrightarrow>
    rp_saving (ct_node c i) = None \<Longrightarrow>
    cluster_step L P Q utf8 D F c (set_node i ((ct_node c i)\<lparr>rp_sm := sm',
      rp_applied := rp_applied (ct_node c i) + m\<rparr>) c)"
| ct_scan: "rp_pin (ct_node c i) = None \<Longrightarrow>
    cluster_step L P Q utf8 D F c (set_node i ((ct_node c i)\<lparr>rp_pin := Some (sm_store (rp_sm (ct_node c i)))\<rparr>) c)"
| ct_compact: "rp_pin (ct_node c i) = Some db_it \<Longrightarrow>
    RaftNode_Compaction L P n db_it (sm_store (rp_sm (ct_node c i))) keep = Returned (Inr (db', removed)) \<Longrightarrow>
    cluster_step L P Q utf8 D F c (set_node i ((ct_node c i)\<lparr>
      rp_sm := (rp_sm (ct_node c i))\<lparr>sm_store := db'\<rparr>, rp_pin := None\<rparr>) c)"
| ct_save: "rp_saving (ct_node c i) = None \<Longrightarrow> on_snapshot_save path d [] = [arg] \<Longrightarrow>
    cluster_step L P Q utf8 D F c (set_node i ((ct_node c i)\<lparr>rp_saving := Some (rp_applied (ct_node c i), arg)\<rparr>) c)"
| ct_export: "rp_saving (ct_node c i) = Some (k, arg) \<Longrightarrow>
    save_snapshot L P F sn (sa_writer arg) (sm_store (rp_sm (ct_node c i))) = (sn', status) \<Longrightarrow>
    cluster_step L P Q utf8 D F c (set_node i ((ct_node c i)\<lparr>rp_saving := None\<rparr>)
      (c\<lparr>ct_snaps := (if status = Status_ok then (k, sn', sa_writer arg) # ct_snaps c else ct_snaps c)\<rparr>))"
| ct_install: "(k, sn, path) \<in> set (ct_snaps c) \<Longrightarrow> rp_pin (ct_node c i) = None \<Longrightarrow> rp_saving (ct_node c i) = None \<Longrightarrow>
    snd (fs_remove_all D fs (st_data_dir st)) \<Longrightarrow>
    on_snapshot_load L P D F fs sn path st = Opened (st', 0) \<Longrightarrow> st_db st' = Some db' \<Longrightarrow>
    cluster_step L P Q utf8 D F c (set_node i ((ct_node c i)\<lparr>
      rp_sm := (rp_sm (ct_node c i))\<lparr>sm_store := db'\<rparr>, rp_applied := k\<rparr>) c)"
| ct_restart: "(k, sn, path) \<in> set (ct_snaps c) \<Longrightarrow> snd (fs_remove_all D fs (st_data_dir st)) \<Longrightarrow>
    on_snapshot_load L P D F fs sn path st = Opened (st', 0) \<Longrightarrow> st_db st' = Some db' \<Longrightarrow>
    cluster_step L P Q utf8 D F c (set_node i \<lparr>rp_sm = StateMachine_init db' hub, rp_pin = None, rp_applied = k,
      rp_saving = None\<rparr> c)"

| ct_lead: "cluster_step L P Q utf8 D F c
    (set_node i ((ct_node c i)\<lparr>rp_sm := on_leader_start term (rp_sm (ct_node c i))\<rparr>) c)"
| ct_step_down: "cluster_step L P Q utf8 D F c
    (set_node i ((ct_node c i)\<lparr>rp_sm := on_leader_stop (rp_sm (ct_node c i))\<rparr>) c)"

inductive_cases cluster_stepE [consumes 1, case_names commit applied scan compact save export install restart lead
    step_down]:
  "cluster_step L P Q utf8 D F c c'"

text \<open>Fresh replicas with empty stores.\<close>

definition cluster_start :: "('db \<Rightarrow> contents) \<Rightarrow> codec \<Rightarrow> ('db, 'sn) cluster \<Rightarrow> bool" where
  "cluster_start C P c \<longleftrightarrow> ct_log c = [] \<and> ct_snaps c = [] \<and> (\<forall>i. rp_applied (ct_node c i) = 0 \<and>
     rp_pin (ct_node c i) = None \<and> rp_saving (ct_node c i) = None \<and>
     store_inv P (C (sm_store (rp_sm (ct_node c i)))) \<and>
     mvcc_of P (C (sm_store (rp_sm (ct_node c i)))) = mvcc_empty)"

section \<open>The log\<close>

lemma log_cmds_simps [simp]:
  "log_cmds Q [] = []" "log_cmds Q (xs @ ys) = log_cmds Q xs @ log_cmds Q ys"
  "length (log_cmds Q xs) = length xs" "log_cmds Q (take n xs) = take n (log_cmds Q xs)"
  "log_cmds Q (drop n xs) = drop n (log_cmds Q xs)"
  by (simp_all add: log_cmds_def take_map drop_map)

lemma log_state_0 [simp]: "log_state start log 0 = start"
  by (simp add: log_state_def map_filter_simps)

lemma log_state_append: "k \<le> length log \<Longrightarrow> log_state start (log @ es) k = log_state start log k"
  by (simp add: log_state_def)

lemma map_filter_id_append: "List.map_filter id (xs @ ys) = List.map_filter id xs @ List.map_filter id ys"
  by (simp add: map_filter_def)

lemma log_state_add:
  "log_state start log (k + n) = fst (s_run (log_state start log k) (List.map_filter id (take n (drop k log))))"
  by (simp add: log_state_def take_add map_filter_id_append s_run_append)

lemma batch_cmds:
  assumes "map le_data es = List.map_filter id xs"
  shows "entry_cmds Q es = List.map_filter id (log_cmds Q xs)"
  using assms
proof (induction xs arbitrary: es)
  case (Cons x xs)
  show ?case
  proof (cases x)
    case None
    with Cons show ?thesis by (simp add: log_cmds_def map_filter_simps)
  next
    case (Some b)
    with Cons.prems obtain e es' where "es = e # es'" "le_data e = b" "map le_data es' = List.map_filter id xs"
      by (auto simp: map_filter_simps id_def)
    with Cons.IH [of es'] Some show ?thesis by (simp add: log_cmds_def map_filter_simps id_def split: option.split)
  qed
qed (simp add: map_filter_simps)

lemma s_run_rev: "m_rev m \<le> m_rev (fst (s_run m cmds)) \<and> m_rev (fst (s_run m cmds)) \<le> m_rev m + log_cost cmds"
proof (induction cmds arbitrary: m)
  case (Cons c cmds)
  have "m_rev m \<le> m_rev (fst (s_apply m c))" "m_rev (fst (s_apply m c)) \<le> m_rev m + cmd_cost c"
    by (rule s_apply_rev_bounds)+
  with Cons.IH [of "fst (s_apply m c)"] show ?case unfolding s_run_Cons by simp
qed simp

lemma log_cost_append: "log_cost (xs @ ys) = log_cost xs + log_cost ys"
  by (simp add: log_cost_def)

lemma map_filter_id_mem: "x \<in> set (List.map_filter id xs) \<longleftrightarrow> Some x \<in> set xs"
  by (induction xs) (auto simp: map_filter_simps split: option.splits)

text \<open>A batch that follows on a prefix of the log.\<close>

lemma batch_fits:
  assumes "log_fits Q utf8 log" "k + n \<le> length log"
  defines "cmds \<equiv> List.map_filter id (take n (drop k (log_cmds Q log)))"
  shows "\<forall>cmd \<in> set cmds. cmd_fits utf8 cmd" "list_all index_free cmds"
    "nn64 (m_rev (log_state mvcc_empty (log_cmds Q log) k) + log_cost cmds)"
proof -
  have mem: "Some cmd \<in> set (log_cmds Q log)" if "cmd \<in> set cmds" for cmd
    using that unfolding cmds_def map_filter_id_mem by (meson in_set_dropD in_set_takeD)
  then show "\<forall>cmd \<in> set cmds. cmd_fits utf8 cmd" "list_all index_free cmds"
    using assms(1) by (auto simp: log_fits_def list_all_iff)
  let ?xs = "log_cmds Q log"
  have "?xs = take k ?xs @ take n (drop k ?xs) @ drop (k + n) ?xs"
    by (metis append_assoc append_take_drop_id take_add)
  then have "List.map_filter id ?xs = List.map_filter id (take k ?xs) @ cmds @ List.map_filter id (drop (k + n) ?xs)"
    unfolding cmds_def by (metis map_filter_id_append)
  then have "log_cost (List.map_filter id (take k ?xs)) + log_cost cmds \<le> log_cost (List.map_filter id ?xs)"
    by (simp add: log_cost_append)
  moreover have "m_rev (log_state mvcc_empty ?xs k) \<le> log_cost (List.map_filter id (take k ?xs))"
    unfolding log_state_def using s_run_rev [of mvcc_empty] by (simp add: mvcc_empty_def)
  moreover have "0 \<le> m_rev (log_state mvcc_empty ?xs k)"
    unfolding log_state_def using s_run_rev [of mvcc_empty] by (simp add: mvcc_empty_def)
  ultimately show "nn64 (m_rev (log_state mvcc_empty ?xs k) + log_cost cmds)"
    using assms(1) log_cost_nonneg [of cmds] unfolding log_fits_def nn64_def by linarith
qed

section \<open>Invariant\<close>

definition replica_ok ::
  "('db \<Rightarrow> contents) \<Rightarrow> codec \<Rightarrow> cmd_codec \<Rightarrow> bytes option list \<Rightarrow> 'db replica \<Rightarrow> bool" where
  "replica_ok C P Q log r \<longleftrightarrow> sys_inv C P (sm_store (rp_sm r), rp_pin r) \<and> rp_applied r \<le> length log \<and>
     agree (mvcc_of P (C (sm_store (rp_sm r)))) (log_state mvcc_empty (log_cmds Q log) (rp_applied r)) \<and>
     (\<forall>k arg. rp_saving r = Some (k, arg) \<longrightarrow> k = rp_applied r)"

definition snapshot_ok ::
  "'db leveldb \<Rightarrow> ('db \<Rightarrow> contents) \<Rightarrow> codec \<Rightarrow> cmd_codec \<Rightarrow> 'sn snapshot_files \<Rightarrow> bytes option list \<Rightarrow>
    nat \<times> 'sn \<times> string \<Rightarrow> bool" where
  "snapshot_ok L C P Q F log = (\<lambda>(k, sn, path). k \<le> length log \<and> (\<exists>sn0 db. store_inv P (C db) \<and>
     save_snapshot L P F sn0 path db = (sn, Status_ok) \<and>
     agree (mvcc_of P (C db)) (log_state mvcc_empty (log_cmds Q log) k)))"

definition cluster_inv ::
  "'db leveldb \<Rightarrow> ('db \<Rightarrow> contents) \<Rightarrow> codec \<Rightarrow> cmd_codec \<Rightarrow> (string \<Rightarrow> bool) \<Rightarrow> 'sn snapshot_files \<Rightarrow>
    ('db, 'sn) cluster \<Rightarrow> bool" where
  "cluster_inv L C P Q utf8 F c \<longleftrightarrow> log_fits Q utf8 (ct_log c) \<and>
     (\<forall>i. replica_ok C P Q (ct_log c) (ct_node c i)) \<and>
     (\<forall>x \<in> set (ct_snaps c). snapshot_ok L C P Q F (ct_log c) x)"

lemma cluster_inv_start: "cluster_start C P c \<Longrightarrow> cluster_inv L C P Q utf8 F c"
  by (simp add: cluster_start_def cluster_inv_def replica_ok_def log_fits_def sys_inv_def nn64_def map_filter_simps)

lemma replica_ok_append: "replica_ok C P Q log r \<Longrightarrow> replica_ok C P Q (log @ es) r"
  by (auto simp: replica_ok_def log_state_append simp del: mvcc_of_sel)

lemma snapshot_ok_append: "snapshot_ok L C P Q F log x \<Longrightarrow> snapshot_ok L C P Q F (log @ es) x"
  by (auto simp: snapshot_ok_def log_state_append simp del: mvcc_of_sel split: prod.splits)

text \<open>A step of one replica.\<close>

lemma cluster_inv_set:
  assumes "cluster_inv L C P Q utf8 F c" "replica_ok C P Q (ct_log c) r"
  shows "cluster_inv L C P Q utf8 F (set_node i r c)"
  using assms by (simp add: cluster_inv_def set_node_def)

context store_env
begin

lemma replica_apply:
  assumes accepts: "\<And>db b. snd (ldb_Write L db b)" and fits: "log_fits Q utf8 log" and r: "replica_ok C P Q log r"
    and m: "rp_applied r + m \<le> length log" and es: "map le_data es = List.map_filter id (take m (drop (rp_applied r) log))"
    and run: "on_apply L P Q es (rp_sm r) cls = (sm', cls', runs)" and idle: "rp_saving r = None"
  shows "replica_ok C P Q log (r\<lparr>rp_sm := sm', rp_applied := rp_applied r + m\<rparr>)"
proof -
  let ?db = "sm_store (rp_sm r)" and ?cmds = "entry_cmds Q es" and ?k = "rp_applied r"
  have inv: "sys_inv C P (?db, rp_pin r)" "store_inv P (C ?db)"
      "agree (mvcc_of P (C ?db)) (log_state mvcc_empty (log_cmds Q log) ?k)"
    using r by (simp_all add: replica_ok_def sys_inv_def)
  have cmds: "?cmds = List.map_filter id (take m (drop ?k (log_cmds Q log)))" using batch_cmds [OF es] by simp
  note bf = batch_fits [OF fits m, folded cmds]
  obtain db' rs where log: "apply_log L P ?db ?cmds = (db', rs)" by fastforce
  have nn: "nn64 (m_rev (mvcc_of P (C ?db)) + log_cost ?cmds)" using bf(3) inv(3) by (simp add: agree_def)
  note lg = inv(2) bf(1) nn log
  have st: "sm_store sm' = db'" using on_apply_store(1) [of L P Q es "rp_sm r" cls] run log by simp
  have "agree (mvcc_of P (C db')) (log_state mvcc_empty (log_cmds Q log) (?k + m))"
    using agree_run [OF inv(3) bf(2)] log_run [OF accepts lg] log_state_add [of mvcc_empty "log_cmds Q log" ?k m] cmds
    by simp
  moreover have "sys_inv C P (db', rp_pin r)"
    using inv(1) log_inv [OF lg] log_grows [OF lg] main_mono_trans unfolding sys_inv_def grows_def by auto
  ultimately show ?thesis using m idle st by (simp add: replica_ok_def del: mvcc_of_sel)
qed

lemma replica_compact:
  assumes r: "replica_ok C P Q log r" and pin: "rp_pin r = Some db_it"
    and run: "CompactionLocked L P db_it (sm_store (rp_sm r)) keep = Inr (db', removed)"
  shows "replica_ok C P Q log (r\<lparr>rp_sm := (rp_sm r)\<lparr>sm_store := db'\<rparr>, rp_pin := None\<rparr>)"
proof -
  have it: "store_inv P (C db_it)" "store_inv P (C (sm_store (rp_sm r)))"
      "main_mono (mvcc_of P (C db_it)) (mvcc_of P (C (sm_store (rp_sm r))))"
    using r pin by (simp_all add: replica_ok_def sys_inv_def)
  note ck = compaction_keeps [OF it run]
  have "agree (mvcc_of P (C db')) (log_state mvcc_empty (log_cmds Q log) (rp_applied r))"
    using ck(3) r unfolding replica_ok_def by (metis agree_trans agree_sym)
  with r ck(1) show ?thesis by (simp add: replica_ok_def sys_inv_def del: mvcc_of_sel)
qed

lemma replica_install:
  assumes "fresh_disk D C" "snapshot_medium F utf8"
    and snap: "snapshot_ok L C P Q F log (k, sn, path)"
    and load: "snd (fs_remove_all D fs (st_data_dir st))"
      "on_snapshot_load L P D F fs sn path st = Opened (st', 0)" "st_db st' = Some db'"
    and r: "sm_store (rp_sm r) = db'" "rp_pin r = None" "rp_applied r = k" "rp_saving r = None"
  shows "replica_ok C P Q log r"
proof -
  obtain sn0 db where s: "k \<le> length log" "store_inv P (C db)" "save_snapshot L P F sn0 path db = (sn, Status_ok)"
      "agree (mvcc_of P (C db)) (log_state mvcc_empty (log_cmds Q log) k)"
    using snap unfolding snapshot_ok_def by blast
  have "store_inv P (C db')" "mvcc_of P (C db') = s_snapshot (mvcc_of P (C db))"
    using install_agrees [OF assms(1,2) s(2,3) load(1,2)] load(3) by auto
  moreover from this(2) s(4) have "agree (mvcc_of P (C db')) (log_state mvcc_empty (log_cmds Q log) k)"
    by (simp add: agree_def del: mvcc_of_sel)
  ultimately show ?thesis using s(1) r by (simp add: replica_ok_def sys_inv_def del: mvcc_of_sel)
qed

lemma replica_export:
  assumes "replica_ok C P Q log r" "rp_saving r = Some (k, arg)"
    and "save_snapshot L P F sn (sa_writer arg) (sm_store (rp_sm r)) = (sn', Status_ok)"
  shows "snapshot_ok L C P Q F log (k, sn', sa_writer arg)"
proof -
  have "k = rp_applied r" "store_inv P (C (sm_store (rp_sm r)))"
    using assms(1,2) by (simp_all add: replica_ok_def sys_inv_def)
  with assms(1,3) show ?thesis unfolding snapshot_ok_def replica_ok_def by auto
qed

lemma cluster_inv_step:
  assumes "cluster_step L P Q utf8 D F c c'" and inv: "cluster_inv L C P Q utf8 F c"
    and accepts: "\<And>db b. snd (ldb_Write L db b)" and env: "fresh_disk D C" "snapshot_medium F utf8"
  shows "cluster_inv L C P Q utf8 F c'"
proof -
  have fits: "log_fits Q utf8 (ct_log c)" and node: "\<And>i. replica_ok C P Q (ct_log c) (ct_node c i)"
    and snap: "\<And>x. x \<in> set (ct_snaps c) \<Longrightarrow> snapshot_ok L C P Q F (ct_log c) x"
    using inv by (auto simp: cluster_inv_def)
  from assms(1) show ?thesis
  proof (cases rule: cluster_stepE)
    case (commit e)
    with inv show ?thesis by (auto simp: cluster_inv_def replica_ok_append snapshot_ok_append)
  next
    case (applied i m es cls sm' cls' runs)
    with cluster_inv_set [OF inv replica_apply [OF accepts fits node applied(2-5)]] show ?thesis by simp
  next
    case (scan i)
    have "replica_ok C P Q (ct_log c) ((ct_node c i)\<lparr>rp_pin := Some (sm_store (rp_sm (ct_node c i)))\<rparr>)"
      using node [of i] by (simp add: replica_ok_def sys_inv_def del: mvcc_of_sel)
    with scan cluster_inv_set [OF inv] show ?thesis by simp
  next
    case (compact i db_it n keep db' removed)
    then have "CompactionLocked L P db_it (sm_store (rp_sm (ct_node c i))) keep = Inr (db', removed)"
      by (simp add: RaftNode_Compaction_def split: if_splits)
    with compact cluster_inv_set [OF inv replica_compact [OF node compact(2)]] show ?thesis by simp
  next
    case (save i path d arg)
    have "replica_ok C P Q (ct_log c) ((ct_node c i)\<lparr>rp_saving := Some (rp_applied (ct_node c i), arg)\<rparr>)"
      using node [of i] by (simp add: replica_ok_def)
    with save cluster_inv_set [OF inv] show ?thesis by simp
  next
    case (export i k arg sn sn' status)
    let ?r = "ct_node c i"
    have "replica_ok C P Q (ct_log c) (?r\<lparr>rp_saving := None\<rparr>)" using node [of i] by (simp add: replica_ok_def)
    with export inv replica_export [OF node export(2)] show ?thesis by (auto simp: cluster_inv_def set_node_def)
  next
    case (install k sn path i fs st st' db')
    with cluster_inv_set [OF inv replica_install [OF env snap [OF install(2)] install(5-7)]] show ?thesis by simp
  next
    case (restart k sn path fs st st' db' i hub)
    with cluster_inv_set [OF inv replica_install [OF env snap [OF restart(2)] restart(3-5)]] show ?thesis
      by (simp add: StateMachine_init_def)
  next
    case (lead i t)
    with cluster_inv_set [OF inv] node [of i] show ?thesis by (simp add: replica_ok_def on_leader_start_def)
  next
    case (step_down i)
    with cluster_inv_set [OF inv] node [of i] show ?thesis by (simp add: replica_ok_def on_leader_stop_def)
  qed
qed

lemma cluster_inv_steps:
  assumes "(cluster_step L P Q utf8 D F)\<^sup>*\<^sup>* c c'" "cluster_inv L C P Q utf8 F c"
    and "\<And>db b. snd (ldb_Write L db b)" "fresh_disk D C" "snapshot_medium F utf8"
  shows "cluster_inv L C P Q utf8 F c'"
  using assms(1,2) by (induction rule: rtranclp_induct) (auto intro: cluster_inv_step [OF _ _ assms(3-5)])

end

text \<open>What a well-formed cluster answers: each replica reads what the log says at its applied index.\<close>

lemma replica_reads:
  assumes "store_env L C P utf8" "cluster_inv L C P Q utf8 F c"
  defines "m \<equiv> \<lambda>i. log_state mvcc_empty (log_cmds Q (ct_log c)) (rp_applied (ct_node c i))"
    and "db \<equiv> \<lambda>i. sm_store (rp_sm (ct_node c i))"
  shows "GetLocked L P (db i) key =
      (case s_get (m i) key of None \<Rightarrow> (None, KEY_NOT_FOUND) | Some kv \<Rightarrow> (Some kv, OK))"
    "CurrentRevisionLocked L (db i) = m_rev (m i)"
proof -
  have ag: "agree (mvcc_of P (C (db i))) (m i)"
    using assms(2) by (simp add: cluster_inv_def replica_ok_def m_def db_def del: mvcc_of_sel)
  show "GetLocked L P (db i) key = (case s_get (m i) key of None \<Rightarrow> (None, KEY_NOT_FOUND) | Some kv \<Rightarrow> (Some kv, OK))"
    using agree_reads(3) [OF ag] by (simp add: store_env.Get_refines [OF assms(1)])
  show "CurrentRevisionLocked L (db i) = m_rev (m i)"
    using ag by (simp add: store_env.CurrentRevision_refines [OF assms(1)] agree_def)
qed

text \<open>A node of a run of the cluster is a run in the sense of \<open>raft_run\<close>.\<close>

lemma cluster_is_raft_run:
  assumes env: "store_env L C P utf8" "fresh_disk D C" "snapshot_medium F utf8" "\<And>db b. snd (ldb_Write L db b)"
    and run: "cluster_start C P (c 0)" "\<And>t. (cluster_step L P Q utf8 D F)\<^sup>*\<^sup>* (c t) (c (Suc t))"
    and log: "\<And>t. prefix (ct_log (c t)) log"
    and db: "\<And>t. en_db env t = sm_store (rp_sm (ct_node (c t) i))"
    and up: "\<And>t. rp_applied (ct_node (c t) i) \<le> rp_applied (ct_node (c (Suc t)) i)"
    and braft: "\<And>t. ns_known_applied_index (en_status env t) \<le> int (rp_applied (ct_node (c t) i))"
      "\<And>t t'. t \<le> t' \<Longrightarrow> acked t \<le> acked t'"
      "\<And>t t'. t \<le> t' \<Longrightarrow> ns_committed_index (en_status env t) \<le> ns_committed_index (en_status env t')"
      "\<And>t. en_lease env t = LEASE_VALID \<Longrightarrow> int (acked t) \<le> ns_committed_index (en_status env t)"
  shows "raft_run L C P utf8 env (log_cmds Q log) mvcc_empty acked (\<lambda>t. rp_applied (ct_node (c t) i))"
proof -
  have "(cluster_step L P Q utf8 D F)\<^sup>*\<^sup>* (c 0) (c t)" for t
    by (induction t) (auto intro: rtranclp_trans run(2))
  then have "cluster_inv L C P Q utf8 F (c t)" for t
    using store_env.cluster_inv_steps [OF env(1) _ cluster_inv_start [OF run(1)] env(4,2,3)] by blast
  then have ok: "replica_ok C P Q (ct_log (c t)) (ct_node (c t) i)" for t by (simp add: cluster_inv_def)
  have pre: "log_state mvcc_empty (log_cmds Q (ct_log (c t))) (rp_applied (ct_node (c t) i)) =
      log_state mvcc_empty (log_cmds Q log) (rp_applied (ct_node (c t) i))" for t
    using log [of t] ok [of t] by (auto simp: prefix_def replica_ok_def log_state_append)
  have mono: "rp_applied (ct_node (c t) i) \<le> rp_applied (ct_node (c t') i)" if "t \<le> t'" for t t'
    using that up by (rule lift_Suc_mono_le [rotated])
  show ?thesis
  proof (intro raft_run.intro env(1) raft_run_axioms.intro)
    show "store_inv P (C (en_db env t))" for t using ok [of t] by (simp add: db replica_ok_def sys_inv_def)
    show "agree (mvcc_of P (C (en_db env t))) (log_state mvcc_empty (log_cmds Q log) (rp_applied (ct_node (c t) i)))" for t
      using ok [of t] pre [of t] by (simp add: db replica_ok_def del: mvcc_of_sel)
  qed (use braft mono in simp_all)
qed

section \<open>A run\<close>

text \<open>Steps on the reference database and the reference files.\<close>

type_synonym mem_cluster = "(mem_db, mem_sn) cluster"

abbreviation mem_cluster_step :: "mem_cluster \<Rightarrow> mem_cluster \<Rightarrow> bool" where
  "mem_cluster_step \<equiv> cluster_step mem_leveldb ref_codec ref_cmd_codec (\<lambda>_. True) mem_disk mem_files"

definition new_cluster :: mem_cluster where
  "new_cluster = \<lparr>ct_log = [], ct_node = (\<lambda>i. \<lparr>rp_sm = StateMachine_init [] None, rp_pin = None, rp_applied = 0,
     rp_saving = None\<rparr>), ct_snaps = []\<rparr>"

definition commit_cmd :: "RaftCmd \<Rightarrow> mem_cluster \<Rightarrow> mem_cluster" where
  "commit_cmd cmd c = c\<lparr>ct_log := ct_log c @ [Some (ref_ser_cmd cmd)]\<rparr>"

definition apply_rest :: "nat \<Rightarrow> mem_cluster \<Rightarrow> mem_cluster" where
  "apply_rest i c = (let r = ct_node c i; es = map (\<lambda>b. \<lparr>le_data = b, le_done = None\<rparr>)
       (List.map_filter id (drop (rp_applied r) (ct_log c)))
     in set_node i (r\<lparr>rp_sm := fst (on_apply mem_leveldb ref_codec ref_cmd_codec es (rp_sm r)
          (\<lambda>_. ApplyClosure_init ApplyResult_init)), rp_applied := length (ct_log c)\<rparr>) c)"

definition begin_save :: "nat \<Rightarrow> mem_cluster \<Rightarrow> mem_cluster" where
  "begin_save i c = set_node i ((ct_node c i)\<lparr>rp_saving :=
     Some (rp_applied (ct_node c i), \<lparr>sa_writer = ''/snap'', sa_done = 0\<rparr>)\<rparr>) c"

definition finish_save :: "nat \<Rightarrow> mem_cluster \<Rightarrow> mem_cluster" where
  "finish_save i c = set_node i ((ct_node c i)\<lparr>rp_saving := None\<rparr>) (c\<lparr>ct_snaps := (rp_applied (ct_node c i),
     [(''/snap/data'', ExportSnapshot mem_leveldb ref_codec (sm_store (rp_sm (ct_node c i))))], ''/snap'') # ct_snaps c\<rparr>)"

definition install_from :: "mem_db \<Rightarrow> nat \<Rightarrow> nat \<Rightarrow> mem_cluster \<Rightarrow> mem_cluster" where
  "install_from db k i c = set_node i ((ct_node c i)\<lparr>rp_sm := (rp_sm (ct_node c i))\<lparr>
     sm_store := the (st_db (install db))\<rparr>, rp_applied := k\<rparr>) c"

lemma commit_cmd_step:
  "log_fits ref_cmd_codec (\<lambda>_. True) (ct_log c @ [Some (ref_ser_cmd cmd)]) \<Longrightarrow> mem_cluster_step c (commit_cmd cmd c)"
  unfolding commit_cmd_def by (rule ct_commit)

lemma apply_rest_step:
  assumes "rp_saving (ct_node c i) = None" "rp_applied (ct_node c i) \<le> length (ct_log c)"
  shows "mem_cluster_step c (apply_rest i c)"
proof -
  let ?r = "ct_node c i" and ?m = "length (ct_log c) - rp_applied (ct_node c i)"
  let ?es = "map (\<lambda>b. \<lparr>le_data = b, le_done = None\<rparr>) (List.map_filter id (drop (rp_applied ?r) (ct_log c)))"
  obtain sm' cls' runs where run: "on_apply mem_leveldb ref_codec ref_cmd_codec ?es (rp_sm ?r)
      (\<lambda>_. ApplyClosure_init ApplyResult_init) = (sm', cls', runs)" by (metis prod_cases3)
  have "map le_data ?es = List.map_filter id (take ?m (drop (rp_applied ?r) (ct_log c)))" by (simp add: comp_def)
  from ct_apply [OF _ this run assms(1)] run assms(2) show ?thesis by (simp add: apply_rest_def Let_def)
qed

lemma save_steps:
  assumes "rp_saving (ct_node c i) = None"
  shows "mem_cluster_step\<^sup>*\<^sup>* c (finish_save i (begin_save i c))"
proof -
  have "mem_cluster_step c (begin_save i c)"
    unfolding begin_save_def using assms by (rule ct_save) (simp add: on_snapshot_save_def)
  moreover have "mem_cluster_step (begin_save i c) (finish_save i (begin_save i c))"
    using ct_export [of "begin_save i c" i "rp_applied (ct_node c i)" "\<lparr>sa_writer = ''/snap'', sa_done = 0\<rparr>" mem_leveldb
        ref_codec mem_files "[]"]
    by (auto simp: begin_save_def finish_save_def set_node_def install_loads(1))
  ultimately show ?thesis by (auto intro: converse_rtranclp_into_rtranclp)
qed

lemma install_step:
  assumes "(k, [(''/snap/data'', ExportSnapshot mem_leveldb ref_codec db)], ''/snap'') \<in> set (ct_snaps c)"
    and "rp_pin (ct_node c i) = None" "rp_saving (ct_node c i) = None" "st_db (install db) \<noteq> None"
  shows "mem_cluster_step c (install_from db k i c)"
  unfolding install_from_def
  by (rule ct_install [OF assms(1-3) _ install_loads(2)]) (use assms(4) in \<open>auto simp: mem_disk_def\<close>)

text \<open>
  A put is applied on replica 0, which saves a snapshot; replica 1 starts from it; a second put
  is applied on both.
\<close>

definition half_cluster :: mem_cluster where
  "half_cluster = finish_save 0 (begin_save 0 (apply_rest 0 (commit_cmd (Cmd_put ''a'' ''1'') new_cluster)))"

definition full_cluster :: mem_cluster where
  "full_cluster = apply_rest 1 (apply_rest 0 (commit_cmd (Cmd_put ''a'' ''2'') (install_from
     (sm_store (rp_sm (ct_node half_cluster 0))) 1 1 half_cluster)))"

lemma new_cluster_start: "cluster_start map_of ref_codec new_cluster"
  by (simp add: cluster_start_def new_cluster_def StateMachine_init_def store_inv_empty mvcc_empty_def)

lemma two_puts_fit:
  "log_fits ref_cmd_codec (\<lambda>_. True) [Some (ref_ser_cmd (Cmd_put ''a'' ''1''))]"
  "log_fits ref_cmd_codec (\<lambda>_. True) [Some (ref_ser_cmd (Cmd_put ''a'' ''1'')), Some (ref_ser_cmd (Cmd_put ''a'' ''2''))]"
proof -
  have p: "log_cmds ref_cmd_codec [Some (ref_ser_cmd (Cmd_put ''a'' ''1'')), Some (ref_ser_cmd (Cmd_put ''a'' ''2''))] =
      [Some (Cmd_put ''a'' ''1''), Some (Cmd_put ''a'' ''2'')]"
    "log_cmds ref_cmd_codec [Some (ref_ser_cmd (Cmd_put ''a'' ''1''))] = [Some (Cmd_put ''a'' ''1'')]"
    by code_simp+
  show "log_fits ref_cmd_codec (\<lambda>_. True) [Some (ref_ser_cmd (Cmd_put ''a'' ''1''))]"
    "log_fits ref_cmd_codec (\<lambda>_. True) [Some (ref_ser_cmd (Cmd_put ''a'' ''1'')), Some (ref_ser_cmd (Cmd_put ''a'' ''2''))]"
    unfolding log_fits_def p by (auto simp: map_filter_simps nn64_def)
qed

lemma half_reached: "mem_cluster_step\<^sup>*\<^sup>* new_cluster half_cluster"
proof -
  let ?c = "commit_cmd (Cmd_put ''a'' ''1'') new_cluster"
  have "mem_cluster_step\<^sup>*\<^sup>* new_cluster new_cluster" by simp
  also have "mem_cluster_step new_cluster ?c"
    by (rule commit_cmd_step) (use two_puts_fit(1) in \<open>simp add: new_cluster_def\<close>)
  also have "mem_cluster_step ?c (apply_rest 0 ?c)" by (rule apply_rest_step) code_simp+
  also have "mem_cluster_step\<^sup>*\<^sup>* (apply_rest 0 ?c) half_cluster"
    unfolding half_cluster_def by (rule save_steps) code_simp
  finally show ?thesis .
qed

lemma full_reached: "mem_cluster_step\<^sup>*\<^sup>* half_cluster full_cluster"
proof -
  let ?db = "sm_store (rp_sm (ct_node half_cluster 0))"
  let ?c1 = "install_from ?db 1 1 half_cluster"
  let ?c2 = "commit_cmd (Cmd_put ''a'' ''2'') ?c1"
  have log: "ct_log ?c1 = [Some (ref_ser_cmd (Cmd_put ''a'' ''1''))]"
    by (simp add: install_from_def set_node_def half_cluster_def finish_save_def begin_save_def apply_rest_def
        commit_cmd_def new_cluster_def Let_def)
  have "ct_snaps half_cluster = [(1, [(''/snap/data'', ExportSnapshot mem_leveldb ref_codec ?db)], ''/snap'')]"
    by (simp add: set_node_def half_cluster_def finish_save_def begin_save_def apply_rest_def commit_cmd_def
        new_cluster_def Let_def)
  moreover have "rp_pin (ct_node half_cluster 1) = None" "rp_saving (ct_node half_cluster 1) = None"
    "st_db (install ?db) \<noteq> None" by code_simp+
  ultimately have "mem_cluster_step half_cluster ?c1" by (intro install_step) simp_all
  then have "mem_cluster_step\<^sup>*\<^sup>* half_cluster ?c1" by (rule r_into_rtranclp)
  also have "mem_cluster_step ?c1 ?c2"
    by (rule commit_cmd_step) (simp only: log append.simps two_puts_fit(2))
  also have "mem_cluster_step ?c2 (apply_rest 0 ?c2)" by (rule apply_rest_step) code_simp+
  also have "mem_cluster_step (apply_rest 0 ?c2) full_cluster"
    unfolding full_cluster_def by (rule apply_rest_step) code_simp+
  finally show ?thesis .
qed

lemma mem_accepts: "snd (ldb_Write mem_leveldb db b)"
  by (simp add: mem_leveldb_def mem_Write_def)

section \<open>Properties\<close>




text \<open>The new cluster, the one with a put, the one with two puts; the read is of replica 1, which was restored.\<close>

definition cluster_run :: "nat \<Rightarrow> mem_cluster" where
  "cluster_run t = (if t = 0 then new_cluster else if t = 1 then half_cluster else full_cluster)"

definition cluster_env :: "mem_db raft_env" where
  "cluster_env = demo_env\<lparr>en_lease := (\<lambda>_. LEASE_VALID), en_db := (\<lambda>t. sm_store (rp_sm (ct_node (cluster_run t) 1))),
     en_status := (\<lambda>t. \<lparr>ns_state = STATE_LEADER, ns_term = 2, ns_committed_index = 2,
       ns_known_applied_index = (if t < 2 then 0 else 2)\<rparr>)\<rparr>"



text \<open>
  The agreement needs every write to be accepted.  When LevelDB refuses the write of a follower's entry
  there is no closure to report to: on_apply goes on with the next entry and the replica stays behind.
\<close>

lemma refused_write_unnoticed:
  "let entry = (\<lambda>cmd. \<lparr>le_data = ref_ser_cmd cmd, le_done = None\<rparr>);
       run = (\<lambda>L es db. on_apply L ref_codec ref_cmd_codec es (StateMachine_init db None)
         (\<lambda>_. ApplyClosure_init ApplyResult_init));
       refusing = mem_leveldb\<lparr>ldb_Write := (\<lambda>db b. (db, False))\<rparr>;
       (sm, _, runs) = run refusing [entry (Cmd_put ''a'' ''1'')] [];
       (sm', _, runs') = run mem_leveldb [entry (Cmd_put ''b'' ''2'')] (sm_store sm);
       (sm2, _, _) = run mem_leveldb [entry (Cmd_put ''a'' ''1''), entry (Cmd_put ''b'' ''2'')] []
   in runs = [] \<and> runs' = [] \<and> CurrentRevisionLocked mem_leveldb (sm_store sm') = 1 \<and>
      snd (GetLocked mem_leveldb ref_codec (sm_store sm') ''a'') = KEY_NOT_FOUND \<and>
      CurrentRevisionLocked mem_leveldb (sm_store sm2) = 2 \<and>
      snd (GetLocked mem_leveldb ref_codec (sm_store sm2) ''a'') = OK"
  by code_simp

end
