(* ===== verification/LocalSystem.thy ===== *)
theory LocalSystem
  imports LocalNode WatchSystem
begin

text \<open>
  The single node among its callers.  brpc runs requests on many threads, so LocalNode::Apply
  (src/src/raft/local_node.cpp) is called concurrently; its mutex mu_ is what makes the calls a
  sequence.  The store itself takes its lock shared for writes and reads alike, so between the
  reads of a write method and its WriteBatch any other thread may run.
\<close>

section \<open>Reading and writing at different times\<close>

text \<open>
  A database handle whose reads come from one state and whose writes go to a later one: a store
  method that runs over it has done its reads before other threads moved on.
\<close>

definition split_leveldb :: "'db leveldb \<Rightarrow> ('db \<times> 'db) leveldb" where
  "split_leveldb L = \<lparr>ldb_Get = (\<lambda>(r, w). ldb_Get L r),
     ldb_Write = (\<lambda>(r, w) b. let (w', ok) = ldb_Write L w b in ((r, w'), ok)),
     ldb_Iter = (\<lambda>(r, w). ldb_Iter L r)\<rparr>"

lemma split_reads [simp]:
  "ldb_Get (split_leveldb L) (r, w) = ldb_Get L r"
  "ldb_Write (split_leveldb L) (r, w) b = (let (w', ok) = ldb_Write L w b in ((r, w'), ok))"
  "ReadMainLocked (split_leveldb L) P (r, w) key = ReadMainLocked L P r key"
  "CurrentRevisionLocked (split_leveldb L) (r, w) = CurrentRevisionLocked L r"
  "NextRevisionLocked (split_leveldb L) (r, w) b = NextRevisionLocked L r b"
  "GetLocked (split_leveldb L) P (r, w) key = GetLocked L P r key"
  by (simp_all add: split_leveldb_def ReadMainLocked_def CurrentRevisionLocked_def NextRevisionLocked_def GetLocked_def)

lemma split_batch_loop [simp]:
  "BatchPut_loop (split_leveldb L) P (r, w) kvs rv b out = BatchPut_loop L P r kvs rv b out"
  by (induction kvs arbitrary: rv b out) (auto simp: Let_def)

text \<open>What a command reads of the store, the version index apart.\<close>

definition same_reads :: "'db leveldb \<Rightarrow> codec \<Rightarrow> 'db \<Rightarrow> 'db \<Rightarrow> bool" where
  "same_reads L P r w \<longleftrightarrow> CurrentRevisionLocked L r = CurrentRevisionLocked L w \<and>
     (\<forall>key. ReadMainLocked L P r key = ReadMainLocked L P w key)"

lemma same_reads_eq:
  assumes "same_reads L P r w"
  shows "CurrentRevisionLocked L r = CurrentRevisionLocked L w" "ReadMainLocked L P r key = ReadMainLocked L P w key"
    "NextRevisionLocked L r b = NextRevisionLocked L w b" "GetLocked L P r key = GetLocked L P w key"
    "BatchPut_loop L P r kvs rv b out = BatchPut_loop L P w kvs rv b out"
proof -
  show rd: "CurrentRevisionLocked L r = CurrentRevisionLocked L w" "ReadMainLocked L P r key = ReadMainLocked L P w key"
    for key using assms by (simp_all add: same_reads_def)
  then show "NextRevisionLocked L r b = NextRevisionLocked L w b" "GetLocked L P r key = GetLocked L P w key"
    by (simp_all add: NextRevisionLocked_def GetLocked_def)
  show "BatchPut_loop L P r kvs rv b out = BatchPut_loop L P w kvs rv b out"
    by (induction kvs arbitrary: rv b out) (auto simp: rd Let_def)
qed

text \<open>When what it reads has not changed, the command does what it does in one go.\<close>

lemma split_apply:
  assumes "same_reads L P r w" "index_free cmd"
  shows "ApplyCmdToStore (split_leveldb L) P (r, w) cmd out =
    (case ApplyCmdToStore L P w cmd out of (w', res) \<Rightarrow> ((r, w'), res))"
proof -
  note eqs = same_reads_eq [OF assms(1)] case_prod_beta Let_def
  have pub: "PublishLocked (split_leveldb L) P (r, w) key val = (case PublishLocked L P w key val of (w', x) \<Rightarrow> ((r, w'), x))"
    for key val by (simp add: PublishLocked_def eqs)
  show ?thesis
    using assms(2)
    by (cases cmd) (simp_all add: ApplyPut_def ApplyDelete_def ApplyPublish_def ApplyRollback_def ApplyCas_def ApplyBatch_def
        PutLocked_def DeleteLocked_def CompareAndSwapLocked_def BatchPutLocked_def RollbackLocked_def GetConfigLocked_def
        pub eqs split: option.split)
qed

section \<open>The system\<close>

text \<open>
  A thread that serves a request: outside the node; in Apply before mu_, with the mutex before the
  reads of the store, after them, broadcasting, about to return; in Get before and after the
  read.  The numbers are the length of the log when the call began and the place in the log, for
  stating when the call took effect; they do not influence the steps.
\<close>

datatype 'db caller = A_idle | A_lock RaftCmd nat | A_read RaftCmd nat | A_write RaftCmd nat 'db
  | A_broadcast RaftCmd ApplyResult nat nat bcast | A_return RaftCmd ApplyResult nat nat
  | G_read string nat | G_return string GetResult nat nat

text \<open>A call that returned, with the length of the log at its beginning, its place and the length at its end.\<close>

datatype finished = F_apply RaftCmd ApplyResult nat nat nat | F_get string GetResult nat nat nat

record 'db local_sys =
  lc_store :: 'db
  lc_pin :: "'db option"
  lc_hub :: WatchHub
  lc_poll :: "'db watch_pc"
  lc_mu :: "nat option"
  lc_pc :: "nat \<Rightarrow> 'db caller"
  lc_ev :: ev_index
  lc_log :: "(RaftCmd \<times> ApplyResult) list"
  lc_done :: "finished list"

definition at :: "nat \<Rightarrow> 'db caller \<Rightarrow> 'db local_sys \<Rightarrow> 'db local_sys" where
  "at i c s = s\<lparr>lc_pc := (lc_pc s)(i := c)\<rparr>"

inductive local_step ::
  "'db leveldb \<Rightarrow> ('db \<Rightarrow> contents) \<Rightarrow> codec \<Rightarrow> (string \<Rightarrow> bool) \<Rightarrow> watch_args \<Rightarrow>
    'db local_sys \<Rightarrow> 'db local_sys \<Rightarrow> bool"
  for L :: "'db leveldb" and C :: "'db \<Rightarrow> contents" and P :: codec and utf8 :: "string \<Rightarrow> bool"
    and a :: watch_args where
  lc_call: "lc_pc s i = A_idle \<Longrightarrow> local_step L C P utf8 a s (at i (A_lock cmd (length (lc_log s))) s)"
| lc_acquire: "lc_pc s i = A_lock cmd t \<Longrightarrow> lc_mu s = None \<Longrightarrow>
    local_step L C P utf8 a s (at i (A_read cmd t) (s\<lparr>lc_mu := Some i\<rparr>))"
| lc_read: "lc_pc s i = A_read cmd t \<Longrightarrow> local_step L C P utf8 a s (at i (A_write cmd t (lc_store s)) s)"
| lc_write: "lc_pc s i = A_write cmd t r \<Longrightarrow>
    ApplyCmdToStore (split_leveldb L) P (r, lc_store s) cmd ApplyResult_init = ((r', db'), res) \<Longrightarrow>
    cmd_fits utf8 cmd \<Longrightarrow> index_free cmd \<Longrightarrow> nn64 (m_rev (mvcc_of P (C (lc_store s))) + cmd_cost cmd) \<Longrightarrow>
    local_step L C P utf8 a s (at i (A_broadcast cmd res t (length (lc_log s))
        (if ar_events res = [] then B_idle else B_pending (ar_events res)))
      (s\<lparr>lc_store := db', lc_ev := record_events (lc_ev s) (ar_events res), lc_log := lc_log s @ [(cmd, res)]\<rparr>))"
| lc_copy: "lc_pc s i = A_broadcast cmd res t k (B_pending es) \<Longrightarrow>
    local_step L C P utf8 a s (at i (A_broadcast cmd res t k (B_deliver es (wh_waiters (lc_hub s)))) s)"
| lc_serve: "lc_pc s i = A_broadcast cmd res t k (B_deliver es (w # ws)) \<Longrightarrow>
    local_step L C P utf8 a s (at i (A_broadcast cmd res t k (B_deliver es ws)) (s\<lparr>lc_hub := Broadcast_one es w (lc_hub s)\<rparr>))"
| lc_served: "lc_pc s i = A_broadcast cmd res t k (B_deliver es []) \<Longrightarrow>
    local_step L C P utf8 a s (at i (A_broadcast cmd res t k B_idle) s)"
| lc_release: "lc_pc s i = A_broadcast cmd res t k B_idle \<Longrightarrow>
    local_step L C P utf8 a s (at i (A_return cmd res t k) (s\<lparr>lc_mu := None\<rparr>))"
| lc_return: "lc_pc s i = A_return cmd res t k \<Longrightarrow>
    local_step L C P utf8 a s (at i A_idle (s\<lparr>lc_done := F_apply cmd res t k (length (lc_log s)) # lc_done s\<rparr>))"
| lc_get: "lc_pc s i = A_idle \<Longrightarrow> local_step L C P utf8 a s (at i (G_read key (length (lc_log s))) s)"
| lc_got: "lc_pc s i = G_read key t \<Longrightarrow>
    local_step L C P utf8 a s (at i (G_return key
      (LocalNode_Get L P \<lparr>ln_store = lc_store s, ln_hub = Some (lc_hub s)\<rparr> key ser GetResult_init) t (length (lc_log s))) s)"
| lc_get_return: "lc_pc s i = G_return key r t k \<Longrightarrow>
    local_step L C P utf8 a s (at i A_idle (s\<lparr>lc_done := F_get key r t k (length (lc_log s)) # lc_done s\<rparr>))"
| lc_scan: "lc_pin s = None \<Longrightarrow> local_step L C P utf8 a s (s\<lparr>lc_pin := Some (lc_store s)\<rparr>)"
| lc_compact: "lc_pin s = Some db_it \<Longrightarrow>
    LocalNode_Compaction L P db_it \<lparr>ln_store = lc_store s, ln_hub = Some (lc_hub s)\<rparr> keep = Inr (n', removed) \<Longrightarrow>
    local_step L C P utf8 a s (s\<lparr>lc_store := ln_store n', lc_pin := None\<rparr>)"
| lc_watch: "Watch_step L P a obs (lc_store s) (lc_hub s) (lc_poll s) = (hub', pc') \<Longrightarrow>
    local_step L C P utf8 a s (s\<lparr>lc_hub := hub', lc_poll := pc'\<rparr>)"

inductive_cases local_stepE [consumes 1, case_names call acquire reads writes copy serve served release returns
    get got get_returns scan compact watch]: "local_step L C P utf8 a s s'"

definition local_start :: "('db \<Rightarrow> contents) \<Rightarrow> codec \<Rightarrow> 'db local_sys \<Rightarrow> bool" where
  "local_start C P s \<longleftrightarrow> store_inv P (C (lc_store s)) \<and> lc_pin s = None \<and> lc_mu s = None \<and>
     (\<forall>i. lc_pc s i = A_idle) \<and> lc_log s = [] \<and> lc_done s = []"

lemma at_sel [simp]:
  "lc_store (at i c s) = lc_store s" "lc_pin (at i c s) = lc_pin s" "lc_hub (at i c s) = lc_hub s"
  "lc_poll (at i c s) = lc_poll s" "lc_mu (at i c s) = lc_mu s" "lc_pc (at i c s) = (lc_pc s)(i := c)"
  "lc_ev (at i c s) = lc_ev s" "lc_log (at i c s) = lc_log s" "lc_done (at i c s) = lc_done s"
  by (simp_all add: at_def)

section \<open>The mutex\<close>

fun holds :: "'db caller \<Rightarrow> bool" where
  "holds (A_read _ _) = True"
| "holds (A_write _ _ _) = True"
| "holds (A_broadcast _ _ _ _ _) = True"
| "holds _ = False"

definition lock_ok :: "'db local_sys \<Rightarrow> bool" where
  "lock_ok s \<longleftrightarrow> (\<forall>i. holds (lc_pc s i) \<longleftrightarrow> lc_mu s = Some i)"

lemma lock_okD: "lock_ok s \<Longrightarrow> holds (lc_pc s i) \<longleftrightarrow> lc_mu s = Some i"
  by (simp add: lock_ok_def)

lemma lock_ok_at: "lock_ok s \<Longrightarrow> holds c \<longleftrightarrow> holds (lc_pc s i) \<Longrightarrow> lc_mu s' = lc_mu s \<Longrightarrow> lc_pc s' = lc_pc s \<Longrightarrow>
    lock_ok (at i c s')"
  by (simp add: lock_ok_def)

lemma lock_ok_same: "lock_ok s \<Longrightarrow> lc_mu s' = lc_mu s \<Longrightarrow> lc_pc s' = lc_pc s \<Longrightarrow> lock_ok s'"
  by (simp add: lock_ok_def)

lemma lock_ok_step: "local_step L C P utf8 a s s' \<Longrightarrow> lock_ok s \<Longrightarrow> lock_ok s'"
proof (induction rule: local_step.induct)
  case (lc_acquire s i cmd t)
  then have "\<not> holds (lc_pc s j)" for j by (simp add: lock_okD)
  then show ?case by (simp add: lock_ok_def)
next
  case (lc_release s i cmd res t k)
  then have "lc_mu s = Some i" using lock_okD [of s i] by simp
  with lc_release have "holds (lc_pc s j) \<Longrightarrow> j = i" for j using lock_okD [of s j] by simp
  then show ?case by (auto simp: lock_ok_def)
qed (erule lock_ok_at lock_ok_same; simp)+

lemma lock_owner: "lock_ok s \<Longrightarrow> holds (lc_pc s i) \<Longrightarrow> holds (lc_pc s j) \<Longrightarrow> i = j"
  by (simp add: lock_ok_def)

section \<open>The store under the mutex\<close>

definition reads_ok :: "('db \<Rightarrow> contents) \<Rightarrow> codec \<Rightarrow> 'db local_sys \<Rightarrow> bool" where
  "reads_ok C P s \<longleftrightarrow> (\<forall>i cmd t r. lc_pc s i = A_write cmd t r \<longrightarrow>
     agree (mvcc_of P (C r)) (mvcc_of P (C (lc_store s))))"

definition local_inv :: "('db \<Rightarrow> contents) \<Rightarrow> codec \<Rightarrow> 'db local_sys \<Rightarrow> bool" where
  "local_inv C P s \<longleftrightarrow> lock_ok s \<and> sys_inv C P (lc_store s, lc_pin s) \<and> reads_ok C P s"

lemma local_start_inv: "local_start C P s \<Longrightarrow> local_inv C P s"
  by (simp add: local_start_def local_inv_def lock_ok_def sys_inv_def reads_ok_def)

lemma reads_ok_at:
  assumes "reads_ok C P s" "lc_pc s' = lc_pc s" "lc_store s' = lc_store s"
    and "\<And>cmd t r. c = A_write cmd t r \<Longrightarrow> agree (mvcc_of P (C r)) (mvcc_of P (C (lc_store s)))"
  shows "reads_ok C P (at i c s')"
  using assms by (auto simp: reads_ok_def simp del: mvcc_of_sel)

lemma reads_ok_same: "reads_ok C P s \<Longrightarrow> lc_pc s' = lc_pc s \<Longrightarrow> lc_store s' = lc_store s \<Longrightarrow> reads_ok C P s'"
  by (simp add: reads_ok_def)

context store_env
begin

lemma agree_same_reads: "agree (mvcc_of P (C r)) (mvcc_of P (C w)) \<Longrightarrow> same_reads L P r w"
  by (simp add: same_reads_def CurrentRevision_refines ReadMain_refines agree_def del: mvcc_of_sel)

text \<open>A write does what the command does to the store as it is then.\<close>

lemma write_atomic:
  assumes "reads_ok C P s" "lc_pc s i = A_write cmd t r" "index_free cmd"
    and "ApplyCmdToStore (split_leveldb L) P (r, lc_store s) cmd ApplyResult_init = ((r', db'), res)"
  shows "ApplyCmdToStore L P (lc_store s) cmd ApplyResult_init = (db', res)"
proof -
  have "same_reads L P r (lc_store s)"
    using assms(1,2) unfolding reads_ok_def by (blast intro: agree_same_reads)
  from split_apply [OF this assms(3)] assms(4) show ?thesis by (simp split: prod.splits)
qed

lemma local_inv_write:
  assumes "local_inv C P s" "lc_pc s i = A_write cmd t r"
    and "ApplyCmdToStore (split_leveldb L) P (r, lc_store s) cmd ApplyResult_init = ((r', db'), res)"
    and "cmd_fits utf8 cmd" "index_free cmd" "nn64 (m_rev (mvcc_of P (C (lc_store s))) + cmd_cost cmd)"
  shows "sys_inv C P (db', lc_pin s)" "j \<noteq> i \<Longrightarrow> lc_pc s j \<noteq> A_write cmd' t' r''"
proof -
  have "ApplyCmdToStore L P (lc_store s) cmd ApplyResult_init = (db', res)"
    using assms(1-3,5) write_atomic by (simp add: local_inv_def)
  note ap = assms(4,6) this
  have inv: "store_inv P (C (lc_store s))" using assms(1) by (simp add: local_inv_def sys_inv_def)
  from assms(1) apply_keeps_inv [OF inv ap] apply_grows [OF inv ap] main_mono_trans show "sys_inv C P (db', lc_pin s)"
    unfolding local_inv_def sys_inv_def grows_def by auto
  have "lock_ok s" using assms(1) by (simp add: local_inv_def)
  from lock_owner [OF this, of i j] assms(2) show "j \<noteq> i \<Longrightarrow> lc_pc s j \<noteq> A_write cmd' t' r''" by auto
qed

lemma local_inv_compact:
  assumes "local_inv C P s" "lc_pin s = Some db_it" "CompactionLocked L P db_it (lc_store s) keep = Inr (db', removed)"
  shows "sys_inv C P (db', None)" "agree (mvcc_of P (C (lc_store s))) (mvcc_of P (C db'))"
proof -
  have "store_inv P (C db_it)" "store_inv P (C (lc_store s))" "main_mono (mvcc_of P (C db_it)) (mvcc_of P (C (lc_store s)))"
    using assms(1,2) by (simp_all add: local_inv_def sys_inv_def)
  note ck = compaction_keeps [OF this assms(3)]
  show "sys_inv C P (db', None)" "agree (mvcc_of P (C (lc_store s))) (mvcc_of P (C db'))"
    using ck(1,3) by (simp_all add: sys_inv_def)
qed

lemma compaction_of_node:
  assumes "LocalNode_Compaction L P db_it \<lparr>ln_store = db, ln_hub = h\<rparr> keep = Inr (n', removed)"
  shows "CompactionLocked L P db_it db keep = Inr (ln_store n', removed)"
  using assms by (auto simp: LocalNode_Compaction_def split: sum.splits)

lemma local_inv_step:
  assumes "local_step L C P utf8 a s s'" and inv: "local_inv C P s"
  shows "local_inv C P s'"
proof -
  have lk: "lock_ok s'" using lock_ok_step [OF assms(1)] inv by (simp add: local_inv_def)
  have si: "sys_inv C P (lc_store s, lc_pin s)" and rd: "reads_ok C P s" using inv by (simp_all add: local_inv_def)
  from assms(1) have "sys_inv C P (lc_store s', lc_pin s') \<and> reads_ok C P s'"
  proof (cases rule: local_stepE)
    case (writes i cmd t r r' db' res)
    have "nn64 (m_rev (mvcc_of P (C (lc_store s))) + cmd_cost cmd)" using writes(6) by simp
    from local_inv_write [OF inv writes(2-5) this] show ?thesis by (auto simp: writes(1) reads_ok_def)
  next
    case (scan)
    with si rd show ?thesis by (auto simp: sys_inv_def intro: reads_ok_same)
  next
    case (compact db_it keep n' removed)
    note c = local_inv_compact [OF inv compact(2) compaction_of_node [OF compact(3)]]
    from rd c(2) have "reads_ok C P s'" unfolding compact(1) reads_ok_def by simp (blast intro: agree_trans)
    with c(1) show ?thesis by (simp add: compact(1))
  next
    case (watch obs hub' pc')
    with si rd show ?thesis by (auto intro: reads_ok_same)
  qed (use si in \<open>auto intro!: reads_ok_at [OF rd]\<close>)
  with lk show ?thesis by (simp add: local_inv_def)
qed

lemma local_inv_steps:
  "(local_step L C P utf8 a)\<^sup>*\<^sup>* s s' \<Longrightarrow> local_inv C P s \<Longrightarrow> local_inv C P s'"
  by (induction rule: rtranclp_induct) (auto dest: local_inv_step)

end

section \<open>Refinement of the watch system\<close>

text \<open>The broadcast under way is the one of the thread that holds the mutex.\<close>

fun bcast_of :: "'db caller \<Rightarrow> bcast" where
  "bcast_of (A_broadcast _ _ _ _ b) = b"
| "bcast_of _ = B_idle"

definition watch_view :: "'db local_sys \<Rightarrow> 'db watch_sys" where
  "watch_view s = \<lparr>ws_db = lc_store s, ws_pin = lc_pin s, ws_hub = lc_hub s,
     ws_bc = (case lc_mu s of None \<Rightarrow> B_idle | Some i \<Rightarrow> bcast_of (lc_pc s i)), ws_pc = lc_poll s, ws_ev = lc_ev s\<rparr>"

lemma watch_view_bc:
  "lock_ok s \<Longrightarrow> lc_pc s i = A_broadcast cmd res t k b \<Longrightarrow> lc_mu s = Some i \<and> ws_bc (watch_view s) = b"
  "lock_ok s \<Longrightarrow> lc_pc s i = A_write cmd t r \<Longrightarrow> lc_mu s = Some i \<and> ws_bc (watch_view s) = B_idle"
  "lock_ok s \<Longrightarrow> lc_pc s i = A_read cmd t \<Longrightarrow> lc_mu s = Some i \<and> ws_bc (watch_view s) = B_idle"
  using lock_okD [of s i] by (auto simp: watch_view_def)

lemma watch_view_sel [simp]:
  "ws_db (watch_view s) = lc_store s" "ws_pin (watch_view s) = lc_pin s" "ws_hub (watch_view s) = lc_hub s"
  "ws_pc (watch_view s) = lc_poll s" "ws_ev (watch_view s) = lc_ev s"
  by (simp_all add: watch_view_def)

lemma watch_view_updates:
  "watch_view (s\<lparr>lc_pin := p\<rparr>) = (watch_view s)\<lparr>ws_pin := p\<rparr>"
  "watch_view (s\<lparr>lc_store := db\<rparr>) = (watch_view s)\<lparr>ws_db := db\<rparr>"
  "watch_view (s\<lparr>lc_hub := h, lc_poll := pc\<rparr>) = (watch_view s)\<lparr>ws_hub := h, ws_pc := pc\<rparr>"
  by (simp_all add: watch_view_def split: option.split)

text \<open>A thread that neither holds the mutex nor takes it moves unseen.\<close>

lemma watch_view_unseen:
  assumes "lock_ok s" "\<not> holds (lc_pc s i)"
  shows "watch_view (at i c s) = watch_view s" "watch_view (at i c (s\<lparr>lc_done := d\<rparr>)) = watch_view s"
  using assms lock_okD [OF assms(1), of i] by (auto simp: watch_view_def split: option.split)

context store_env
begin

lemma local_step_watch:
  assumes "local_step L C P utf8 a s s'" and inv: "local_inv C P s"
  shows "watch_view s' = watch_view s \<or> watch_sys_step L C P utf8 a (watch_view s) (watch_view s')"
proof -
  have lk: "lock_ok s" and rd: "reads_ok C P s" using inv by (simp_all add: local_inv_def)
  from assms(1) show ?thesis
  proof (cases rule: local_stepE)
    case (acquire i cmd t)
    then show ?thesis by (simp add: watch_view_def)
  next
    case (reads i cmd t)
    then show ?thesis using watch_view_bc(3) [OF lk reads(2)] by (simp add: watch_view_def)
  next
    case (writes i cmd t r r' db' res)
    note bc = watch_view_bc(2) [OF lk writes(2)]
    have nn: "nn64 (m_rev (mvcc_of P (C (lc_store s))) + cmd_cost cmd)" using writes(6) by simp
    have ap: "ApplyCmdToStore L P (lc_store s) cmd ApplyResult_init = (db', res)"
      by (rule write_atomic [OF rd writes(2,5,3)])
    have "watch_view s' = (watch_view s)\<lparr>ws_db := db', ws_bc := (if ar_events res = [] then B_idle
        else B_pending (ar_events res)), ws_ev := record_events (lc_ev s) (ar_events res)\<rparr>"
      using bc by (simp add: writes(1) watch_view_def)
    with sys_apply [of "watch_view s" L P cmd db' res utf8 C a] bc ap writes(4) nn show ?thesis by simp
  next
    case (copy i cmd res t k es)
    note bc = watch_view_bc(1) [OF lk copy(2)]
    then have "watch_view s' = (watch_view s)\<lparr>ws_bc := B_deliver es (wh_waiters (lc_hub s))\<rparr>"
      by (simp add: copy(1) watch_view_def)
    with sys_copy [of "watch_view s" es L C P utf8 a] bc show ?thesis by simp
  next
    case (serve i cmd res t k es w ws)
    note bc = watch_view_bc(1) [OF lk serve(2)]
    then have "watch_view s' = (watch_view s)\<lparr>ws_hub := Broadcast_one es w (lc_hub s), ws_bc := B_deliver es ws\<rparr>"
      by (simp add: serve(1) watch_view_def)
    with sys_serve [of "watch_view s" es w ws L C P utf8 a] bc show ?thesis by simp
  next
    case (served i cmd res t k es)
    note bc = watch_view_bc(1) [OF lk served(2)]
    then have "watch_view s' = (watch_view s)\<lparr>ws_bc := B_idle\<rparr>" by (simp add: served(1) watch_view_def)
    with sys_done [of "watch_view s" es L C P utf8 a] bc show ?thesis by simp
  next
    case (release i cmd res t k)
    note bc = watch_view_bc(1) [OF lk release(2)]
    then show ?thesis by (simp add: release watch_view_def)
  next
    case scan
    with sys_scan [of "watch_view s" L C P utf8 a] show ?thesis by (simp add: watch_view_updates)
  next
    case (compact db_it keep n' removed)
    from sys_compact [of "watch_view s" db_it L P keep "ln_store n'" removed C utf8 a] compact(2)
      compaction_of_node [OF compact(3)]
    show ?thesis by (simp add: compact(1) watch_view_updates)
  next
    case (watch obs hub' pc')
    with sys_watch [of L P a obs "watch_view s" hub' pc' C utf8] show ?thesis by (simp add: watch_view_updates)
  qed (simp_all add: watch_view_unseen [OF lk])
qed

lemma local_steps_watch:
  assumes "(local_step L C P utf8 a)\<^sup>*\<^sup>* s s'" "local_inv C P s"
  shows "(watch_sys_step L C P utf8 a)\<^sup>*\<^sup>* (watch_view s) (watch_view s')"
  using assms(1)
proof (induction rule: rtranclp_induct)
  case (step s1 s2)
  from local_step_watch [OF step(2) local_inv_steps [OF step(1) assms(2)]] step.IH show ?case
    by (auto intro: rtranclp.rtrancl_into_rtrancl)
qed simp

end

section \<open>Linearization\<close>

text \<open>
  The state of the abstract store after a log of commands with their results: a command whose write
  LevelDB refused, which answers INTERNAL, changes nothing.
\<close>

definition seq_step :: "mvcc \<Rightarrow> RaftCmd \<times> ApplyResult \<Rightarrow> mvcc" where
  "seq_step m e = (if ar_code (snd e) = INTERNAL then m else fst (s_apply m (fst e)))"

definition seq_state :: "mvcc \<Rightarrow> (RaftCmd \<times> ApplyResult) list \<Rightarrow> mvcc" where
  "seq_state m log = foldl seq_step m log"

definition legal_entry :: "mvcc \<Rightarrow> RaftCmd \<times> ApplyResult \<Rightarrow> bool" where
  "legal_entry m e \<longleftrightarrow> snd e = snd (s_apply m (fst e)) \<or> ar_code (snd e) = INTERNAL \<and> ar_events (snd e) = []"

definition legal_log :: "mvcc \<Rightarrow> (RaftCmd \<times> ApplyResult) list \<Rightarrow> bool" where
  "legal_log m log \<longleftrightarrow> (\<forall>k < length log. legal_entry (seq_state m (take k log)) (log ! k))"

text \<open>A call takes effect between its beginning and its end.\<close>

definition apply_point :: "(RaftCmd \<times> ApplyResult) list \<Rightarrow> RaftCmd \<Rightarrow> ApplyResult \<Rightarrow> nat \<Rightarrow> nat \<Rightarrow> bool" where
  "apply_point log cmd res t k \<longleftrightarrow> t \<le> k \<and> k < length log \<and> log ! k = (cmd, res)"

definition get_point :: "mvcc \<Rightarrow> (RaftCmd \<times> ApplyResult) list \<Rightarrow> string \<Rightarrow> GetResult \<Rightarrow> nat \<Rightarrow> nat \<Rightarrow> bool" where
  "get_point m log key r t k \<longleftrightarrow> t \<le> k \<and> k \<le> length log \<and>
     r = answer_get (case s_get (seq_state m (take k log)) key of None \<Rightarrow> (None, KEY_NOT_FOUND)
       | Some kv \<Rightarrow> (Some kv, OK)) GetResult_init"

fun finished_ok :: "mvcc \<Rightarrow> (RaftCmd \<times> ApplyResult) list \<Rightarrow> finished \<Rightarrow> bool" where
  "finished_ok m log (F_apply cmd res t k t') \<longleftrightarrow> apply_point (take t' log) cmd res t k \<and> t' \<le> length log"
| "finished_ok m log (F_get key r t k t') \<longleftrightarrow> get_point m (take t' log) key r t k \<and> t' \<le> length log"

fun caller_ok :: "mvcc \<Rightarrow> (RaftCmd \<times> ApplyResult) list \<Rightarrow> 'db caller \<Rightarrow> bool" where
  "caller_ok m log A_idle \<longleftrightarrow> True"
| "caller_ok m log (A_lock cmd t) \<longleftrightarrow> t \<le> length log"
| "caller_ok m log (A_read cmd t) \<longleftrightarrow> t \<le> length log"
| "caller_ok m log (A_write cmd t r) \<longleftrightarrow> t \<le> length log"
| "caller_ok m log (A_broadcast cmd res t k b) \<longleftrightarrow> apply_point log cmd res t k"
| "caller_ok m log (A_return cmd res t k) \<longleftrightarrow> apply_point log cmd res t k"
| "caller_ok m log (G_read key t) \<longleftrightarrow> t \<le> length log"
| "caller_ok m log (G_return key r t k) \<longleftrightarrow> get_point m log key r t k"

definition lin_inv :: "('db \<Rightarrow> contents) \<Rightarrow> codec \<Rightarrow> mvcc \<Rightarrow> 'db local_sys \<Rightarrow> bool" where
  "lin_inv C P m s \<longleftrightarrow> agree (mvcc_of P (C (lc_store s))) (seq_state m (lc_log s)) \<and> legal_log m (lc_log s) \<and>
     (\<forall>i. caller_ok m (lc_log s) (lc_pc s i)) \<and> (\<forall>f \<in> set (lc_done s). finished_ok m (lc_log s) f)"

lemma seq_state_simps [simp]:
  "seq_state m [] = m" "seq_state m (log @ [e]) = seq_step (seq_state m log) e"
  by (simp_all add: seq_state_def)

lemma points_append:
  "apply_point log cmd res t k \<Longrightarrow> apply_point (log @ [e]) cmd res t k"
  "get_point m log key r t k \<Longrightarrow> get_point m (log @ [e]) key r t k"
  by (auto simp: apply_point_def get_point_def nth_append)

lemma caller_ok_append: "caller_ok m log c \<Longrightarrow> caller_ok m (log @ [e]) c"
  by (cases c) (auto simp: points_append)

lemma finished_ok_append: "finished_ok m log f \<Longrightarrow> finished_ok m (log @ [e]) f"
  by (cases f) auto

lemma legal_log_snoc: "legal_log m (log @ [e]) \<longleftrightarrow> legal_log m log \<and> legal_entry (seq_state m log) e"
  by (auto simp: legal_log_def nth_append less_Suc_eq)

lemma lin_inv_at:
  assumes "lin_inv C P m s" "caller_ok m (lc_log s) c" "\<forall>f \<in> set d. finished_ok m (lc_log s) f"
    and "lc_store s' = lc_store s" "lc_log s' = lc_log s" "lc_pc s' = lc_pc s" "lc_done s' = d @ lc_done s"
  shows "lin_inv C P m (at i c s')"
  using assms by (auto simp: lin_inv_def)

lemma lin_inv_move:
  assumes "lin_inv C P m s" "caller_ok m (lc_log s) (lc_pc s i) \<Longrightarrow> caller_ok m (lc_log s) c"
    and "lc_store s' = lc_store s" "lc_log s' = lc_log s" "lc_pc s' = lc_pc s" "lc_done s' = lc_done s"
  shows "lin_inv C P m (at i c s')"
  by (rule lin_inv_at [OF assms(1), where d = "[]"]) (use assms in \<open>simp_all add: lin_inv_def\<close>)

lemma s_apply_internal: "ar_code (snd (s_apply m cmd)) = INTERNAL \<Longrightarrow> fst (s_apply m cmd) = m"
  by (cases cmd) (auto simp: s_ok_def s_fail_def ApplyResult_init_def Let_def case_prod_beta split: option.splits if_splits)

context store_env
begin

text \<open>A write adds a legal entry.\<close>

lemma write_legal:
  assumes "store_inv P (C db)" "cmd_fits utf8 cmd" "nn64 (m_rev (mvcc_of P (C db)) + cmd_cost cmd)"
    and "ApplyCmdToStore L P db cmd ApplyResult_init = (db', res)" "index_free cmd" "agree (mvcc_of P (C db)) m"
  shows "legal_entry m (cmd, res) \<and> agree (mvcc_of P (C db')) (seq_step m (cmd, res))"
proof -
  have "cmd_done C P db cmd db' res \<or> cmd_refused L db db' res" by (rule apply_refines [OF assms(1-4)])
  then show ?thesis
  proof
    assume "cmd_done C P db cmd db' res"
    then have sp: "s_apply (mvcc_of P (C db)) cmd = (mvcc_of P (C db'), res)" by (simp add: cmd_done_def)
    then have "res = snd (s_apply m cmd)" "agree (mvcc_of P (C db')) (fst (s_apply m cmd))"
      using agree_apply [OF assms(6,5)] by simp_all
    then show ?thesis using s_apply_internal [of m cmd] by (auto simp: legal_entry_def seq_step_def)
  next
    assume "cmd_refused L db db' res"
    then show ?thesis
      using refused_unchanged [of db db' res] assms(6) by (auto simp: cmd_refused_def legal_entry_def seq_step_def)
  qed
qed

lemma lin_inv_write:
  assumes "local_inv C P s" "lin_inv C P m s" "lc_pc s i = A_write cmd t r"
    and "ApplyCmdToStore (split_leveldb L) P (r, lc_store s) cmd ApplyResult_init = ((r', db'), res)"
    and "cmd_fits utf8 cmd" "index_free cmd" "nn64 (m_rev (mvcc_of P (C (lc_store s))) + cmd_cost cmd)"
  shows "lin_inv C P m (at i (A_broadcast cmd res t (length (lc_log s)) b)
    (s\<lparr>lc_store := db', lc_ev := ev, lc_log := lc_log s @ [(cmd, res)]\<rparr>))"
proof -
  have ap: "ApplyCmdToStore L P (lc_store s) cmd ApplyResult_init = (db', res)"
    using assms(1,3,4,6) write_atomic by (simp add: local_inv_def)
  have "store_inv P (C (lc_store s))" using assms(1) by (simp add: local_inv_def sys_inv_def)
  with write_legal [OF this assms(5,7) ap assms(6)] assms(2)
  have "legal_entry (seq_state m (lc_log s)) (cmd, res)"
    "agree (mvcc_of P (C db')) (seq_state m (lc_log s @ [(cmd, res)]))" by (simp_all add: lin_inv_def)
  moreover have "t \<le> length (lc_log s)" using assms(2,3) unfolding lin_inv_def by (metis caller_ok.simps(4))
  ultimately show ?thesis
    using assms(2) by (auto simp: lin_inv_def legal_log_snoc caller_ok_append finished_ok_append apply_point_def)
qed

lemma get_point_now:
  assumes "lin_inv C P m s" "lc_pc s i = G_read key t"
  shows "get_point m (lc_log s) key (LocalNode_Get L P \<lparr>ln_store = lc_store s, ln_hub = h\<rparr> key ser GetResult_init) t
    (length (lc_log s))"
proof -
  have "agree (mvcc_of P (C (lc_store s))) (seq_state m (lc_log s))" using assms(1) by (simp add: lin_inv_def)
  from agree_reads(3) [OF this, of key] Get_refines [of "lc_store s" key]
  have "GetLocked L P (lc_store s) key = (case s_get (seq_state m (lc_log s)) key of None \<Rightarrow> (None, KEY_NOT_FOUND)
      | Some kv \<Rightarrow> (Some kv, OK))" by simp
  moreover have "t \<le> length (lc_log s)" using assms unfolding lin_inv_def by (metis caller_ok.simps(7))
  ultimately show ?thesis by (simp add: get_point_def LocalNode_Get_def)
qed

lemma lin_inv_step:
  assumes "local_step L C P utf8 a s s'" and inv: "local_inv C P s" and lin: "lin_inv C P m s"
  shows "lin_inv C P m s'"
proof -
  have pc: "caller_ok m (lc_log s) (lc_pc s i)" for i using lin by (simp add: lin_inv_def)
  from assms(1) show ?thesis
  proof (cases rule: local_stepE)
    case (writes i cmd t r r' db' res)
    have "nn64 (m_rev (mvcc_of P (C (lc_store s))) + cmd_cost cmd)" using writes(6) by simp
    from lin_inv_write [OF inv lin writes(2-5) this] show ?thesis by (simp add: writes(1))
  next
    case (returns i cmd res t k)
    show ?thesis unfolding returns(1)
      by (rule lin_inv_at [OF lin, where d = "[F_apply cmd res t k (length (lc_log s))]"]) (use pc [of i] returns(2) in simp_all)
  next
    case (got i key t ser)
    show ?thesis unfolding got(1)
      by (rule lin_inv_at [OF lin, where d = "[]"]) (use get_point_now [OF lin got(2)] in simp_all)
  next
    case (get_returns i key r t k)
    show ?thesis unfolding get_returns(1)
      by (rule lin_inv_at [OF lin, where d = "[F_get key r t k (length (lc_log s))]"]) (use pc [of i] get_returns(2) in simp_all)
  next
    case (compact db_it keep n' removed)
    from local_inv_compact(2) [OF inv compact(2) compaction_of_node [OF compact(3)]] lin show ?thesis
      unfolding compact(1) lin_inv_def by simp (metis agree_sym agree_trans)
  next
    case scan
    with lin show ?thesis by (simp add: lin_inv_def)
  next
    case (watch obs hub' pc')
    with lin show ?thesis by (simp add: lin_inv_def)
  qed (auto intro!: lin_inv_move [OF lin])
qed

lemma lin_inv_steps:
  assumes "(local_step L C P utf8 a)\<^sup>*\<^sup>* s s'" "local_inv C P s" "lin_inv C P m s"
  shows "lin_inv C P m s'"
  using assms(1,3)
proof (induction rule: rtranclp_induct)
  case (step s1 s2)
  from lin_inv_step [OF step(2) local_inv_steps [OF step(1) assms(2)]] step(3,4) show ?case by blast
qed

end

lemma local_start_lin: "local_start C P s \<Longrightarrow> lin_inv C P (mvcc_of P (C (lc_store s))) s"
  by (simp add: local_start_def lin_inv_def legal_log_def)

text \<open>Every entry of the log belongs to one call only.\<close>

fun place :: "'db caller \<Rightarrow> nat option" where
  "place (A_broadcast _ _ _ k _) = Some k"
| "place (A_return _ _ _ k) = Some k"
| "place _ = None"

fun done_place :: "finished \<Rightarrow> nat option" where
  "done_place (F_apply _ _ _ k _) = Some k"
| "done_place (F_get _ _ _ _ _) = None"

definition places_ok :: "'db local_sys \<Rightarrow> bool" where
  "places_ok s \<longleftrightarrow> distinct (List.map_filter done_place (lc_done s)) \<and>
     (\<forall>k \<in> set (List.map_filter done_place (lc_done s)). k < length (lc_log s)) \<and>
     (\<forall>i k. place (lc_pc s i) = Some k \<longrightarrow> k < length (lc_log s) \<and> k \<notin> set (List.map_filter done_place (lc_done s)) \<and>
       (\<forall>j. place (lc_pc s j) = Some k \<longrightarrow> j = i))"

lemma places_ok_same:
  assumes "places_ok s" "\<And>j. place (lc_pc s' j) = place (lc_pc s j)" "lc_done s' = lc_done s" "lc_log s' = lc_log s"
  shows "places_ok s'"
  using assms by (simp add: places_ok_def)

lemma places_ok_step: "local_step L C P utf8 a s s' \<Longrightarrow> places_ok s \<Longrightarrow> places_ok s'"
proof (induction rule: local_step.induct)
  case (lc_write s i cmd t r r' db' res)
  have "place (lc_pc s i) = None" using lc_write by simp
  with lc_write(6) show ?case by (fastforce simp: places_ok_def less_Suc_eq)
next
  case (lc_return s i cmd res t k)
  then have k: "place (lc_pc s i) = Some k" by simp
  with lc_return(2) have "k < length (lc_log s)" "k \<notin> set (List.map_filter done_place (lc_done s))"
      "\<And>j. j \<noteq> i \<Longrightarrow> place (lc_pc s j) \<noteq> Some k" unfolding places_ok_def by blast+
  with lc_return(2) show ?case by (auto simp: places_ok_def map_filter_simps)
next
  case (lc_get_return s i key r t k)
  then show ?case by (auto simp: places_ok_def map_filter_simps)
qed (erule places_ok_same; simp)+

lemma places_ok_steps: "(local_step L C P utf8 a)\<^sup>*\<^sup>* s s' \<Longrightarrow> places_ok s \<Longrightarrow> places_ok s'"
  by (induction rule: rtranclp_induct) (auto dest: places_ok_step)

text \<open>The events of a legal log carry every revision once, in order.\<close>

lemma legal_log_events:
  "legal_log m log \<Longrightarrow> concat (map (\<lambda>e. map ev_revision (ar_events (snd e))) log) = [m_rev m + 1..m_rev (seq_state m log)] \<and>
    m_rev m \<le> m_rev (seq_state m log)"
proof (induction log rule: rev_induct)
  case (snoc e log)
  let ?m = "seq_state m log"
  have ih: "concat (map (\<lambda>e. map ev_revision (ar_events (snd e))) log) = [m_rev m + 1..m_rev ?m]" "m_rev m \<le> m_rev ?m"
    and le: "legal_entry ?m e" using snoc by (simp_all add: legal_log_snoc)
  have "map ev_revision (ar_events (snd e)) = [m_rev ?m + 1..m_rev (seq_step ?m e)] \<and> m_rev ?m \<le> m_rev (seq_step ?m e)"
    using le s_apply_revisions [of ?m "fst e"] s_apply_rev_bounds(1) [of ?m "fst e"] s_apply_internal [of ?m "fst e"]
    by (auto simp: legal_entry_def seq_step_def)
  with ih upto_split3 [of "m_rev m" "m_rev ?m" "m_rev (seq_step ?m e)"] show ?case by simp
qed simp

section \<open>Schedules\<close>

text \<open>The next step of a thread inside a call, and whether it can be taken now.\<close>

definition advance :: "'db leveldb \<Rightarrow> codec \<Rightarrow> nat \<Rightarrow> 'db local_sys \<Rightarrow> 'db local_sys" where
  "advance L P i s = (case lc_pc s i of
     A_idle \<Rightarrow> s
   | A_lock cmd t \<Rightarrow> at i (A_read cmd t) (s\<lparr>lc_mu := Some i\<rparr>)
   | A_read cmd t \<Rightarrow> at i (A_write cmd t (lc_store s)) s
   | A_write cmd t r \<Rightarrow>
       (case ApplyCmdToStore (split_leveldb L) P (r, lc_store s) cmd ApplyResult_init of ((r', db'), res) \<Rightarrow>
          at i (A_broadcast cmd res t (length (lc_log s)) (if ar_events res = [] then B_idle else B_pending (ar_events res)))
            (s\<lparr>lc_store := db', lc_ev := record_events (lc_ev s) (ar_events res), lc_log := lc_log s @ [(cmd, res)]\<rparr>))
   | A_broadcast cmd res t k b \<Rightarrow>
       (case b of
          B_pending es \<Rightarrow> at i (A_broadcast cmd res t k (B_deliver es (wh_waiters (lc_hub s)))) s
        | B_deliver es (w # ws) \<Rightarrow> at i (A_broadcast cmd res t k (B_deliver es ws)) (s\<lparr>lc_hub := Broadcast_one es w (lc_hub s)\<rparr>)
        | B_deliver es [] \<Rightarrow> at i (A_broadcast cmd res t k B_idle) s
        | B_idle \<Rightarrow> at i (A_return cmd res t k) (s\<lparr>lc_mu := None\<rparr>))
   | A_return cmd res t k \<Rightarrow> at i A_idle (s\<lparr>lc_done := F_apply cmd res t k (length (lc_log s)) # lc_done s\<rparr>)
   | G_read key t \<Rightarrow> at i (G_return key (LocalNode_Get L P \<lparr>ln_store = lc_store s, ln_hub = Some (lc_hub s)\<rparr> key False
       GetResult_init) t (length (lc_log s))) s
   | G_return key r t k \<Rightarrow> at i A_idle (s\<lparr>lc_done := F_get key r t k (length (lc_log s)) # lc_done s\<rparr>))"

definition can_advance :: "('db \<Rightarrow> contents) \<Rightarrow> codec \<Rightarrow> (string \<Rightarrow> bool) \<Rightarrow> nat \<Rightarrow> 'db local_sys \<Rightarrow> bool" where
  "can_advance C P utf8 i s \<longleftrightarrow> (case lc_pc s i of
     A_idle \<Rightarrow> False
   | A_lock _ _ \<Rightarrow> lc_mu s = None
   | A_write cmd _ _ \<Rightarrow> cmd_fits utf8 cmd \<and> index_free cmd \<and> nn64 (m_rev (mvcc_of P (C (lc_store s))) + cmd_cost cmd)
   | _ \<Rightarrow> True)"

lemma advance_step:
  assumes "can_advance C P utf8 i s"
  shows "local_step L C P utf8 a s (advance L P i s)"
proof (cases "lc_pc s i")
  case (A_write cmd t r)
  obtain r' db' res where "ApplyCmdToStore (split_leveldb L) P (r, lc_store s) cmd ApplyResult_init = ((r', db'), res)"
    by (metis prod.exhaust)
  from lc_write [OF A_write this] assms this show ?thesis by (simp add: can_advance_def advance_def A_write)
next
  case (A_broadcast cmd res t k b)
  show ?thesis
  proof (cases b)
    case (B_deliver es ws)
    with A_broadcast show ?thesis by (cases ws) (auto simp: advance_def intro: lc_serve lc_served)
  qed (use A_broadcast in \<open>auto simp: advance_def intro: lc_release lc_copy\<close>)
qed (use assms in \<open>auto simp: can_advance_def advance_def intro: lc_acquire lc_read lc_return lc_got lc_get_return\<close>)

fun run_schedule :: "'db leveldb \<Rightarrow> ('db \<Rightarrow> contents) \<Rightarrow> codec \<Rightarrow> (string \<Rightarrow> bool) \<Rightarrow> nat list \<Rightarrow> 'db local_sys \<Rightarrow> 'db local_sys option" where
  "run_schedule L C P utf8 [] s = Some s"
| "run_schedule L C P utf8 (i # is) s =
    (if can_advance C P utf8 i s then run_schedule L C P utf8 is (advance L P i s) else None)"

lemma run_schedule_steps: "run_schedule L C P utf8 is s = Some s' \<Longrightarrow> (local_step L C P utf8 a)\<^sup>*\<^sup>* s s'"
  by (induction "is" arbitrary: s) (auto split: if_splits intro: converse_rtranclp_into_rtranclp advance_step)

text \<open>Two puts and a read that overlap: thread 1 waits for the mutex while thread 0 writes, and thread 2 reads in between.\<close>

definition quiet_node :: "mem_db local_sys" where
  "quiet_node = \<lparr>lc_store = [], lc_pin = None, lc_hub = WatchHub_init 2, lc_poll = W_quick, lc_mu = None,
     lc_pc = (\<lambda>_. A_idle), lc_ev = Map.empty, lc_log = [], lc_done = []\<rparr>"

definition three_calls :: "mem_db local_sys" where
  "three_calls = at 2 (G_read ''a'' 0) (at 1 (A_lock (Cmd_put ''b'' ''2'') 0) (at 0 (A_lock (Cmd_put ''a'' ''1'') 0) quiet_node))"

abbreviation mem_schedule :: "nat list \<Rightarrow> mem_db local_sys option" where
  "mem_schedule is \<equiv> run_schedule mem_leveldb map_of ref_codec (\<lambda>_. True) is three_calls"

definition three_done :: "mem_db local_sys" where
  "three_done = the (mem_schedule ([0, 0, 0, 2] @ [0, 0, 0, 2, 0] @ [1, 1, 1, 1, 1, 1, 1]))"

lemma quiet_start: "local_start map_of ref_codec quiet_node"
  by (simp add: local_start_def quiet_node_def store_inv_empty)

lemma three_calls_done: "(local_step mem_leveldb map_of ref_codec (\<lambda>_. True) a)\<^sup>*\<^sup>* quiet_node three_done"
proof -
  let ?step = "local_step mem_leveldb map_of ref_codec (\<lambda>_. True) a"
  have "?step\<^sup>*\<^sup>* quiet_node (at 0 (A_lock (Cmd_put ''a'' ''1'') 0) quiet_node)"
    using lc_call [of quiet_node 0] by (auto simp: quiet_node_def)
  also have "?step (at 0 (A_lock (Cmd_put ''a'' ''1'') 0) quiet_node)
      (at 1 (A_lock (Cmd_put ''b'' ''2'') 0) (at 0 (A_lock (Cmd_put ''a'' ''1'') 0) quiet_node))"
    using lc_call [of "at 0 (A_lock (Cmd_put ''a'' ''1'') 0) quiet_node" 1] by (simp add: quiet_node_def)
  also have "?step (at 1 (A_lock (Cmd_put ''b'' ''2'') 0) (at 0 (A_lock (Cmd_put ''a'' ''1'') 0) quiet_node)) three_calls"
    using lc_get [of "at 1 (A_lock (Cmd_put ''b'' ''2'') 0) (at 0 (A_lock (Cmd_put ''a'' ''1'') 0) quiet_node)" 2]
    by (simp add: quiet_node_def three_calls_def)
  also have "?step\<^sup>*\<^sup>* three_calls three_done"
  proof (rule run_schedule_steps)
    have "mem_schedule ([0, 0, 0, 2] @ [0, 0, 0, 2, 0] @ [1, 1, 1, 1, 1, 1, 1]) \<noteq> None" by code_simp
    then show "mem_schedule ([0, 0, 0, 2] @ [0, 0, 0, 2, 0] @ [1, 1, 1, 1, 1, 1, 1]) = Some three_done"
      by (auto simp: three_done_def)
  qed
  finally show ?thesis .
qed

section \<open>Properties\<close>





text \<open>
  The mutex is what this rests on: with their reads before either write, two puts get the same
  revision, both answer OK, and the store counts one.
\<close>

lemma unlocked_writes_collide:
  "let L = split_leveldb mem_leveldb;
       ((_, db1), res1) = ApplyCmdToStore L ref_codec ([], []) (Cmd_put ''a'' ''1'') ApplyResult_init;
       ((_, db2), res2) = ApplyCmdToStore L ref_codec ([], db1) (Cmd_put ''b'' ''2'') ApplyResult_init
   in ar_code res1 = OK \<and> ar_code res2 = OK \<and> map ev_revision (ar_events res1 @ ar_events res2) = [1, 1] \<and>
      CurrentRevisionLocked mem_leveldb db2 = 1"
  by code_simp



end
