(* ===== verification/StoreLock.thy ===== *)
theory StoreLock
  imports LocalSystem
begin

text \<open>
  The shared mutex of the store (db_mu_ of src/src/store/store.h): every public method holds it
  shared while it uses the database, Close holds it exclusively, and LoadSnapshot while it closes the database,
  removes its directory, opens it again and writes the snapshot.  The steps of all these calls
  interleave; what the lock is for is that no call works on a database that has been closed,
  and that the rebuilding is one step for everybody else.
\<close>

section \<open>Calls\<close>

text \<open>A call that reads, one that reads and then writes, one that keeps an iterator open and then writes, and an export.\<close>

datatype store_call = Q_get string | Q_apply RaftCmd | Q_compact int | Q_export

text \<open>
  What a call leaves of the database: \<open>r\<close> is the state its reads or its iterator come from, \<open>db\<close>
  the state it writes to.
\<close>

fun call_effect :: "'db leveldb \<Rightarrow> codec \<Rightarrow> store_call \<Rightarrow> 'db \<Rightarrow> 'db \<Rightarrow> 'db" where
  "call_effect L P (Q_get key) r db = db"
| "call_effect L P (Q_apply cmd) r db = snd (fst (ApplyCmdToStore (split_leveldb L) P (r, db) cmd ApplyResult_init))"
| "call_effect L P (Q_compact keep) r db = (case CompactionLocked L P r db keep of Inl e \<Rightarrow> db | Inr (db', removed) \<Rightarrow> db')"
| "call_effect L P Q_export r db = db"

text \<open>
  A thread: outside; waiting for the lock; inside, before or after its reads, with the number of the
  database object they come from; stopped at a null pointer.  The loading thread: waiting, with the lock,
  after the reset, after the removal, after the opening; left by an exception.  The store
  and the file system it began with are for stating the theorems.
\<close>

datatype ('db, 'fs) store_pc = S_idle | S_wait store_call | S_in store_call "('db \<times> nat) option" | S_null
  | X_wait SnapshotData | X_locked SnapshotData "'db Store" 'fs | X_reset SnapshotData "'db Store" 'fs
  | X_removed SnapshotData "'db Store" 'fs 'fs | X_opened SnapshotData "'db Store" 'fs | X_throw

record ('db, 'fs) lock_sys =
  sk_store :: "'db Store"
  sk_shared :: "nat set"
  sk_exclusive :: "nat option"
  sk_pc :: "nat \<Rightarrow> ('db, 'fs) store_pc"
  sk_object :: nat
  sk_closed :: bool

definition set_pc :: "nat \<Rightarrow> ('db, 'fs) store_pc \<Rightarrow> ('db, 'fs) lock_sys \<Rightarrow> ('db, 'fs) lock_sys" where
  "set_pc i c s = s\<lparr>sk_pc := (sk_pc s)(i := c)\<rparr>"

inductive lock_step ::
  "'db leveldb \<Rightarrow> codec \<Rightarrow> ('fs, 'db) disk \<Rightarrow> ('db, 'fs) lock_sys \<Rightarrow> ('db, 'fs) lock_sys \<Rightarrow> bool"
  for L :: "'db leveldb" and P :: codec and D :: "('fs, 'db) disk" where
  sk_call: "sk_pc s i = S_idle \<Longrightarrow> lock_step L P D s (set_pc i (S_wait c) s)"
| sk_lock: "sk_pc s i = S_wait c \<Longrightarrow> sk_exclusive s = None \<Longrightarrow>
    lock_step L P D s (set_pc i (S_in c None) (s\<lparr>sk_shared := insert i (sk_shared s)\<rparr>))"
| sk_read: "sk_pc s i = S_in c None \<Longrightarrow> st_db (sk_store s) = Some db \<Longrightarrow>
    lock_step L P D s (set_pc i (S_in c (Some (db, sk_object s))) s)"
| sk_null: "sk_pc s i = S_in c r \<Longrightarrow> st_db (sk_store s) = None \<Longrightarrow> lock_step L P D s (set_pc i S_null s)"
| sk_finish: "sk_pc s i = S_in c (Some (r, g)) \<Longrightarrow> st_db (sk_store s) = Some db \<Longrightarrow>
    lock_step L P D s (set_pc i S_idle (s\<lparr>sk_store := (sk_store s)\<lparr>st_db := Some (call_effect L P c r db)\<rparr>,
      sk_shared := sk_shared s - {i}\<rparr>))"
| sk_load: "sk_pc s i = S_idle \<Longrightarrow> lock_step L P D s (set_pc i (X_wait data) s)"
| sk_load_lock: "sk_pc s i = X_wait data \<Longrightarrow> sk_exclusive s = None \<Longrightarrow> sk_shared s = {} \<Longrightarrow>
    lock_step L P D s (set_pc i (X_locked data (sk_store s) fs) (s\<lparr>sk_exclusive := Some i\<rparr>))"
| sk_load_reset: "sk_pc s i = X_locked data st fs \<Longrightarrow>
    lock_step L P D s (set_pc i (X_reset data st fs) (s\<lparr>sk_store := (sk_store s)\<lparr>st_db := None\<rparr>,
      sk_object := Suc (sk_object s)\<rparr>))"
| sk_load_remove: "sk_pc s i = X_reset data st fs \<Longrightarrow> fs_remove_all D fs (st_data_dir (sk_store s)) = (fs1, ec) \<Longrightarrow>
    lock_step L P D s (set_pc i (X_removed data st fs fs1) s)"
| sk_load_fail: "sk_pc s i = X_removed data st fs fs1 \<Longrightarrow>
    OpenLocked D fs1 (sk_store s) (st_data_dir (sk_store s)) = Open_failed err \<Longrightarrow>
    lock_step L P D s (set_pc i S_idle (s\<lparr>sk_exclusive := None, sk_closed := True\<rparr>))"
| sk_load_throw: "sk_pc s i = X_removed data st fs fs1 \<Longrightarrow>
    OpenLocked D fs1 (sk_store s) (st_data_dir (sk_store s)) = Open_throws \<Longrightarrow>
    lock_step L P D s (set_pc i X_throw (s\<lparr>sk_exclusive := None, sk_closed := True\<rparr>))"
| sk_load_open: "sk_pc s i = X_removed data st fs fs1 \<Longrightarrow>
    OpenLocked D fs1 (sk_store s) (st_data_dir (sk_store s)) = Opened st2 \<Longrightarrow>
    lock_step L P D s (set_pc i (X_opened data st fs) (s\<lparr>sk_store := st2\<rparr>))"
| sk_load_write: "sk_pc s i = X_opened data st fs \<Longrightarrow> st_db (sk_store s) = Some db \<Longrightarrow>
    ldb_Write L db (LoadSnapshot_batch P data) = (db', ok) \<Longrightarrow>
    lock_step L P D s (set_pc i S_idle (s\<lparr>sk_store := (sk_store s)\<lparr>st_db := Some db'\<rparr>, sk_exclusive := None,
      sk_closed := False\<rparr>))"
| sk_close: "sk_pc s i = S_idle \<Longrightarrow> sk_exclusive s = None \<Longrightarrow> sk_shared s = {} \<Longrightarrow>
    lock_step L P D s (s\<lparr>sk_store := CloseStore (sk_store s), sk_object := Suc (sk_object s), sk_closed := True\<rparr>)"

inductive_cases lock_stepE [consumes 1, case_names call lock reads null finish load load_lock load_reset load_remove
    load_fail load_throw load_open load_write close]: "lock_step L P D s s'"

definition lock_start :: "('db, 'fs) lock_sys \<Rightarrow> bool" where
  "lock_start s \<longleftrightarrow> st_db (sk_store s) \<noteq> None \<and> sk_shared s = {} \<and> sk_exclusive s = None \<and> (\<forall>i. sk_pc s i = S_idle)"

lemma set_pc_sel [simp]:
  "sk_store (set_pc i c s) = sk_store s" "sk_shared (set_pc i c s) = sk_shared s"
  "sk_exclusive (set_pc i c s) = sk_exclusive s" "sk_pc (set_pc i c s) = (sk_pc s)(i := c)"
  "sk_object (set_pc i c s) = sk_object s" "sk_closed (set_pc i c s) = sk_closed s"
  by (simp_all add: set_pc_def)

section \<open>Who holds the lock\<close>

fun inside :: "('db, 'fs) store_pc \<Rightarrow> bool" where
  "inside (S_in _ _) = True"
| "inside S_null = True"
| "inside _ = False"

fun loading :: "('db, 'fs) store_pc \<Rightarrow> bool" where
  "loading (X_locked _ _ _) = True"
| "loading (X_reset _ _ _) = True"
| "loading (X_removed _ _ _ _) = True"
| "loading (X_opened _ _ _) = True"
| "loading _ = False"

definition holders_ok :: "('db, 'fs) lock_sys \<Rightarrow> bool" where
  "holders_ok s \<longleftrightarrow> (\<forall>i. inside (sk_pc s i) \<longleftrightarrow> i \<in> sk_shared s) \<and> (\<forall>i. loading (sk_pc s i) \<longleftrightarrow> sk_exclusive s = Some i) \<and>
     (sk_exclusive s \<noteq> None \<longrightarrow> sk_shared s = {})"

lemma holders_okD:
  assumes "holders_ok s"
  shows "inside (sk_pc s i) \<longleftrightarrow> i \<in> sk_shared s" "loading (sk_pc s i) \<longleftrightarrow> sk_exclusive s = Some i"
    "sk_exclusive s \<noteq> None \<Longrightarrow> sk_shared s = {}"
  using assms by (simp_all add: holders_ok_def)

lemma holders_exclude: "holders_ok s \<Longrightarrow> inside (sk_pc s i) \<Longrightarrow> sk_exclusive s = None"
  using holders_okD(1) [of s i] holders_okD(3) [of s] by (metis empty_iff)

lemma holders_keep:
  assumes "holders_ok s" "inside c \<longleftrightarrow> inside (sk_pc s i)" "loading c \<longleftrightarrow> loading (sk_pc s i)"
    and "sk_pc s' = sk_pc s" "sk_shared s' = sk_shared s" "sk_exclusive s' = sk_exclusive s"
  shows "holders_ok (set_pc i c s')"
  using assms by (simp add: holders_ok_def)

lemma holders_enter:
  assumes "holders_ok s" "inside c" "\<not> loading c" "\<not> loading (sk_pc s i)" "sk_exclusive s = None"
    and "sk_pc s' = sk_pc s" "sk_shared s' = insert i (sk_shared s)" "sk_exclusive s' = None"
  shows "holders_ok (set_pc i c s')"
  using assms by (simp add: holders_ok_def)

lemma holders_leave:
  assumes "holders_ok s" "inside (sk_pc s i)" "\<not> inside c" "\<not> loading c"
    and "sk_pc s' = sk_pc s" "sk_shared s' = sk_shared s - {i}" "sk_exclusive s' = sk_exclusive s"
  shows "holders_ok (set_pc i c s')"
  using assms holders_exclude [OF assms(1,2)] by (simp add: holders_ok_def)

lemma holders_take:
  assumes "holders_ok s" "loading c" "\<not> inside c" "sk_exclusive s = None" "sk_shared s = {}"
    and "sk_pc s' = sk_pc s" "sk_shared s' = {}" "sk_exclusive s' = Some i"
  shows "holders_ok (set_pc i c s')"
  using assms by (simp add: holders_ok_def)

lemma holders_release:
  assumes "holders_ok s" "loading (sk_pc s i)" "\<not> inside c" "\<not> loading c"
    and "sk_pc s' = sk_pc s" "sk_shared s' = sk_shared s" "sk_exclusive s' = None"
  shows "holders_ok (set_pc i c s')"
proof -
  have "sk_exclusive s = Some i" "sk_shared s = {}" using assms(1,2) holders_okD [OF assms(1)] by blast+
  with assms show ?thesis by (simp add: holders_ok_def)
qed

lemma holders_ok_step: "lock_step L P D s s' \<Longrightarrow> holders_ok s \<Longrightarrow> holders_ok s'"
proof (induction rule: lock_step.induct)
  case (sk_lock s i c)
  then show ?case by (intro holders_enter [of s]) simp_all
next
  case (sk_finish s i c r g db)
  then show ?case by (intro holders_leave [of s]) simp_all
next
  case (sk_load_lock s i data fs)
  then show ?case by (intro holders_take [of s]) simp_all
next
  case (sk_load_fail s i data st fs fs1 err)
  then show ?case by (intro holders_release [of s]) simp_all
next
  case (sk_load_throw s i data st fs fs1)
  then show ?case by (intro holders_release [of s]) simp_all
next
  case (sk_load_write s i data st fs db db' ok)
  then show ?case by (intro holders_release [of s]) simp_all
next
  case (sk_close s i)
  then show ?case by (simp add: holders_ok_def)
qed (erule holders_keep; simp)+

section \<open>The database under the lock\<close>

text \<open>Where a loading thread is, against what LoadSnapshot has done so far.\<close>

fun loader_ok :: "('fs, 'db) disk \<Rightarrow> 'db Store \<Rightarrow> ('db, 'fs) store_pc \<Rightarrow> bool" where
  "loader_ok D cur (X_locked data st fs) \<longleftrightarrow> cur = st"
| "loader_ok D cur (X_reset data st fs) \<longleftrightarrow> cur = st\<lparr>st_db := None\<rparr>"
| "loader_ok D cur (X_removed data st fs fs1) \<longleftrightarrow> cur = st\<lparr>st_db := None\<rparr> \<and> fs1 = fst (fs_remove_all D fs (st_data_dir st))"
| "loader_ok D cur (X_opened data st fs) \<longleftrightarrow>
    OpenLocked D (fst (fs_remove_all D fs (st_data_dir st))) (st\<lparr>st_db := None\<rparr>) (st_data_dir st) = Opened cur"
| "loader_ok D cur _ \<longleftrightarrow> True"

fun pin_ok :: "('db, 'fs) lock_sys \<Rightarrow> ('db, 'fs) store_pc \<Rightarrow> bool" where
  "pin_ok s (S_in c (Some (r, g))) \<longleftrightarrow> g = sk_object s \<and> st_db (sk_store s) \<noteq> None"
| "pin_ok s _ \<longleftrightarrow> True"

definition db_ok :: "('fs, 'db) disk \<Rightarrow> ('db, 'fs) lock_sys \<Rightarrow> bool" where
  "db_ok D s \<longleftrightarrow> (\<forall>i. loader_ok D (sk_store s) (sk_pc s i) \<and> pin_ok s (sk_pc s i)) \<and>
     (sk_exclusive s = None \<and> \<not> sk_closed s \<longrightarrow> st_db (sk_store s) \<noteq> None)"

lemma OpenLocked_db: "OpenLocked D fs st dir = Opened st2 \<Longrightarrow> st_db st2 \<noteq> None"
  by (auto simp: OpenLocked_def split: option.splits sum.splits)

lemma not_loading: "\<not> loading c \<Longrightarrow> loader_ok D cur c"
  by (cases c) simp_all

lemma not_inside: "\<not> inside c \<Longrightarrow> pin_ok s c"
  by (cases c) simp_all

lemma pin_ok_cong: "sk_object s' = sk_object s \<Longrightarrow> st_db (sk_store s') = None \<longleftrightarrow> st_db (sk_store s) = None \<Longrightarrow> pin_ok s' c = pin_ok s c"
  by (cases "(s, c)" rule: pin_ok.cases) auto

text \<open>While a thread loads, no other thread is inside or loads.\<close>

lemma others_outside:
  assumes "holders_ok s" "loading (sk_pc s i)" "j \<noteq> i"
  shows "\<not> loading (sk_pc s j)" "\<not> inside (sk_pc s j)"
  using assms holders_okD(2) [OF assms(1), of i] holders_okD(1,2) [OF assms(1), of j] holders_okD(3) [OF assms(1)] by auto

text \<open>A step of the loading thread, and a step that leaves the database object alone.\<close>

lemma db_ok_loader:
  assumes "holders_ok s" "db_ok D s" "loading (sk_pc s i)" "sk_pc s' = sk_pc s" "loader_ok D (sk_store s') c" "\<not> inside c"
    and "sk_exclusive s' = None \<and> \<not> sk_closed s' \<longrightarrow> st_db (sk_store s') \<noteq> None"
  shows "db_ok D (set_pc i c s')"
  using assms others_outside [OF assms(1,3)] by (simp add: db_ok_def not_loading not_inside)

lemma db_ok_same:
  assumes "db_ok D s" "sk_pc s' = sk_pc s" "sk_store s' = sk_store s" "sk_object s' = sk_object s"
    and "loader_ok D (sk_store s) c" "pin_ok s c"
    and "sk_exclusive s' = None \<and> \<not> sk_closed s' \<longrightarrow> st_db (sk_store s) \<noteq> None"
  shows "db_ok D (set_pc i c s')"
proof -
  have "pin_ok (set_pc i c s') c' = pin_ok s c'" for c' using assms by (intro pin_ok_cong) simp_all
  with assms show ?thesis by (simp add: db_ok_def)
qed

lemma db_ok_step:
  assumes "lock_step L P D s s'" "holders_ok s" "db_ok D s"
  shows "db_ok D s'"
  using assms
proof (induction rule: lock_step.induct)
  case (sk_finish s i c r g db)
  let ?s = "set_pc i S_idle (s\<lparr>sk_store := (sk_store s)\<lparr>st_db := Some (call_effect L P c r db)\<rparr>, sk_shared := sk_shared s - {i}\<rparr>)"
  have "sk_exclusive s = None" using holders_exclude [OF sk_finish(3), of i] sk_finish(1) by simp
  then have "\<not> loading (sk_pc s j)" for j using holders_okD(2) [OF sk_finish(3), of j] by simp
  moreover have "pin_ok ?s c' = pin_ok s c'" for c' using sk_finish(2) by (intro pin_ok_cong) simp_all
  ultimately show ?case using sk_finish(4) by (simp add: db_ok_def not_loading)
next
  case (sk_load_reset s i data st fs)
  then have "loader_ok D (sk_store s) (sk_pc s i)" unfolding db_ok_def by blast
  with sk_load_reset holders_okD(2) [of s i] show ?case by (intro db_ok_loader [of s]) simp_all
next
  case (sk_load_remove s i data st fs fs1 ec)
  then have "loader_ok D (sk_store s) (sk_pc s i)" unfolding db_ok_def by blast
  with sk_load_remove holders_okD(2) [of s i] show ?case by (intro db_ok_loader [of s]) simp_all
next
  case (sk_load_open s i data st fs fs1 st2)
  then have "loader_ok D (sk_store s) (sk_pc s i)" unfolding db_ok_def by blast
  with sk_load_open OpenLocked_db [OF sk_load_open(2)] show ?case by (intro db_ok_loader [of s]) simp_all
next
  case (sk_load_fail s i data st fs fs1 err)
  then show ?case by (intro db_ok_loader [of s]) simp_all
next
  case (sk_load_throw s i data st fs fs1)
  then show ?case by (intro db_ok_loader [of s]) simp_all
next
  case (sk_load_write s i data st fs db db' ok)
  then show ?case by (intro db_ok_loader [of s]) simp_all
next
  case (sk_close s i)
  then have "\<not> loading (sk_pc s j)" "\<not> inside (sk_pc s j)" for j using holders_okD(1,2) [OF sk_close(4), of j] by auto
  then show ?case by (simp add: db_ok_def not_loading not_inside)
qed ((rule db_ok_same, assumption); simp add: db_ok_def)+

lemma lock_reach:
  assumes "lock_start s0" "(lock_step L P D)\<^sup>*\<^sup>* s0 s"
  shows "holders_ok s" "db_ok D s"
proof -
  have "holders_ok s0 \<and> db_ok D s0" using assms(1) by (simp add: lock_start_def holders_ok_def db_ok_def)
  with assms(2) have "holders_ok s \<and> db_ok D s"
    by (induction rule: rtranclp_induct) (auto dest: holders_ok_step db_ok_step)
  then show "holders_ok s" "db_ok D s" by simp_all
qed

section \<open>Loading is one step\<close>

text \<open>The store as the other threads can see it: while a thread loads, as it was when that thread took the lock.\<close>

fun began :: "('db, 'fs) store_pc \<Rightarrow> 'db Store option" where
  "began (X_locked data st fs) = Some st"
| "began (X_reset data st fs) = Some st"
| "began (X_removed data st fs fs1) = Some st"
| "began (X_opened data st fs) = Some st"
| "began _ = None"

definition store_view :: "('db, 'fs) lock_sys \<Rightarrow> 'db Store" where
  "store_view s = (case Option.bind (sk_exclusive s) (\<lambda>i. began (sk_pc s i)) of None \<Rightarrow> sk_store s | Some st \<Rightarrow> st)"

definition loads_to ::
  "'db leveldb \<Rightarrow> ('fs, 'db) disk \<Rightarrow> codec \<Rightarrow> 'fs \<Rightarrow> SnapshotData \<Rightarrow> 'db Store \<Rightarrow> 'db Store \<Rightarrow> bool" where
  "loads_to L D P fs data st st' \<longleftrightarrow> (case LoadSnapshot L D P fs st data of
     Opened (st'', ok) \<Rightarrow> st' = st'' | Open_throws \<Rightarrow> st' = st\<lparr>st_db := None\<rparr> | Open_failed err \<Rightarrow> False)"

lemma store_view_free: "sk_exclusive s = None \<Longrightarrow> store_view s = sk_store s"
  by (simp add: store_view_def)

lemma store_view_loading:
  assumes "holders_ok s" "began (sk_pc s i) = Some st"
  shows "sk_exclusive s = Some i" "store_view s = st"
proof -
  have "loading (sk_pc s i)" using assms(2) by (cases "sk_pc s i") simp_all
  then show "sk_exclusive s = Some i" using holders_okD(2) [OF assms(1)] by blast
  with assms(2) show "store_view s = st" by (simp add: store_view_def)
qed

text \<open>A thread that is not loading moves without being seen, if it leaves the store and the exclusive lock alone.\<close>

lemma store_view_unseen:
  assumes "holders_ok s" "\<not> loading (sk_pc s i)" "sk_store s' = sk_store s" "sk_exclusive s' = sk_exclusive s" "sk_pc s' = sk_pc s"
  shows "store_view (set_pc i c s') = store_view s"
  using assms holders_okD(2) [OF assms(1), of i] by (cases "sk_exclusive s") (auto simp: store_view_def split: option.split)

lemma store_view_load:
  assumes "holders_ok s" "began (sk_pc s i) = Some st" "began c = Some st" "sk_exclusive s' = sk_exclusive s"
  shows "store_view (set_pc i c s') = store_view s"
  using store_view_loading [OF assms(1,2)] assms(3,4) by (simp add: store_view_def)

lemma load_outcome:
  assumes "fs1 = fst (fs_remove_all D fs (st_data_dir st))"
  shows "OpenLocked D fs1 (st\<lparr>st_db := None\<rparr>) (st_data_dir st) = Open_failed err \<Longrightarrow> loads_to L D P fs data st (st\<lparr>st_db := None\<rparr>)"
    and "OpenLocked D fs1 (st\<lparr>st_db := None\<rparr>) (st_data_dir st) = Open_throws \<Longrightarrow> loads_to L D P fs data st (st\<lparr>st_db := None\<rparr>)"
    and "OpenLocked D fs1 (st\<lparr>st_db := None\<rparr>) (st_data_dir st) = Opened st2 \<Longrightarrow> st_db st2 = Some db \<Longrightarrow>
      ldb_Write L db (LoadSnapshot_batch P data) = (db', ok) \<Longrightarrow> loads_to L D P fs data st (st2\<lparr>st_db := Some db'\<rparr>)"
  using assms by (simp_all add: loads_to_def LoadSnapshot_def Let_def case_prod_beta)

section \<open>Schedules\<close>

text \<open>The next step of a thread inside a call, if it can be taken now.\<close>

fun next_step :: "'db leveldb \<Rightarrow> codec \<Rightarrow> ('fs, 'db) disk \<Rightarrow> 'fs \<Rightarrow> nat \<Rightarrow> ('db, 'fs) lock_sys \<Rightarrow> ('db, 'fs) store_pc \<Rightarrow>
    ('db, 'fs) lock_sys option" where
  "next_step L P D fs i s (S_wait c) =
    (if sk_exclusive s = None then Some (set_pc i (S_in c None) (s\<lparr>sk_shared := insert i (sk_shared s)\<rparr>)) else None)"
| "next_step L P D fs i s (S_in c r) =
    (case st_db (sk_store s) of
       None \<Rightarrow> Some (set_pc i S_null s)
     | Some db \<Rightarrow> (case r of
         None \<Rightarrow> Some (set_pc i (S_in c (Some (db, sk_object s))) s)
       | Some (r, g) \<Rightarrow> Some (set_pc i S_idle (s\<lparr>sk_store := (sk_store s)\<lparr>st_db := Some (call_effect L P c r db)\<rparr>,
           sk_shared := sk_shared s - {i}\<rparr>))))"
| "next_step L P D fs i s (X_wait data) =
    (if sk_exclusive s = None \<and> sk_shared s = {} then
       Some (set_pc i (X_locked data (sk_store s) fs) (s\<lparr>sk_exclusive := Some i\<rparr>)) else None)"
| "next_step L P D fs0 i s (X_locked data st fs) =
    Some (set_pc i (X_reset data st fs) (s\<lparr>sk_store := (sk_store s)\<lparr>st_db := None\<rparr>, sk_object := Suc (sk_object s)\<rparr>))"
| "next_step L P D fs0 i s (X_reset data st fs) =
    Some (set_pc i (X_removed data st fs (fst (fs_remove_all D fs (st_data_dir (sk_store s))))) s)"
| "next_step L P D fs0 i s (X_removed data st fs fs1) =
    (case OpenLocked D fs1 (sk_store s) (st_data_dir (sk_store s)) of
       Open_failed err \<Rightarrow> Some (set_pc i S_idle (s\<lparr>sk_exclusive := None, sk_closed := True\<rparr>))
     | Open_throws \<Rightarrow> Some (set_pc i X_throw (s\<lparr>sk_exclusive := None, sk_closed := True\<rparr>))
     | Opened st2 \<Rightarrow> Some (set_pc i (X_opened data st fs) (s\<lparr>sk_store := st2\<rparr>)))"
| "next_step L P D fs0 i s (X_opened data st fs) =
    (case st_db (sk_store s) of None \<Rightarrow> None | Some db \<Rightarrow>
       (case ldb_Write L db (LoadSnapshot_batch P data) of (db', ok) \<Rightarrow>
          Some (set_pc i S_idle (s\<lparr>sk_store := (sk_store s)\<lparr>st_db := Some db'\<rparr>, sk_exclusive := None, sk_closed := False\<rparr>))))"
| "next_step L P D fs i s _ = None"

lemma next_step_step:
  assumes "next_step L P D fs i s (sk_pc s i) = Some s'"
  shows "lock_step L P D s s'"
proof (cases "sk_pc s i")
  case (X_reset data st fs')
  from sk_load_remove [OF this surjective_pairing] assms show ?thesis by (auto simp: X_reset)
qed (use assms in \<open>auto split: if_splits option.splits prod.splits open_result.splits
    intro: sk_lock sk_read sk_null sk_finish sk_load_lock sk_load_reset sk_load_fail sk_load_throw sk_load_open sk_load_write\<close>)

fun run_threads :: "'db leveldb \<Rightarrow> codec \<Rightarrow> ('fs, 'db) disk \<Rightarrow> 'fs \<Rightarrow> nat list \<Rightarrow> ('db, 'fs) lock_sys \<Rightarrow> ('db, 'fs) lock_sys option" where
  "run_threads L P D fs [] s = Some s"
| "run_threads L P D fs (i # is) s = Option.bind (next_step L P D fs i s (sk_pc s i)) (run_threads L P D fs is)"

lemma run_threads_append:
  "run_threads L P D fs (is @ js) s = Option.bind (run_threads L P D fs is s) (run_threads L P D fs js)"
proof (induction "is" arbitrary: s)
  case (Cons i "is")
  then show ?case by (cases "next_step L P D fs i s (sk_pc s i)") simp_all
qed simp

lemma run_threads_steps: "run_threads L P D fs is s = Some s' \<Longrightarrow> (lock_step L P D)\<^sup>*\<^sup>* s s'"
  by (induction "is" arbitrary: s) (auto simp: bind_eq_Some_conv intro: converse_rtranclp_into_rtranclp next_step_step)

text \<open>A store with one put; thread 0 compacts it, thread 1 installs a snapshot, thread 2 reads.\<close>

definition one_put :: mem_db where
  "one_put = fst (apply_log mem_leveldb ref_codec [] [Cmd_put ''a'' ''1''])"

definition open_store :: "(mem_db, mem_fs) lock_sys" where
  "open_store = \<lparr>sk_store = \<lparr>st_db = Some one_put, st_data_dir = ''/data''\<rparr>, sk_shared = {}, sk_exclusive = None,
     sk_pc = (\<lambda>_. S_idle), sk_object = 0, sk_closed = False\<rparr>"

definition called_store :: "(mem_db, mem_fs) lock_sys" where
  "called_store = set_pc 2 (S_wait (Q_get ''a'')) (set_pc 1 (X_wait (ExportSnapshot mem_leveldb ref_codec one_put))
     (set_pc 0 (S_wait (Q_compact 10)) open_store))"

lemma open_store_start: "lock_start open_store"
  by (simp add: lock_start_def open_store_def)

lemma called_store_steps: "(lock_step L P D)\<^sup>*\<^sup>* open_store called_store"
proof -
  let ?s0 = "set_pc 0 (S_wait (Q_compact 10)) open_store"
  let ?s1 = "set_pc 1 (X_wait (ExportSnapshot mem_leveldb ref_codec one_put)) ?s0"
  have "lock_step L P D open_store ?s0" by (rule sk_call) (simp add: open_store_def)
  moreover have "lock_step L P D ?s0 ?s1" by (rule sk_load) (simp add: open_store_def)
  moreover have "lock_step L P D ?s1 called_store" unfolding called_store_def by (rule sk_call) (simp add: open_store_def)
  ultimately show ?thesis by (meson converse_rtranclp_into_rtranclp rtranclp.rtrancl_refl)
qed

lemma called_store_runs:
  assumes "run_threads L P D fs is called_store \<noteq> None"
  shows "(lock_step L P D)\<^sup>*\<^sup>* open_store (the (run_threads L P D fs is called_store))"
  using assms run_threads_steps called_store_steps by (metis option.exhaust_sel rtranclp_trans)

text \<open>The compaction has its iterator and the installation waits; the snapshot is about to be written; the read is inside.\<close>

abbreviation mem_threads :: "nat list \<Rightarrow> (mem_db, mem_fs) lock_sys option" where
  "mem_threads is \<equiv> run_threads mem_leveldb ref_codec mem_disk [] is called_store"

section \<open>Properties\<close>

text \<open>
  (C15) No call uses a closed database.  Whatever calls and installations of snapshots interleave,
  the database object that a call under the shared lock has read from or iterates over is still
  the store's database, and a call that has just got the lock finds the store open unless it was closed
  or the last installation could not open its directory.
\<close>

theorem store_calls_hold_database:
  assumes "lock_start s0" "(lock_step L P D)\<^sup>*\<^sup>* s0 s"
  shows "(sk_pc s i = S_in c (Some (r, g)) \<longrightarrow> g = sk_object s \<and> st_db (sk_store s) \<noteq> None) \<and>
    (sk_pc s i = S_in c None \<and> \<not> sk_closed s \<longrightarrow> st_db (sk_store s) \<noteq> None)"
proof -
  note ok = lock_reach [OF assms]
  have "pin_ok s (sk_pc s i)" "sk_exclusive s = None \<and> \<not> sk_closed s \<longrightarrow> st_db (sk_store s) \<noteq> None"
    using ok(2) by (simp_all add: db_ok_def)
  moreover have "sk_pc s i = S_in c None \<Longrightarrow> sk_exclusive s = None" using holders_exclude [OF ok(1), of i] by simp
  ultimately show ?thesis by auto
qed

theorem store_calls_hold_database_witness:
  "\<exists>c r g. sk_pc (the (mem_threads ([0, 0, 0] @ [1, 1, 1, 1, 1] @ [2, 2]))) 2 = S_in c (Some (r, g)) \<and> g = 1 \<and>
     st_db (sk_store (the (mem_threads ([0, 0, 0] @ [1, 1, 1, 1, 1] @ [2, 2])))) \<noteq> None"
  (is "\<exists>c r g. sk_pc ?s 2 = _ \<and> _ \<and> _")
proof -
  have run: "mem_threads ([0, 0, 0] @ [1, 1, 1, 1, 1] @ [2, 2]) \<noteq> None" "sk_object ?s = 1"
    "case sk_pc ?s 2 of S_in c (Some (r, g)) \<Rightarrow> True | _ \<Rightarrow> False" by code_simp+
  then obtain c r g where "sk_pc ?s 2 = S_in c (Some (r, g))" by (auto split: store_pc.splits option.splits)
  with store_calls_hold_database [OF open_store_start called_store_runs [OF run(1)], of 2 c r g] run(2) show ?thesis by auto
qed

text \<open>
  (C14) Installing a snapshot is one step.  Every step of every interleaving leaves the store as the other
  threads can see it, or is the end of a call with its effect on the database its reads come from,
  or makes of the store what LoadSnapshot makes of it in one go, failures included, or closes it.
\<close>

theorem store_load_atomic:
  assumes "lock_start s0" "(lock_step L P D)\<^sup>*\<^sup>* s0 s" "lock_step L P D s s'"
  shows "store_view s' = store_view s \<or>
    (\<exists>i c r db. sk_pc s i = S_in c (Some (r, sk_object s)) \<and> st_db (store_view s) = Some db \<and>
      store_view s' = (store_view s)\<lparr>st_db := Some (call_effect L P c r db)\<rparr>) \<or>
    (\<exists>fs data. loads_to L D P fs data (store_view s) (store_view s')) \<or> store_view s' = CloseStore (store_view s)"
proof -
  note ok = lock_reach [OF assms(1,2)]
  have ld: "loader_ok D (sk_store s) (sk_pc s j)" and pin: "pin_ok s (sk_pc s j)" for j using ok(2) by (simp_all add: db_ok_def)
  from assms(3) show ?thesis
  proof (cases rule: lock_stepE)
    case (finish i c r g db)
    have "sk_exclusive s = None" using holders_exclude [OF ok(1), of i] finish(2) by simp
    then have "store_view s = sk_store s" "store_view s' = (sk_store s)\<lparr>st_db := Some (call_effect L P c r db)\<rparr>"
      by (simp_all add: store_view_free finish(1))
    moreover have "g = sk_object s" using pin [of i] finish(2) by simp
    ultimately have "\<exists>i c r db. sk_pc s i = S_in c (Some (r, sk_object s)) \<and> st_db (store_view s) = Some db \<and>
        store_view s' = (store_view s)\<lparr>st_db := Some (call_effect L P c r db)\<rparr>" using finish(2,3) by auto
    then show ?thesis by blast
  next
    case (load_lock i data fs)
    then show ?thesis by (simp add: store_view_def)
  next
    case (close i)
    then show ?thesis by (simp add: store_view_free)
  next
    case (load_fail i data st fs fs1 err)
    have v: "store_view s = st" "store_view s' = sk_store s"
      using store_view_loading [OF ok(1), of i st] load_fail(2) by (simp_all add: load_fail(1) store_view_free)
    then show ?thesis using ld [of i] load_fail(2,3) load_outcome(1) [of fs1 D fs st err L P data] by auto
  next
    case (load_throw i data st fs fs1)
    have v: "store_view s = st" "store_view s' = sk_store s"
      using store_view_loading [OF ok(1), of i st] load_throw(2) by (simp_all add: load_throw(1) store_view_free)
    then show ?thesis using ld [of i] load_throw(2,3) load_outcome(2) [of fs1 D fs st L P data] by auto
  next
    case (load_write i data st fs db db' ok')
    have v: "store_view s = st" "store_view s' = (sk_store s)\<lparr>st_db := Some db'\<rparr>"
      using store_view_loading [OF ok(1), of i st] load_write(2) by (simp_all add: load_write(1) store_view_free)
    then show ?thesis
      using ld [of i] load_write(2-4) load_outcome(3) [OF refl, of D fs st "sk_store s" db L P data db' ok'] by auto
  qed (simp_all add: store_view_unseen [OF ok(1)] store_view_load [OF ok(1)])
qed

definition before_write :: "(mem_db, mem_fs) lock_sys" where
  "before_write = the (mem_threads ([0, 0, 0] @ [1, 1, 1, 1]))"

definition after_write :: "(mem_db, mem_fs) lock_sys" where
  "after_write = the (mem_threads (([0, 0, 0] @ [1, 1, 1, 1]) @ [1]))"

lemma before_write_steps:
  "(lock_step mem_leveldb ref_codec mem_disk)\<^sup>*\<^sup>* open_store before_write" "lock_step mem_leveldb ref_codec mem_disk before_write after_write"
proof -
  have b: "mem_threads ([0, 0, 0] @ [1, 1, 1, 1]) \<noteq> None" and a: "mem_threads (([0, 0, 0] @ [1, 1, 1, 1]) @ [1]) \<noteq> None" by code_simp+
  show "(lock_step mem_leveldb ref_codec mem_disk)\<^sup>*\<^sup>* open_store before_write"
    unfolding before_write_def by (rule called_store_runs [OF b])
  have "mem_threads ([0, 0, 0] @ [1, 1, 1, 1]) = Some before_write" using b unfolding before_write_def by simp
  with a have "next_step mem_leveldb ref_codec mem_disk [] 1 before_write (sk_pc before_write 1) = Some after_write"
    unfolding after_write_def run_threads_append [of _ _ _ _ "[0, 0, 0] @ [1, 1, 1, 1]"]
    by (auto simp del: append.simps split: Option.bind_splits)
  then show "lock_step mem_leveldb ref_codec mem_disk before_write after_write" by (rule next_step_step)
qed

theorem store_load_atomic_witness:
  "st_db (store_view after_write) \<noteq> st_db (store_view before_write) \<and>
   (\<exists>fs data. loads_to mem_leveldb mem_disk ref_codec fs data (store_view before_write) (store_view after_write))"
proof -
  have ex: "sk_exclusive before_write = Some 1" "st_db (store_view after_write) \<noteq> st_db (store_view before_write)" by code_simp+
  have "sk_pc before_write i \<noteq> S_in c r" for i c r
    using holders_exclude [OF lock_reach(1) [OF open_store_start before_write_steps(1)], of i] ex(1) by auto
  moreover have "st_db (store_view after_write) \<noteq> None" by code_simp
  then have "store_view after_write \<noteq> CloseStore (store_view before_write)" by (auto simp: CloseStore_def)
  ultimately show ?thesis using ex(2) store_load_atomic [OF open_store_start before_write_steps] by auto
qed

text \<open>A disk on which LevelDB cannot open its directory.\<close>

definition broken_disk :: "(mem_fs, mem_db) disk" where
  "broken_disk = mem_disk\<lparr>ldb_Open := (\<lambda>fs dir. Inl ''IO error'')\<rparr>"

text \<open>
  (C39) An installation that cannot open the directory leaves a null pointer.  LoadSnapshot has closed
  the database and returns false, the store stays without one, and the next call of any thread,
  here a Get, dereferences it.
\<close>

theorem failed_install_leaves_null:
  "\<exists>s. (lock_step mem_leveldb ref_codec broken_disk)\<^sup>*\<^sup>* open_store s \<and> st_db (sk_store open_store) \<noteq> None \<and>
     sk_exclusive s = None \<and> sk_pc s 1 = S_idle \<and> sk_pc s 2 = S_null"
proof -
  let ?run = "run_threads mem_leveldb ref_codec broken_disk [] ([0, 0, 0] @ [1, 1, 1, 1] @ [2, 2]) called_store"
  have "?run \<noteq> None" "sk_exclusive (the ?run) = None" "st_db (sk_store open_store) \<noteq> None"
    "case sk_pc (the ?run) 1 of S_idle \<Rightarrow> True | _ \<Rightarrow> False" "case sk_pc (the ?run) 2 of S_null \<Rightarrow> True | _ \<Rightarrow> False"
    by code_simp+
  with called_store_runs [of mem_leveldb ref_codec broken_disk "[]" "[0, 0, 0] @ [1, 1, 1, 1] @ [2, 2]"]
  show ?thesis by (intro exI [of _ "the ?run"]) (auto simp del: append.simps run_threads.simps split: store_pc.splits)
qed

text \<open>The error code of remove_all is not looked at: what could not be removed is part of the store afterwards.\<close>

lemma kept_directory_survives_install:
  "case LoadSnapshot mem_leveldb (mem_disk\<lparr>fs_remove_all := (\<lambda>fs dir. (fs, False))\<rparr>) ref_codec [(''/data'', one_put)]
      \<lparr>st_db = Some one_put, st_data_dir = ''/data''\<rparr> \<lparr>sd_revision = 0, sd_kvs = [], sd_cfg_kvs = []\<rparr> of
     Opened (st, ok) \<Rightarrow> ok \<and> map_option (\<lambda>db. snd (GetLocked mem_leveldb ref_codec db ''a'')) (st_db st) = Some OK
   | _ \<Rightarrow> False"
  by code_simp

end
