(* ===== verification/Client.thy ===== *)
theory Client
  imports NodeContract AdminService
begin

text \<open>
  src/client/client_main.cpp: the command-line client.  The brpc channel and the generated stubs
  are the record \<open>channel\<close>: opening it gives a return code, and a call gives the text of the
  controller's error or the response, and the cluster \<open>'w\<close> afterwards.  A run of the client ends with
  its exit code, what it wrote to std::cout and what it logged.
\<close>

section \<open>Flags, channel and exit\<close>

record client_flags =
  cf_server :: string
  cf_method :: string
  cf_key :: string
  cf_value :: string
  cf_expect :: string
  cf_peer :: string
  cf_timeout_ms :: int

definition client_flags_init :: client_flags where
  "client_flags_init = \<lparr>cf_server = ''127.0.0.1:8000'', cf_method = ''Get'', cf_key = [], cf_value = [],
     cf_expect = [], cf_peer = [], cf_timeout_ms = 3000\<rparr>"

text \<open>The methods the help text of --method names.\<close>

definition documented_methods :: "string list" where
  "documented_methods = [''Put'', ''Get'', ''Delete'', ''BatchPut'', ''CAS'', ''GetHealth'', ''AddPeer'', ''RemovePeer'']"

record 'w channel =
  ch_Init :: "string \<Rightarrow> int \<Rightarrow> int"
  st_Put :: "'w \<Rightarrow> PutRequest \<Rightarrow> 'w \<times> (string + KVResponse)"
  st_Get :: "'w \<Rightarrow> GetRequest \<Rightarrow> 'w \<times> (string + KVResponse)"
  st_Delete :: "'w \<Rightarrow> DeleteRequest \<Rightarrow> 'w \<times> (string + KVResponse)"
  st_CompareAndSwap :: "'w \<Rightarrow> CompareAndSwapRequest \<Rightarrow> 'w \<times> (string + KVResponse)"
  st_GetHealth :: "'w \<Rightarrow> 'w \<times> (string + GetHealthResponse)"
  st_AddPeer :: "'w \<Rightarrow> string \<Rightarrow> 'w \<times> (string + AdminResponse)"
  st_RemovePeer :: "'w \<Rightarrow> string \<Rightarrow> 'w \<times> (string + AdminResponse)"

record client_exit =
  ex_code :: int
  ex_out :: string
  ex_log :: string

definition printed :: "string \<Rightarrow> client_exit" where
  "printed line = \<lparr>ex_code = 0, ex_out = line @ [CHR 0x0A], ex_log = []\<rparr>"

definition logged :: "string \<Rightarrow> client_exit" where
  "logged line = \<lparr>ex_code = 1, ex_out = [], ex_log = line\<rparr>"

text \<open>\<open>resp.kv()\<close>: the default message when the field is absent.\<close>

definition resp_kv :: "KVResponse \<Rightarrow> KV" where
  "resp_kv resp = (case kr_kv resp of None \<Rightarrow> KV_default | Some kv \<Rightarrow> kv)"

section \<open>The methods\<close>

definition client_Put :: "'w channel \<Rightarrow> 'w \<Rightarrow> client_flags \<Rightarrow> 'w \<times> client_exit" where
  "client_Put ch w f =
    (case st_Put ch w \<lparr>pr_key = cf_key f, pr_value = cf_value f\<rparr> of
       (w', Inl err) \<Rightarrow> (w', logged (''Put failed: '' @ err))
     | (w', Inr resp) \<Rightarrow> (w', printed (''Put ok, code='' @ to_string (code_number (kr_code resp)) @
         '' version='' @ to_string (kv_version (resp_kv resp)) @
         '' revision='' @ to_string (kv_revision (resp_kv resp)))))"

definition client_Get :: "'w channel \<Rightarrow> 'w \<Rightarrow> client_flags \<Rightarrow> 'w \<times> client_exit" where
  "client_Get ch w f =
    (case st_Get ch w \<lparr>gq_key = cf_key f, gq_serializable = False\<rparr> of
       (w', Inl err) \<Rightarrow> (w', logged (''Get failed: '' @ err))
     | (w', Inr resp) \<Rightarrow> (w', printed
         (if kr_code resp \<noteq> OK then
            ''Get: code='' @ to_string (code_number (kr_code resp)) @ '' message='' @ kr_message resp
          else ''Get: value='' @ kv_value (resp_kv resp) @ '' version='' @ to_string (kv_version (resp_kv resp)) @
            '' revision='' @ to_string (kv_revision (resp_kv resp)))))"

definition client_Delete :: "'w channel \<Rightarrow> 'w \<Rightarrow> client_flags \<Rightarrow> 'w \<times> client_exit" where
  "client_Delete ch w f =
    (case st_Delete ch w \<lparr>dr_key = cf_key f\<rparr> of
       (w', Inl err) \<Rightarrow> (w', logged (''Delete failed: '' @ err))
     | (w', Inr resp) \<Rightarrow> (w', printed (''Delete: code='' @ to_string (code_number (kr_code resp)))))"

definition client_CAS :: "'w channel \<Rightarrow> 'w \<Rightarrow> client_flags \<Rightarrow> 'w \<times> client_exit" where
  "client_CAS ch w f =
    (case st_CompareAndSwap ch w \<lparr>casr_key = cf_key f, casr_expect = cf_expect f, casr_value = cf_value f\<rparr> of
       (w', Inl err) \<Rightarrow> (w', logged (''CAS failed: '' @ err))
     | (w', Inr resp) \<Rightarrow> (w', printed (''CAS: code='' @ to_string (code_number (kr_code resp)) @
         '' message='' @ kr_message resp)))"

text \<open>The loop over the peers; \<open>first\<close> is \<open>i == 0\<close>.\<close>

fun print_peers :: "bool \<Rightarrow> string list \<Rightarrow> string" where
  "print_peers first [] = []"
| "print_peers first (p # ps) = (if first then [] else '', '') @ p @ print_peers False ps"

definition client_GetHealth :: "'w channel \<Rightarrow> 'w \<Rightarrow> 'w \<times> client_exit" where
  "client_GetHealth ch w =
    (case st_GetHealth ch w of
       (w', Inl err) \<Rightarrow> (w', logged (''GetHealth failed: '' @ err))
     | (w', Inr resp) \<Rightarrow> (w', printed (''role='' @ hr_role resp @ '' term='' @ to_string (hr_term resp) @
         '' commit='' @ to_string (hr_commit_index resp) @ '' applied='' @ to_string (hr_applied_index resp) @
         '' leader='' @ hr_leader_id resp @ '' peers=['' @ print_peers True (hr_peers resp) @ '']'')))"

definition client_Peer :: "'w channel \<Rightarrow> 'w \<Rightarrow> client_flags \<Rightarrow> 'w \<times> client_exit" where
  "client_Peer ch w f =
    (if cf_peer f = [] then (w, logged (cf_method f @ '' requires --peer=127.0.0.1:8004''))
     else
       case (if cf_method f = ''AddPeer'' then st_AddPeer ch w (cf_peer f) else st_RemovePeer ch w (cf_peer f)) of
         (w', Inl err) \<Rightarrow> (w', logged (cf_method f @ '' failed: '' @ err))
       | (w', Inr resp) \<Rightarrow> (w', printed (cf_method f @ '': code='' @ to_string (code_number (adm_code resp)) @
           '' message='' @ adm_message resp)))"

definition client_main :: "'w channel \<Rightarrow> 'w \<Rightarrow> client_flags \<Rightarrow> 'w \<times> client_exit" where
  "client_main ch w f =
    (if ch_Init ch (c_str (cf_server f)) (cf_timeout_ms f) \<noteq> 0 then
       (w, logged (''fail to init channel to '' @ cf_server f))
     else if cf_method f = ''Put'' then client_Put ch w f
     else if cf_method f = ''Get'' then client_Get ch w f
     else if cf_method f = ''Delete'' then client_Delete ch w f
     else if cf_method f = ''CAS'' then client_CAS ch w f
     else if cf_method f = ''GetHealth'' then client_GetHealth ch w
     else if cf_method f = ''AddPeer'' \<or> cf_method f = ''RemovePeer'' then client_Peer ch w f
     else (w, logged (''unknown method: '' @ cf_method f)))"

section \<open>What a run says\<close>

lemma exit_sel [simp]:
  "ex_code (printed s) = 0" "ex_out (printed s) = s @ [CHR 0x0A]" "ex_log (printed s) = []"
  "ex_code (logged s) = 1" "ex_out (logged s) = []" "ex_log (logged s) = s"
  by (simp_all add: printed_def logged_def)

text \<open>The number of a code tells the code, in what is printed too.\<close>

lemma printed_code_OK:
  assumes "prefix ''0 '' (to_string (code_number c) @ s)"
  shows "c = OK"
proof -
  have "to_string 1 = ''1''" "to_string 2 = ''2''" "to_string 3 = ''3''" "to_string 4 = ''4''"
    "to_string 5 = ''5''" "to_string 6 = ''6''" "to_string 100 = ''100''"
    by code_simp+
  with assms show ?thesis by (cases c) simp_all
qed

section \<open>A channel to a node\<close>

text \<open>
  What the client relies on in brpc: a call that did not fail was handled once by the service of
  the node at the other end, with a fresh response; \<open>cntl\<close> is the controller of a gRPC call, which
  has no unresolved path.
\<close>

definition serves :: "'n channel \<Rightarrow> codec \<Rightarrow> 'n ConfigNode \<Rightarrow> http_request \<Rightarrow> bool" where
  "serves ch P N cntl \<longleftrightarrow> rq_unresolved_path cntl = [] \<and>
     (\<forall>n rq n' resp. st_Put ch n rq = (n', Inr resp) \<longrightarrow> (n', resp) = KV_Put P N n cntl rq KVResponse_init) \<and>
     (\<forall>n rq n' resp. st_Get ch n rq = (n', Inr resp) \<longrightarrow> n' = n \<and> resp = KV_Get N n cntl rq KVResponse_init) \<and>
     (\<forall>n rq n' resp. st_Delete ch n rq = (n', Inr resp) \<longrightarrow> (n', resp) = KV_Delete P N n cntl rq KVResponse_init) \<and>
     (\<forall>n rq n' resp. st_CompareAndSwap ch n rq = (n', Inr resp) \<longrightarrow>
        (n', resp) = KV_CompareAndSwap P N n cntl rq KVResponse_init)"

lemma servesD:
  assumes "serves ch P N cntl"
  shows "st_Put ch n \<lparr>pr_key = k, pr_value = v\<rparr> = (n', Inr resp) \<Longrightarrow> DoPut P N n k v KVResponse_init = (n', resp)"
    "st_Get ch n \<lparr>gq_key = k, gq_serializable = s\<rparr> = (n', Inr resp) \<Longrightarrow>
      n' = n \<and> resp = DoGet N n k s KVResponse_init"
    "st_Delete ch n \<lparr>dr_key = k\<rparr> = (n', Inr resp) \<Longrightarrow> DoDelete P N n k KVResponse_init = (n', resp)"
    "st_CompareAndSwap ch n \<lparr>casr_key = k, casr_expect = x, casr_value = v\<rparr> = (n', Inr resp) \<Longrightarrow>
      DoCAS P N n k x v KVResponse_init = (n', resp)"
  using assms
  by (fastforce simp: serves_def KV_Put_def KV_Get_def KV_Delete_def KV_CompareAndSwap_def ResolveKey_def)+

text \<open>The runs of the client that printed an answer.\<close>

lemma ran_Put:
  assumes "serves ch P N cntl" "client_main ch n f = (n', e)" "cf_method f = ''Put''"
    and "prefix ''Put ok, code=0 '' (ex_out e)"
  obtains resp where "DoPut P N n (cf_key f) (cf_value f) KVResponse_init = (n', resp)" "kr_code resp = OK"
proof -
  obtain resp s where "st_Put ch n \<lparr>pr_key = cf_key f, pr_value = cf_value f\<rparr> = (n', Inr resp)"
      "ex_out e = ''Put ok, code='' @ to_string (code_number (kr_code resp)) @ s"
    using assms(2-4) by (auto simp: client_main_def client_Put_def split: if_splits prod.splits sum.splits)
  then show thesis
    using assms(4) printed_code_OK [of "kr_code resp" s] servesD(1) [OF assms(1)] by (intro that) auto
qed

lemma ran_Get:
  assumes "serves ch P N cntl" "client_main ch n f = (n', e)" "cf_method f = ''Get''" "ex_code e = 0"
  obtains resp where "n' = n" "resp = DoGet N n (cf_key f) False KVResponse_init"
    "ex_out e = (if kr_code resp \<noteq> OK
      then ''Get: code='' @ to_string (code_number (kr_code resp)) @ '' message='' @ kr_message resp @ [CHR 0x0A]
      else ''Get: value='' @ kv_value (resp_kv resp) @ '' version='' @ to_string (kv_version (resp_kv resp)) @
        '' revision='' @ to_string (kv_revision (resp_kv resp)) @ [CHR 0x0A])"
proof -
  obtain resp where "st_Get ch n \<lparr>gq_key = cf_key f, gq_serializable = False\<rparr> = (n', Inr resp)"
      "e = snd (client_Get ch n f)"
    using assms(2-4) by (auto simp: client_main_def client_Get_def split: if_splits prod.splits sum.splits)
  then show thesis
    using servesD(2) [OF assms(1)] by (intro that) (auto simp: client_Get_def)
qed

section \<open>Properties\<close>


text \<open>A channel to the node that always answers; a gRPC call is a POST without an unresolved path.\<close>

definition grpc_cntl :: http_request where
  "grpc_cntl = http_req HTTP_METHOD_POST [] []"

definition direct_channel :: "codec \<Rightarrow> 'n ConfigNode \<Rightarrow> 'n channel" where
  "direct_channel P N = \<lparr>ch_Init = (\<lambda>addr timeout. 0),
     st_Put = (\<lambda>n rq. map_prod id Inr (KV_Put P N n grpc_cntl rq KVResponse_init)),
     st_Get = (\<lambda>n rq. (n, Inr (KV_Get N n grpc_cntl rq KVResponse_init))),
     st_Delete = (\<lambda>n rq. map_prod id Inr (KV_Delete P N n grpc_cntl rq KVResponse_init)),
     st_CompareAndSwap = (\<lambda>n rq. map_prod id Inr (KV_CompareAndSwap P N n grpc_cntl rq KVResponse_init)),
     st_GetHealth = (\<lambda>n. (n, Inr (snd (Admin_GetHealth N n grpc_cntl http_response_init
       \<lparr>hr_code = OK, hr_message = [], hr_role = [], hr_term = 0, hr_commit_index = 0, hr_applied_index = 0,
        hr_leader_id = [], hr_peers = []\<rparr>)))),
     st_AddPeer = (\<lambda>n p. (n, Inr (snd (Admin_AddPeer N n grpc_cntl p http_response_init
       \<lparr>adm_code = OK, adm_message = []\<rparr>)))),
     st_RemovePeer = (\<lambda>n p. (n, Inr (snd (Admin_RemovePeer N n grpc_cntl p http_response_init
       \<lparr>adm_code = OK, adm_message = []\<rparr>))))\<rparr>"

lemma direct_serves: "serves (direct_channel P N) P N grpc_cntl"
  by (auto simp: serves_def direct_channel_def grpc_cntl_def http_req_def map_prod_def split: prod.splits)

abbreviation mem_channel :: "mem_db LocalNode channel" where
  "mem_channel \<equiv> direct_channel ref_codec (LocalNode_class mem_leveldb ref_codec)"

definition run_args :: "string \<Rightarrow> string \<Rightarrow> string \<Rightarrow> client_flags" where
  "run_args meth key val = client_flags_init\<lparr>cf_method := meth, cf_key := key, cf_value := val\<rparr>"


text \<open>
  The exit code tells whether a call was made and answered, not what the answer was: the help text
  names a method that the client does not have, and a put that the service refused prints
  "Put ok" and exits with 0.
\<close>

lemma batch_put_unknown:
  "''BatchPut'' \<in> set documented_methods"
  "ch_Init ch (c_str (cf_server f)) (cf_timeout_ms f) = 0 \<Longrightarrow> cf_method f = ''BatchPut'' \<Longrightarrow>
    client_main ch w f = (w, logged ''unknown method: BatchPut'')"
  by (simp_all add: documented_methods_def client_main_def)

lemma refused_put_exits_zero:
  "snd (client_main mem_channel empty_node (run_args ''Put'' [] ''1'')) =
    printed ''Put ok, code=6 version=0 revision=0''"
  by code_simp

end
