(* ===== verification/Spec2Isabelle.thy ===== *)
theory Spec2Isabelle
  imports Shutdown WatchLive Cluster StoreLock Client
begin

text \<open>
  Configraft: a configuration store replicated with Raft.

  The program.  A server process (src/src/server, src/src/main) answers HTTP and gRPC requests with
  a node (src/src/raft).  A write becomes a RaftCmd; in cluster mode braft replicates it and every
  replica's state machine (src/src/raft/state_machine.cpp) applies the committed commands in order
  to its store (src/src/store), a multi-version key-value store over LevelDB; in single-node mode
  LocalNode applies it at once.  The events of a command go to the watch hub (src/src/watch), which
  wakes the pending long polls.  A thread of the server compacts the store; Raft snapshots export
  and load it.

  Conventions.  A class is a record of its data members, a method a function of the record or of
  the members it uses; an output parameter is a result; a call that can throw returns a sum with
  the exception on the left; a loop that waits for its environment is a partial_function, None if
  it never returns.  int64_t values are integers with the wrap-around written out (\<open>inc64\<close>, \<open>s64\<close>,
  \<open>u64\<close>); the theorems that need it assume that the revision stays below 2^63.  Code outside src is
  a parameter with its documented behaviour as a locale: LevelDB and the file system (\<open>leveldb\<close>,
  \<open>leveldb_readable\<close>, \<open>fresh_disk\<close>), the generated message codecs (\<open>protobuf\<close>, \<open>cmd_protobuf\<close>), braft's
  snapshot files (\<open>snapshot_medium\<close>), Raft and its leader lease (\<open>raft_run\<close>).  Each is interpreted on a
  reference implementation, which the witnesses evaluate.

  The theories, from the bottom.
  \<^item> \<open>Prelude\<close>: integer widths, the bytewise order, ordered association lists, lemma collections.
  \<^item> \<open>CStdlib\<close>, \<open>CppString\<close>: what the sources use of the C and C++ libraries.
  \<^item> \<open>StoreKey\<close>: src/src/common/storekey.cpp, the database keys and integer encodings.
  \<^item> \<open>Proto\<close>, \<open>CmdCodec\<close>: the messages of src/proto/configraft.proto and their codecs.
  \<^item> \<open>LevelDB\<close>: the interface of LevelDB and of std::filesystem.
  \<^item> \<open>Store\<close>: src/src/store/store.cpp, every method, as functions of the database state.
  \<^item> \<open>Mvcc\<close>: the abstract multi-version store, its commands, its invariant, agreement of two states.
  \<^item> \<open>StoreSpec\<close>, \<open>StoreOps\<close>: the abstraction of database contents to \<open>Mvcc\<close>; the store and
    src/src/store/store_ops.cpp refine the abstract commands, write errors included.
  \<^item> \<open>HistScan\<close>, \<open>Compaction\<close>, \<open>Replay\<close>, \<open>History\<close>, \<open>Snapshot\<close>: the loops over the database: compaction,
    watch replay, version history, snapshot export and load.
  \<^item> \<open>StoreSystem\<close>: commands, compaction and watch resumption interleaved, as a step relation.
  \<^item> \<open>StoreApi\<close>: the contract of the store towards a node, as the locale \<open>mvcc_store\<close>.
  \<^item> \<open>Replicas\<close>: replicas with the same log agree; where they do not.
  \<^item> \<open>Progress\<close>: ranks along infinite runs and bounded ones, which the liveness proofs share.
  \<^item> \<open>WatchHub\<close>, \<open>WatchSystem\<close>: src/src/watch/watch_hub.cpp; Watch is a machine of steps that
    interleave with the state machine, the broadcast and compaction.  \<open>WatchLive\<close>: infinite runs of that
    system; a poll that is scheduled fairly returns, and answers an event that reaches it.
  \<^item> \<open>StateMachine\<close>, \<open>RaftSnapshot\<close>: src/src/raft/state_machine.h and .cpp, batches of log entries,
    closures, saving and installing snapshots.
  \<^item> \<open>LocalNode\<close>: src/src/raft/node.h and local_node.cpp; the single node does what the state
    machine does.  \<open>LocalSystem\<close>: many threads that call it, the mutex of Apply, the compaction thread and
    a long poll as one step relation; \<open>StoreLock\<close>: the shared mutex of the store, calls against the
    installation of a snapshot.
  \<^item> \<open>RaftNode\<close>, \<open>LinearRead\<close>, \<open>RaftApi\<close>: src/src/raft/raft_node.cpp; linearizable reads, proposals,
    membership changes, and that every wait ends.
  \<^item> \<open>Cluster\<close>: replicas with their state machines, stores, compaction threads and snapshots over one
    committed log, as a step relation with its invariant; the hypotheses of \<open>LinearRead\<close> on what a
    store holds follow from it.
  \<^item> \<open>Rest\<close>, \<open>KvService\<close>, \<open>ConfigService\<close>, \<open>AdminService\<close>: src/src/server/rest_util.h and the five
    services; \<open>NodeContract\<close> is the contract of a node towards the services (locale \<open>config_node\<close>).
  \<^item> \<open>Server\<close>: src/src/server/server.cpp and src/src/main/server_main.cpp, start-up and the compaction
    loop.  \<open>Shutdown\<close>: the destructor against the compaction thread, with their mutex, condition
    variable and flag, and the order in which the members go.
  \<^item> \<open>Client\<close>: src/client/client_main.cpp, the command-line client over the generated stubs.

  What is shown.  The store refines the abstract store command by command; commands, compaction and
  replay interleaved keep it well formed; compaction removes exactly what it may; a resumed watch
  and a long poll (over REST too, from the query string to the response) miss nothing, except in the two
  cases the counterexamples exhibit, and every poll returns; replicas of a cluster agree in every reachable state, whatever the interleaving of
  batches, compactions, snapshots, installations and restarts from a snapshot, and their linearizable reads see every answered
  write; exhibited are the divergences by a rollback after a compaction, by a late export, by a
  restart before the first snapshot and by a refused write, and the null pointer an installation that
  fails leaves behind; the cluster's and the
  single node's write paths coincide; the single node is linearizable under concurrent callers, and no
  call of the store sees a database that is being replaced; the server stops in a bounded number of steps; the
  services send at most one well-formed command per request and read back what they wrote, and the
  command-line client prints it.

  Bounds and fuel.  No function has fuel; the waits of RaftNode are proved to return under
  \<open>time_passes\<close>.  The watch machine is a step function: the safety theorems assume nothing of its
  scheduling, the liveness theorems that the poll runs again and again while the clock goes on
  (\<open>fair_poll\<close>).  The shutdown needs no fairness: once the flag is set at most five steps are left.

  Not modelled: src/src/common/log.h and status.h (logging; status.h is not used), the four callbacks of
  the state machine that only log, RunUntilAskedToQuit (it blocks in brpc), the registration calls of
  brpc and braft beyond their results, the generated protobuf code, the web page and the scripts.
  What is left uncovered of the C++ files are includes, declarations in the headers whose
  definitions are modelled, and comments.
\<close>

section \<open>Writes and reads across the cluster\<close>

text \<open>Commands leave the current records of other keys alone.\<close>

lemma s_batch_from_frame:
  "k \<notin> fst ` set kvs \<Longrightarrow> m_main (fst (s_batch_from m0 m kvs)) k = m_main m k"
  by (induction m0 m kvs rule: s_batch_from.induct) (auto simp: Let_def case_prod_beta s_record_def)

lemma s_apply_frame:
  "k \<notin> set (cmd_keys cmd) \<Longrightarrow> m_main (fst (s_apply m cmd)) k = m_main m k"
  by (cases cmd) (auto simp: Let_def case_prod_beta s_put_def s_delete_def s_publish_def s_batch_def s_record_def
      s_batch_from_frame split: option.split)

lemma s_run_frame:
  "\<forall>cmd \<in> set cmds. k \<notin> set (cmd_keys cmd) \<Longrightarrow> m_main (fst (s_run m cmds)) k = m_main m k"
  by (induction cmds arbitrary: m) (simp_all add: case_prod_beta s_apply_frame)

text \<open>The value of the last put of a key in a log.\<close>

lemma last_put_read:
  assumes "i < k" "i < length log" "log ! i = Some (Cmd_put key val)"
    and "\<forall>cmd. Some cmd \<in> set (drop (Suc i) log) \<longrightarrow> key \<notin> set (cmd_keys cmd)"
  shows "\<exists>kv. s_get (log_state start log k) key = Some kv \<and> kv_value kv = val"
proof -
  let ?before = "List.map_filter id (take i log)" and ?after = "List.map_filter id (take (k - Suc i) (drop (Suc i) log))"
  have "take k log = take i log @ log ! i # take (k - Suc i) (drop (Suc i) log)"
    using assms(1,2) id_take_nth_drop [of i "take k log"] by (simp add: min_absorb1 drop_take)
  then have "List.map_filter id (take k log) = ?before @ Cmd_put key val # ?after"
    using assms(3) by (simp add: List.map_filter_def)
  then have run: "log_state start log k =
      fst (s_run (fst (s_apply (fst (s_run start ?before)) (Cmd_put key val))) ?after)"
    by (simp add: log_state_def s_run_append s_run_Cons del: s_run.simps)
  have "\<forall>cmd \<in> set ?after. key \<notin> set (cmd_keys cmd)"
    using assms(4) by (auto simp: List.map_filter_def dest!: in_set_takeD)
  from s_run_frame [OF this] show ?thesis
    unfolding run by (simp add: s_get_def s_put_def s_record_def Let_def)
qed

text \<open>
  (C5) A client reads what was written.  In every run in which braft keeps its promises, if a put
  of a key had its answer before a linearizable Get of the key begins, and no later entry of the log
  names the key, then a Get that answers from the store answers OK with the value of the put,
  whichever node served the put.
\<close>

theorem answered_write_is_read:
  assumes "raft_run L C P utf8 env log start acked stored"
    and "i < acked t" "i < length log" "log ! i = Some (Cmd_put key val)"
    and "\<forall>cmd. Some cmd \<in> set (drop (Suc i) log) \<longrightarrow> key \<notin> set (cmd_keys cmd)"
    and "RaftNode_Get L P env n t key False GetResult_init = Some (Returned r)"
    and "gr_code r = OK \<or> gr_code r = KEY_NOT_FOUND"
  shows "gr_code r = OK \<and> kv_value (gr_kv r) = val"
proof -
  obtain s u v where g: "t \<le> s" "s \<le> u" "u \<le> v" "en_lease env s = LEASE_VALID"
      "ns_committed_index (en_status env u) \<le> ns_known_applied_index (en_status env u)"
      "r = answer_get (GetLocked L P (en_db env v) key) GetResult_init"
    by (rule get_from_store [OF assms(6,7)])
  have "i < stored v"
    using assms(2) raft_run.acked_mono [OF assms(1) g(1)] raft_run.caught_up [OF assms(1) g(2-5)] by linarith
  from last_put_read [OF this assms(3-5), of start] obtain kv
    where "s_get (log_state start log (stored v)) key = Some kv" "kv_value kv = val" by blast
  with raft_run.read_view [OF assms(1), of v key] g(6) show ?thesis by (simp add: answer_get_def)
qed

theorem answered_write_is_read_witness:
  "\<exists>r. RaftNode_Get mem_leveldb ref_codec demo_env demo_node 0 ''a'' False GetResult_init = Some (Returned r) \<and>
     gr_code r = OK \<and> kv_value (gr_kv r) = ''2''"
proof -
  have "case RaftNode_Get mem_leveldb ref_codec demo_env demo_node 0 ''a'' False GetResult_init of
      Some (Returned r) \<Rightarrow> gr_code r = OK | _ \<Rightarrow> False"
    by code_simp
  then obtain r where r: "RaftNode_Get mem_leveldb ref_codec demo_env demo_node 0 ''a'' False GetResult_init =
      Some (Returned r)" "gr_code r = OK"
    by (auto split: option.splits call.splits)
  have "demo_cmds ! 2 = Some (Cmd_put ''a'' ''2'')" "2 < length demo_cmds" "drop (Suc 2) demo_cmds = []"
    by (simp_all add: demo_cmds_def)
  with answered_write_is_read [OF demo_run.raft_run_axioms _ _ _ _ r(1), of 2 "''2''"] r show ?thesis by simp
qed

section \<open>A long poll over REST\<close>

text \<open>
  The long poll from the request to the response.  The poll that \<open>Watch_Rest\<close> starts runs among the
  writers, the broadcasts and the compaction; the response that \<open>DoWatch\<close> then fills in for a
  query whose from_revision reads as a positive number has, beyond that revision, all
  the events of the key of the path up to the anchor of the response, each once and in order.
\<close>

lemma rest_watch_gapless:
  assumes "store_env L C P utf8" "Watch_Rest deadline_us rq rs0 resp0 w = (rs', Inr a)"
    and "watch_start C P a s" "(watch_sys_step L C P utf8 a)\<^sup>*\<^sup>* s s'" "ws_pc s' = W_return ok out"
    and from_pos: "0 < QueryInt64 rq ''from_revision'' 0"
    and resp: "resp = DoWatch_answer out WatchResponse_init" "wp_events resp \<noteq> []"
  shows "wp_current_revision resp = ev_revision (last (wp_events resp)) \<and>
    filter (\<lambda>e. QueryInt64 rq ''from_revision'' 0 < ev_revision e) (wp_events resp) =
      range_events (ws_ev s') (rq_unresolved_path rq) (QueryInt64 rq ''from_revision'' 0) (wp_current_revision resp)"
proof -
  have a: "wa_from a = QueryInt64 rq ''from_revision'' 0" "wa_key a = rq_unresolved_path rq"
    using assms(2) from_pos
    by (auto simp: Watch_Rest_def DoWatch_call_def watch_args_init_def split: prod.splits if_splits)
  have "watch_inv C P a s'"
    using store_env.sys_steps_keep [OF assms(1,4) watch_start_inv [OF assms(3)]] from_pos a by simp
  with assms(5) have "answer_ok (ws_ev s') a (m_rev (mvcc_of P (C (ws_db s')))) out"
    by (simp add: watch_inv_def)
  with resp show ?thesis
    by (simp add: answer_ok_def DoWatch_answer_def WatchResponse_init_def a)
qed

section \<open>Database keys\<close>

text \<open>
  The encodings of integers in keys and values are faithful: every int64_t survives the
  eight-byte encoding of the metadata, and the fixed-width hexadecimal of the keys decodes to its
  number, or throws out_of_range for the negative numbers, which no key of a store holds.
\<close>

lemma integer_encodings_roundtrip:
  assumes "i64 v"
  shows "s64 (DecodeUint64 (EncodeUint64 (u64 v))) = v \<and> length (EncodeUint64 (u64 v)) = 8 \<and>
    DecodeOrd (EncodeOrd v) = (if 0 \<le> v then Inr v else Inl Out_of_range) \<and> length (EncodeOrd v) = 16"
  using assms by (simp add: DecodeOrd_EncodeOrd_cases s64_u64)

end
